(* ===== verification/Prelude.thy ===== *)
theory Prelude
  imports Main "HOL-Library.Word" "HOL-Library.Monad_Syntax"
begin

text \<open>
  Shared material of the development: the names of the machine types, the first-match search
  that every fixed-size kernel table uses (\<open>for (i = 0; i < MAX; ++i) if (...) return &table[i]\<close>),
  the contract of a table of slots identified by a key, and the facts that move a 64-bit or
  32-bit computation from words to natural numbers.
\<close>

section \<open>Machine types\<close>

type_synonym u8 = "8 word"
type_synonym u16 = "16 word"
type_synonym u32 = "32 word"
type_synonym u64 = "64 word"

named_theorems table_simps \<open>reading and updating the fixed-size tables\<close>
named_theorems word_nat \<open>from words to natural numbers\<close>

section \<open>First-match search in a table\<close>

text \<open>
  The index of the first element that satisfies the test, as the kernel's search loops compute
  it; \<^const>\<open>None\<close> is the loop that falls through and returns \<open>nullptr\<close>.
\<close>

primrec find_idx :: "('a \<Rightarrow> bool) \<Rightarrow> 'a list \<Rightarrow> nat option" where
  "find_idx P [] = None"
| "find_idx P (x # xs) = (if P x then Some 0 else map_option Suc (find_idx P xs))"

lemma find_idx_None_iff [table_simps]: "find_idx P xs = None \<longleftrightarrow> (\<forall>x \<in> set xs. \<not> P x)"
  by (induction xs) auto

lemma find_idx_Some_iff:
  "find_idx P xs = Some i \<longleftrightarrow> i < length xs \<and> P (xs ! i) \<and> (\<forall>j < i. \<not> P (xs ! j))"
proof (induction xs arbitrary: i)
  case Nil
  then show ?case by simp
next
  case (Cons x xs)
  show ?case
  proof (cases i)
    case 0
    then show ?thesis by auto
  next
    case (Suc k)
    then show ?thesis
      using Cons.IH [of k] by (auto simp: less_Suc_eq_0_disj)
  qed
qed

lemma find_idx_SomeD:
  assumes "find_idx P xs = Some i"
  shows "i < length xs" and "P (xs ! i)" and "\<And>j. j < i \<Longrightarrow> \<not> P (xs ! j)"
  using assms by (auto simp: find_idx_Some_iff)

lemma find_idx_cong:
  "\<lbrakk>xs = ys; \<And>x. x \<in> set ys \<Longrightarrow> P x = Q x\<rbrakk> \<Longrightarrow> find_idx P xs = find_idx Q ys"
  by (induction xs arbitrary: ys) auto

lemma find_idx_nth_cong:
  "\<lbrakk>length ys = length xs; \<And>i. i < length xs \<Longrightarrow> P (xs ! i) \<longleftrightarrow> Q (ys ! i)\<rbrakk> \<Longrightarrow> find_idx P xs = find_idx Q ys"
proof (induction xs arbitrary: ys)
  case (Cons x xs)
  then obtain y zs where ys: "ys = y # zs" "length zs = length xs" by (cases ys) auto
  have "P x \<longleftrightarrow> Q y" using Cons.prems(2) [of 0] ys by simp
  moreover have "P (xs ! i) \<longleftrightarrow> Q (zs ! i)" if "i < length xs" for i
    using Cons.prems(2) [of "Suc i"] ys that by simp
  then have "find_idx P xs = find_idx Q zs" using Cons.IH ys by blast
  ultimately show ?case using ys by simp
qed simp

lemma find_idx_replicate [simp]:
  "find_idx P (replicate n x) = (if 0 < n \<and> P x then Some 0 else None)"
  by (induction n) auto

lemma find_idx_first:
  "\<lbrakk>i < length xs; P (xs ! i); \<And>j. j < length xs \<Longrightarrow> P (xs ! j) \<Longrightarrow> j = i\<rbrakk>
     \<Longrightarrow> find_idx P xs = Some i"
  unfolding find_idx_Some_iff by (metis order.strict_trans less_irrefl)

lemma nth_update_if [table_simps]: "xs[i := x] ! j = (if i = j \<and> i < length xs then x else xs ! j)"
  by (cases "i < length xs") (auto simp: nth_list_update list_update_beyond)

text \<open>The number of elements that satisfy a test, as the counting loops compute it.\<close>

primrec count_if :: "('a \<Rightarrow> bool) \<Rightarrow> 'a list \<Rightarrow> nat" where
  "count_if P [] = 0"
| "count_if P (x # xs) = (if P x then Suc (count_if P xs) else count_if P xs)"

lemma count_if_filter: "count_if P xs = length (filter P xs)"
  by (induction xs) auto

lemma count_if_le: "count_if P xs \<le> length xs"
  by (simp add: count_if_filter)

lemma count_if_update:
  "i < length xs \<Longrightarrow>
     count_if P (xs[i := y]) + (if P (xs ! i) then 1 else 0)
       = count_if P xs + (if P y then 1 else 0)"
proof (induction xs arbitrary: i)
  case (Cons x xs)
  then show ?case
    by (cases i) (auto split: if_splits)
qed simp

lemma count_if_zero_iff: "count_if P xs = 0 \<longleftrightarrow> (\<forall>x \<in> set xs. \<not> P x)"
  by (induction xs) auto

lemma count_if_full: "count_if P xs = length xs \<longleftrightarrow> (\<forall>x \<in> set xs. P x)"
proof (induction xs)
  case (Cons x xs)
  then show ?case using count_if_le [of P xs] by auto
qed simp

section \<open>Tables of slots with a key\<close>

text \<open>
  The kernel keeps its objects in arrays of slots; a slot is in use or free, and the slots in use
  are told apart by a key (a task identifier, a patch name, an IPv4 address). The contract below
  is what the clients of such a table rely on.
\<close>

definition slot_uniq :: "('a \<Rightarrow> bool) \<Rightarrow> ('a \<Rightarrow> 'k) \<Rightarrow> 'a list \<Rightarrow> bool" where
  "slot_uniq used key tab \<longleftrightarrow>
     (\<forall>i < length tab. \<forall>j < length tab.
        used (tab ! i) \<and> used (tab ! j) \<and> key (tab ! i) = key (tab ! j) \<longrightarrow> i = j)"

locale slot_table =
  fixes used :: "'a \<Rightarrow> bool"
    and key :: "'a \<Rightarrow> 'k"
    and blank :: 'a
  assumes blank_unused: "\<not> used blank"
begin

lemma uniq_replicate: "slot_uniq used key (replicate n blank)"
  by (simp add: slot_uniq_def blank_unused)

lemma lookup_eq_Some:
  assumes "slot_uniq used key tab" and "i < length tab" and "used (tab ! i)"
  shows "find_idx (\<lambda>x. used x \<and> key x = key (tab ! i)) tab = Some i"
  using assms unfolding slot_uniq_def by (intro find_idx_first) auto

lemma fresh_key:
  assumes "find_idx (\<lambda>x. used x \<and> key x = k) tab = None" and "j < length tab" and "used (tab ! j)"
  shows "key (tab ! j) \<noteq> k"
  using assms by (auto simp: find_idx_None_iff)

lemma uniq_insert:
  assumes uniq: "slot_uniq used key tab" and i: "i < length tab"
    and fresh: "\<And>j. j < length tab \<Longrightarrow> used (tab ! j) \<Longrightarrow> j \<noteq> i \<Longrightarrow> key (tab ! j) \<noteq> key x"
  shows "slot_uniq used key (tab[i := x])"
  unfolding slot_uniq_def
proof (intro allI impI)
  fix a b
  assume a: "a < length (tab[i := x])" and b: "b < length (tab[i := x])"
    and eq: "used (tab[i := x] ! a) \<and> used (tab[i := x] ! b) \<and> key (tab[i := x] ! a) = key (tab[i := x] ! b)"
  show "a = b"
  proof (cases "a = i \<or> b = i")
    case True
    then show ?thesis
      using a b eq i fresh [of a] fresh [of b] by (auto simp: nth_list_update split: if_splits)
  next
    case False
    then show ?thesis
      using a b eq uniq by (auto simp: slot_uniq_def nth_list_update)
  qed
qed

lemma uniq_update:
  assumes "slot_uniq used key tab" and "i < length tab"
    and "used x \<Longrightarrow> used (tab ! i) \<and> key x = key (tab ! i)"
  shows "slot_uniq used key (tab[i := x])"
proof (cases "used x")
  case True
  then show ?thesis
    using assms by (intro uniq_insert) (auto simp: slot_uniq_def)
next
  case False
  then show ?thesis
    using assms(1,2) by (auto simp: slot_uniq_def nth_list_update)
qed

lemma uniq_delete:
  assumes "slot_uniq used key tab" and "i < length tab"
  shows "slot_uniq used key (tab[i := blank])"
  using assms by (intro uniq_update) (auto simp: blank_unused)

lemma lookup_inserted:
  assumes "slot_uniq used key (tab[i := x])" and "i < length tab" and "used x"
  shows "find_idx (\<lambda>y. used y \<and> key y = key x) (tab[i := x]) = Some i"
  using lookup_eq_Some [OF assms(1), of i] assms(2,3) by simp

lemma lookup_deleted:
  assumes "slot_uniq used key tab" and "i < length tab" and "used (tab ! i)"
  shows "find_idx (\<lambda>y. used y \<and> key y = key (tab ! i)) (tab[i := blank]) = None"
proof -
  have "\<not> (used (tab[i := blank] ! j) \<and> key (tab[i := blank] ! j) = key (tab ! i))" if "j < length tab" for j
    using assms that blank_unused unfolding slot_uniq_def by (cases "j = i") auto
  then show ?thesis
    by (auto simp: find_idx_None_iff in_set_conv_nth)
qed

lemma lookup_other:
  assumes "i < length tab" and "\<not> used (tab ! i) \<or> key (tab ! i) \<noteq> k" and "\<not> used x \<or> key x \<noteq> k"
  shows "find_idx (\<lambda>y. used y \<and> key y = k) (tab[i := x]) = find_idx (\<lambda>y. used y \<and> key y = k) tab"
  using assms
proof (induction tab arbitrary: i)
  case (Cons y tab)
  then show ?case by (cases i) auto
qed simp

end

section \<open>Words as natural numbers\<close>

lemma unat_of_nat_64 [word_nat]: "a < 2 ^ 64 \<Longrightarrow> unat (of_nat a :: u64) = a"
  by (simp add: unat_of_nat take_bit_nat_eq_self)

lemma unat_of_nat_32 [word_nat]: "a < 2 ^ 32 \<Longrightarrow> unat (of_nat a :: u32) = a"
  by (simp add: unat_of_nat take_bit_nat_eq_self)

lemma of_nat_less_64 [word_nat]:
  "\<lbrakk>a < 2 ^ 64; b < 2 ^ 64\<rbrakk> \<Longrightarrow> (of_nat a :: u64) < of_nat b \<longleftrightarrow> a < b"
  by (simp add: word_less_nat_alt unat_of_nat_64)

lemma of_nat_le_64 [word_nat]:
  "\<lbrakk>a < 2 ^ 64; b < 2 ^ 64\<rbrakk> \<Longrightarrow> (of_nat a :: u64) \<le> of_nat b \<longleftrightarrow> a \<le> b"
  by (simp add: word_le_nat_alt unat_of_nat_64)

lemma of_nat_eq_64 [word_nat]:
  "\<lbrakk>a < 2 ^ 64; b < 2 ^ 64\<rbrakk> \<Longrightarrow> (of_nat a :: u64) = of_nat b \<longleftrightarrow> a = b"
  by (metis unat_of_nat_64)

end
