(* ===== verification/Scheduler.thy ===== *)
theory Scheduler
  imports Prelude
begin

text \<open>
  The task scheduler of \<^verbatim>\<open>kernel/scheduler.cpp\<close> and \<^verbatim>\<open>kernel/scheduler.hpp\<close>, and the
  second scheduling policy of \<^verbatim>\<open>kernel/scheduler-deadline.cpp\<close>. The file-scope variables of
  the source (\<open>tasks\<close>, \<open>policies\<close>, \<open>policy_count\<close>, \<open>active_policy\<close>, \<open>current\<close>,
  \<open>next_task_id\<close>, \<open>scheduler_time_ns\<close>) are the fields of the record \<open>sched\<close>. A \<open>Task*\<close> is an
  index into the task table, a \<open>const Policy*\<close> an address of the policy memory \<open>P\<close>, with 0 for
  \<open>nullptr\<close>; a policy's callbacks are functions of the task table. Printing is left out.
\<close>

section \<open>Data\<close>

datatype task_state = Empty | Ready | Running | Sleeping | Blocked | Finished

record task =
  tid :: u64
  priority :: u32
  cpu :: u32
  runtime_ns :: u64
  deadline_ns :: u64
  tstate :: task_state
  tentry :: u64
  targ :: u64

text \<open>The all-zero task that \<open>memset\<close> leaves.\<close>

definition zero_task :: task where
  "zero_task = \<lparr>tid = 0, priority = 0, cpu = 0, runtime_ns = 0, deadline_ns = 0, tstate = Empty,
     tentry = 0, targ = 0\<rparr>"

record decision =
  task_id :: u64
  run :: bool
  preempt_current :: bool

record policy =
  pname :: "string option"
  p_init :: "(task list \<Rightarrow> task list \<times> bool) option"
  p_destroy :: "(task list \<Rightarrow> task list) option"
  enqueue :: "(task list \<Rightarrow> nat \<Rightarrow> task list \<times> bool) option"
  dequeue :: "(task list \<Rightarrow> nat \<Rightarrow> task list) option"
  p_pick_next :: "(task list \<Rightarrow> nat option \<Rightarrow> nat option) option"
  task_running :: "(task list \<Rightarrow> nat \<Rightarrow> task list) option"
  task_blocked :: "(task list \<Rightarrow> nat \<Rightarrow> task list) option"
  task_finished :: "(task list \<Rightarrow> nat \<Rightarrow> task list) option"
  should_preempt :: "(task list \<Rightarrow> nat option \<Rightarrow> nat option \<Rightarrow> bool) option"

type_synonym policy_mem = "u64 \<Rightarrow> policy"

definition MAX_TASKS :: nat where "MAX_TASKS = 256"
definition MAX_POLICIES :: nat where "MAX_POLICIES = 16"

record sched =
  tasks :: "task list"
  policies :: "u64 list"
  policy_count :: nat
  active_policy :: u64
  current :: "nat option"
  next_task_id :: u64
  scheduler_time_ns :: u64

section \<open>Lookup helpers\<close>

abbreviation used_task :: "task \<Rightarrow> bool" where
  "used_task t \<equiv> tstate t \<noteq> Empty"

definition find_free_task :: "sched \<Rightarrow> nat option" where
  "find_free_task s = find_idx (\<lambda>t. tstate t = Empty) (tasks s)"

definition find_task :: "sched \<Rightarrow> u64 \<Rightarrow> nat option" where
  "find_task s i = (if i = 0 then None else find_idx (\<lambda>t. used_task t \<and> tid t = i) (tasks s))"

definition set_state :: "nat \<Rightarrow> task_state \<Rightarrow> sched \<Rightarrow> sched" where
  "set_state i st s = s\<lparr>tasks := (tasks s)[i := (tasks s ! i)\<lparr>tstate := st\<rparr>]\<rparr>"

text \<open>Calling an optional callback on a task: nothing happens when the pointer is null.\<close>

definition notify :: "(task list \<Rightarrow> nat \<Rightarrow> task list) option \<Rightarrow> nat \<Rightarrow> sched \<Rightarrow> sched" where
  "notify cb i s = (case cb of None \<Rightarrow> s | Some f \<Rightarrow> s\<lparr>tasks := f (tasks s) i\<rparr>)"

section \<open>The default policy\<close>

text \<open>The score of a ready task before the penalty for the task that is running already.\<close>

definition base_score :: "task \<Rightarrow> u64" where
  "base_score t = ucast (priority t) * 1000 + runtime_ns t div 1000000"

text \<open>
  The loop of \<open>default_pick_next\<close>: \<open>cur\<close> is the identifier of the current task, \<open>i\<close> the index of
  the first task of the list still to visit.
\<close>

fun default_pick_loop :: "u64 option \<Rightarrow> task list \<Rightarrow> nat \<Rightarrow> nat option \<Rightarrow> u64 \<Rightarrow> nat option" where
  "default_pick_loop cur [] i best best_score = best"
| "default_pick_loop cur (t # ts) i best best_score =
     (if tstate t \<noteq> Ready then default_pick_loop cur ts (Suc i) best best_score
      else
        let score = base_score t;
            score' = (if cur = Some (tid t) \<and> best \<noteq> None then score div 2 else score)
        in if best = None \<or> best_score < score'
           then default_pick_loop cur ts (Suc i) (Some i) score'
           else default_pick_loop cur ts (Suc i) best best_score)"

definition current_id :: "task list \<Rightarrow> nat option \<Rightarrow> u64 option" where
  "current_id ts c = map_option (\<lambda>i. tid (ts ! i)) c"

definition default_pick_next :: "task list \<Rightarrow> nat option \<Rightarrow> nat option" where
  "default_pick_next ts c = default_pick_loop (current_id ts c) ts 0 None 0"

definition default_should_preempt :: "task list \<Rightarrow> nat option \<Rightarrow> nat option \<Rightarrow> bool" where
  "default_should_preempt ts cur cand =
     (case cand of None \<Rightarrow> False
      | Some k \<Rightarrow> (case cur of None \<Rightarrow> True | Some c \<Rightarrow> priority (ts ! c) < priority (ts ! k)))"

definition default_policy :: policy where
  "default_policy = \<lparr>pname = Some ''blockos-default'', p_init = Some (\<lambda>ts. (ts, True)),
     p_destroy = Some (\<lambda>ts. ts), enqueue = Some (\<lambda>ts i. (ts, True)), dequeue = Some (\<lambda>ts i. ts),
     p_pick_next = Some default_pick_next, task_running = Some (\<lambda>ts i. ts),
     task_blocked = Some (\<lambda>ts i. ts), task_finished = Some (\<lambda>ts i. ts),
     should_preempt = Some default_should_preempt\<rparr>"

section \<open>The deadline policy\<close>

text \<open>\<open>pick_next\<close> of the deadline policy runs an empty loop and returns the current task.\<close>

definition deadline_pick_next :: "task list \<Rightarrow> nat option \<Rightarrow> nat option" where
  "deadline_pick_next ts c = (case c of None \<Rightarrow> None | Some i \<Rightarrow> Some i)"

definition deadline_should_preempt :: "task list \<Rightarrow> nat option \<Rightarrow> nat option \<Rightarrow> bool" where
  "deadline_should_preempt ts cur cand =
     (case cand of None \<Rightarrow> False
      | Some k \<Rightarrow> (case cur of None \<Rightarrow> True
          | Some c \<Rightarrow> deadline_ns (ts ! k) \<noteq> 0 \<and> deadline_ns (ts ! c) \<noteq> 0 \<and>
              deadline_ns (ts ! k) < deadline_ns (ts ! c)))"

definition deadline_policy :: policy where
  "deadline_policy = \<lparr>pname = Some ''blockos-deadline'', p_init = Some (\<lambda>ts. (ts, True)),
     p_destroy = Some (\<lambda>ts. ts), enqueue = Some (\<lambda>ts i. (ts, True)), dequeue = Some (\<lambda>ts i. ts),
     p_pick_next = Some deadline_pick_next, task_running = Some (\<lambda>ts i. ts),
     task_blocked = Some (\<lambda>ts i. ts), task_finished = Some (\<lambda>ts i. ts),
     should_preempt = Some deadline_should_preempt\<rparr>"

section \<open>Policy registration\<close>

definition name_is :: "policy_mem \<Rightarrow> string \<Rightarrow> u64 \<Rightarrow> bool" where
  "name_is P n p \<longleftrightarrow> p \<noteq> 0 \<and> pname (P p) = Some n"

definition register_policy :: "policy_mem \<Rightarrow> u64 \<Rightarrow> sched \<Rightarrow> sched \<times> bool" where
  "register_policy P p s =
     (if p = 0 then (s, False)
      else case pname (P p) of None \<Rightarrow> (s, False)
      | Some n \<Rightarrow>
          if n = [] then (s, False)
          else if MAX_POLICIES \<le> policy_count s then (s, False)
          else if \<exists>q \<in> set (take (policy_count s) (policies s)). name_is P n q then (s, False)
          else
            let (s, ok) = (case p_init (P p) of None \<Rightarrow> (s, True)
                           | Some f \<Rightarrow> (let (ts, ok) = f (tasks s) in (s\<lparr>tasks := ts\<rparr>, ok)))
            in if \<not> ok then (s, False)
               else (s\<lparr>policies := (policies s)[policy_count s := p],
                       policy_count := policy_count s + 1\<rparr>, True))"

text \<open>The loop \<open>for (j = i; j + 1 < policy_count; ++j) policies[j] = policies[j + 1]\<close>.\<close>

function shift_down :: "nat \<Rightarrow> nat \<Rightarrow> u64 list \<Rightarrow> u64 list" where
  "shift_down j n xs = (if j + 1 < n then shift_down (j + 1) n (xs[j := xs ! (j + 1)]) else xs)"
  by pat_completeness auto
termination
  by (relation "measure (\<lambda>(j, n, xs). n - j)") auto

definition unregister_policy :: "policy_mem \<Rightarrow> string option \<Rightarrow> sched \<Rightarrow> sched \<times> bool" where
  "unregister_policy P name s =
     (case name of None \<Rightarrow> (s, False)
      | Some n \<Rightarrow>
          (case find_idx (name_is P n) (take (policy_count s) (policies s)) of
             None \<Rightarrow> (s, False)
           | Some i \<Rightarrow>
               if active_policy s = policies s ! i then (s, False)
               else
                 let s = (case p_destroy (P (policies s ! i)) of None \<Rightarrow> s
                          | Some f \<Rightarrow> s\<lparr>tasks := f (tasks s)\<rparr>);
                     ps = shift_down i (policy_count s) (policies s)
                 in (s\<lparr>policies := ps[policy_count s - 1 := 0],
                       policy_count := policy_count s - 1\<rparr>, True)))"

definition select_policy :: "policy_mem \<Rightarrow> string option \<Rightarrow> sched \<Rightarrow> sched \<times> bool" where
  "select_policy P name s =
     (case name of None \<Rightarrow> (s, False)
      | Some n \<Rightarrow>
          (case find_idx (name_is P n) (take (policy_count s) (policies s)) of
             None \<Rightarrow> (s, False)
           | Some i \<Rightarrow> (s\<lparr>active_policy := policies s ! i\<rparr>, True)))"

definition current_policy_name :: "policy_mem \<Rightarrow> sched \<Rightarrow> string option" where
  "current_policy_name P s = (if active_policy s = 0 then None else pname (P (active_policy s)))"

text \<open>The address of the source's static object \<open>default_policy\<close>.\<close>

definition default_policy_addr :: u64 where "default_policy_addr = 1"

definition scheduler_init :: "policy_mem \<Rightarrow> sched" where
  "scheduler_init P =
     (let s = \<lparr>tasks = replicate MAX_TASKS zero_task, policies = replicate MAX_POLICIES 0,
               policy_count = 0, active_policy = 0, current = None, next_task_id = 1,
               scheduler_time_ns = 0\<rparr>;
          s = fst (register_policy P default_policy_addr s)
      in fst (select_policy P (Some ''blockos-default'') s))"

section \<open>Tasks\<close>

definition active :: "policy_mem \<Rightarrow> (policy \<Rightarrow> 'a option) \<Rightarrow> sched \<Rightarrow> 'a option" where
  "active P field s = (if active_policy s = 0 then None else field (P (active_policy s)))"

definition create_task :: "policy_mem \<Rightarrow> u64 \<Rightarrow> u64 \<Rightarrow> sched \<Rightarrow> sched \<times> int" where
  "create_task P entry arg s =
     (if entry = 0 then (s, -1)
      else case find_free_task s of None \<Rightarrow> (s, -1)
      | Some i \<Rightarrow>
          let t = zero_task\<lparr>tid := next_task_id s, priority := 10, tstate := Ready,
                            tentry := entry, targ := arg\<rparr>;
              s = s\<lparr>tasks := (tasks s)[i := t], next_task_id := next_task_id s + 1\<rparr>
          in (case active P enqueue s of
                None \<Rightarrow> (s, sint (ucast (tid (tasks s ! i)) :: 32 word))
              | Some f \<Rightarrow>
                  let (ts, ok) = f (tasks s) i; s = s\<lparr>tasks := ts\<rparr>
                  in if ok then (s, sint (ucast (tid (tasks s ! i)) :: 32 word))
                     else (set_state i Empty s, -1)))"

definition destroy_task :: "policy_mem \<Rightarrow> u64 \<Rightarrow> sched \<Rightarrow> sched \<times> bool" where
  "destroy_task P k s =
     (case find_task s k of None \<Rightarrow> (s, False)
      | Some i \<Rightarrow>
          let s = notify (active P dequeue s) i s;
              s = (if current s = Some i then s\<lparr>current := None\<rparr> else s)
          in (s\<lparr>tasks := (tasks s)[i := zero_task]\<rparr>, True))"

definition get_task :: "sched \<Rightarrow> u64 \<Rightarrow> nat option" where
  "get_task s k = find_task s k"

definition task_count :: "sched \<Rightarrow> nat" where
  "task_count s = count_if used_task (tasks s)"

section \<open>Decisions\<close>

definition pick_next :: "policy_mem \<Rightarrow> sched \<Rightarrow> nat option" where
  "pick_next P s = (case active P p_pick_next s of None \<Rightarrow> None | Some f \<Rightarrow> f (tasks s) (current s))"

definition make_decision :: "policy_mem \<Rightarrow> sched \<Rightarrow> decision" where
  "make_decision P s =
     (case pick_next P s of
        None \<Rightarrow> \<lparr>task_id = 0, run = False, preempt_current = False\<rparr>
      | Some k \<Rightarrow>
          \<lparr>task_id = tid (tasks s ! k), run = True,
           preempt_current =
             (case active P should_preempt s of None \<Rightarrow> False
              | Some f \<Rightarrow> f (tasks s) (current s) (Some k))\<rparr>)"

definition scheduler_tick :: "policy_mem \<Rightarrow> u64 \<Rightarrow> sched \<Rightarrow> sched" where
  "scheduler_tick P elapsed s =
     (let s = s\<lparr>scheduler_time_ns := scheduler_time_ns s + elapsed\<rparr>;
          s = (case current s of None \<Rightarrow> s
               | Some c \<Rightarrow>
                   if tstate (tasks s ! c) = Running
                   then s\<lparr>tasks := (tasks s)[c := (tasks s ! c)\<lparr>runtime_ns := runtime_ns (tasks s ! c) + elapsed\<rparr>]\<rparr>
                   else s);
          d = make_decision P s
      in if \<not> run d then s
         else case find_task s (task_id d) of None \<Rightarrow> s
         | Some next \<Rightarrow>
             if current s = None \<or> preempt_current d then
               let s = (case current s of None \<Rightarrow> s
                        | Some c \<Rightarrow> if c \<noteq> next \<and> tstate (tasks s ! c) = Running
                                    then set_state c Ready s else s);
                   s = set_state next Running (s\<lparr>current := Some next\<rparr>)
               in notify (active P task_running s) next s
             else s)"

section \<open>State helpers\<close>

definition set_ready :: "u64 \<Rightarrow> sched \<Rightarrow> sched \<times> bool" where
  "set_ready k s = (case find_task s k of None \<Rightarrow> (s, False) | Some i \<Rightarrow> (set_state i Ready s, True))"

definition set_running :: "policy_mem \<Rightarrow> u64 \<Rightarrow> sched \<Rightarrow> sched \<times> bool" where
  "set_running P k s =
     (case find_task s k of None \<Rightarrow> (s, False)
      | Some i \<Rightarrow>
          let s = set_state i Running (s\<lparr>current := Some i\<rparr>)
          in (notify (active P task_running s) i s, True))"

definition set_sleeping :: "u64 \<Rightarrow> sched \<Rightarrow> sched \<times> bool" where
  "set_sleeping k s = (case find_task s k of None \<Rightarrow> (s, False) | Some i \<Rightarrow> (set_state i Sleeping s, True))"

definition set_blocked :: "policy_mem \<Rightarrow> u64 \<Rightarrow> sched \<Rightarrow> sched \<times> bool" where
  "set_blocked P k s =
     (case find_task s k of None \<Rightarrow> (s, False)
      | Some i \<Rightarrow>
          let s = set_state i Blocked s; s = notify (active P task_blocked s) i s
          in (if current s = Some i then s\<lparr>current := None\<rparr> else s, True))"

definition set_finished :: "policy_mem \<Rightarrow> u64 \<Rightarrow> sched \<Rightarrow> sched \<times> bool" where
  "set_finished P k s =
     (case find_task s k of None \<Rightarrow> (s, False)
      | Some i \<Rightarrow>
          let s = set_state i Finished s; s = notify (active P task_finished s) i s
          in (if current s = Some i then s\<lparr>current := None\<rparr> else s, True))"

section \<open>The cooperative interface\<close>

definition yield :: "policy_mem \<Rightarrow> sched \<Rightarrow> sched" where
  "yield P s =
     (case current s of None \<Rightarrow> s
      | Some c \<Rightarrow>
          let s = set_state c Ready s
          in (case pick_next P s of None \<Rightarrow> s
              | Some n \<Rightarrow> set_state n Running (s\<lparr>current := Some n\<rparr>)))"

text \<open>
  One round of \<open>run_scheduler_loop\<close>: \<^const>\<open>None\<close> is the \<open>break\<close>. \<open>call entry arg\<close> is what running
  the task's entry function does to the scheduler.
\<close>

definition loop_round ::
  "(u64 \<Rightarrow> u64 \<Rightarrow> sched \<Rightarrow> sched) \<Rightarrow> policy_mem \<Rightarrow> sched \<Rightarrow> sched option" where
  "loop_round call P s =
     (let d = make_decision P s
      in if \<not> run d then None
         else case find_task s (task_id d) of None \<Rightarrow> None
         | Some i \<Rightarrow>
             let s = set_state i Running (s\<lparr>current := Some i\<rparr>);
                 s = notify (active P task_running s) i s;
                 s = (if tentry (tasks s ! i) \<noteq> 0 then call (tentry (tasks s ! i)) (targ (tasks s ! i)) s
                      else s);
                 s = set_state i Finished s;
                 s = notify (active P task_finished s) i s
             in Some (if current s = Some i then s\<lparr>current := None\<rparr> else s))"

partial_function (option) run_scheduler_loop ::
  "(u64 \<Rightarrow> u64 \<Rightarrow> sched \<Rightarrow> sched) \<Rightarrow> policy_mem \<Rightarrow> sched \<Rightarrow> sched option" where
  "run_scheduler_loop call P s =
     (case loop_round call P s of None \<Rightarrow> Some s | Some s' \<Rightarrow> run_scheduler_loop call P s')"

section \<open>What the default policy picks\<close>

text \<open>The score the loop compares: halved for the current task once another candidate was seen.\<close>

definition eff_score :: "u64 option \<Rightarrow> task list \<Rightarrow> nat \<Rightarrow> u64" where
  "eff_score cur ts i =
     (if cur = Some (tid (ts ! i)) \<and> (\<exists>j < i. tstate (ts ! j) = Ready)
      then base_score (ts ! i) div 2 else base_score (ts ! i))"

definition ready_at :: "task list \<Rightarrow> nat \<Rightarrow> bool" where
  "ready_at ts i \<longleftrightarrow> i < length ts \<and> tstate (ts ! i) = Ready"

definition best_below :: "u64 option \<Rightarrow> task list \<Rightarrow> nat \<Rightarrow> nat option \<Rightarrow> u64 \<Rightarrow> bool" where
  "best_below cur ts n best bs \<longleftrightarrow>
     (case best of None \<Rightarrow> \<forall>j < n. tstate (ts ! j) \<noteq> Ready
      | Some b \<Rightarrow> b < n \<and> tstate (ts ! b) = Ready \<and> bs = eff_score cur ts b \<and>
          (\<forall>j < n. tstate (ts ! j) = Ready \<longrightarrow>
             eff_score cur ts j < bs \<or> eff_score cur ts j = bs \<and> b \<le> j))"

lemma best_below_skip:
  "\<lbrakk>best_below cur ts n best bs; tstate (ts ! n) \<noteq> Ready\<rbrakk> \<Longrightarrow> best_below cur ts (Suc n) best bs"
  by (cases best) (auto simp: best_below_def less_Suc_eq)

lemma best_below_keep:
  assumes "best_below cur ts n (Some b) bs" and "\<not> bs < eff_score cur ts n"
  shows "best_below cur ts (Suc n) (Some b) bs"
  using assms by (auto simp: best_below_def less_Suc_eq not_less)

lemma best_below_take:
  assumes "best_below cur ts n best bs" and "tstate (ts ! n) = Ready"
    and "best = None \<or> bs < eff_score cur ts n"
  shows "best_below cur ts (Suc n) (Some n) (eff_score cur ts n)"
proof (cases best)
  case None
  then show ?thesis using assms by (auto simp: best_below_def less_Suc_eq)
next
  case (Some b)
  then show ?thesis
    using assms by (auto simp: best_below_def less_Suc_eq)
qed

lemma best_below_seen:
  "best_below cur ts n best bs \<Longrightarrow> best \<noteq> None \<longleftrightarrow> (\<exists>j < n. tstate (ts ! j) = Ready)"
  by (auto simp: best_below_def split: option.splits)

lemma default_pick_loop_best:
  assumes "best_below cur (pre @ suf) (length pre) best bs"
  shows "\<exists>bs'. best_below cur (pre @ suf) (length (pre @ suf))
           (default_pick_loop cur suf (length pre) best bs) bs'"
  using assms
proof (induction suf arbitrary: pre best bs)
  case Nil
  then show ?case by auto
next
  case (Cons t suf)
  let ?ts = "pre @ t # suf"
  have t: "?ts ! length pre = t" by simp
  note IH = Cons.IH [of "pre @ [t]"]
  have eff: "(if cur = Some (tid t) \<and> best \<noteq> None then base_score t div 2 else base_score t)
      = eff_score cur ?ts (length pre)"
    using best_below_seen [OF Cons.prems] by (auto simp: eff_score_def)
  consider (skip) "tstate t \<noteq> Ready"
    | (take) "tstate t = Ready" "best = None \<or> bs < eff_score cur ?ts (length pre)"
    | (keep) b where "tstate t = Ready" "best = Some b" "\<not> bs < eff_score cur ?ts (length pre)"
    by (cases best) auto
  then show ?case
  proof cases
    case skip
    then show ?thesis
      using IH [of best bs] best_below_skip [OF Cons.prems] t by simp
  next
    case take
    then show ?thesis
      using IH best_below_take [OF Cons.prems] t eff by (simp add: Let_def)
  next
    case keep
    then show ?thesis
      using IH best_below_keep [of cur ?ts "length pre" b bs] Cons.prems t eff
      by (simp add: Let_def)
  qed
qed

lemma default_pick_next_best:
  "\<exists>bs. best_below (current_id ts c) ts (length ts) (default_pick_next ts c) bs"
  using default_pick_loop_best [of _ "[]" ts None 0]
  by (simp add: default_pick_next_def best_below_def)

lemma default_pick_next_None_iff:
  "default_pick_next ts c = None \<longleftrightarrow> (\<forall>i. \<not> ready_at ts i)"
  using default_pick_next_best [of ts c]
  by (cases "default_pick_next ts c") (auto simp: best_below_def ready_at_def)

lemma default_pick_next_ready: "default_pick_next ts c = Some i \<Longrightarrow> ready_at ts i"
  using default_pick_next_best [of ts c] by (auto simp: best_below_def ready_at_def)

text \<open>
  C1. The default policy picks, among the ready tasks, one whose score is highest, and among those
  with the highest score the first in the table; it picks nothing exactly when no task is ready.
  The score of a task is 1000 times its priority plus its run time in milliseconds, halved for the
  current task when a ready task stands before it in the table.
\<close>

theorem default_pick_next_optimal:
  "(default_pick_next ts c = None \<longleftrightarrow> (\<forall>i. \<not> ready_at ts i)) \<and>
   (default_pick_next ts c = Some i \<longleftrightarrow>
      ready_at ts i \<and>
      (\<forall>j. ready_at ts j \<longrightarrow>
         eff_score (current_id ts c) ts j < eff_score (current_id ts c) ts i \<or>
         eff_score (current_id ts c) ts j = eff_score (current_id ts c) ts i \<and> i \<le> j))"
proof -
  have best: "ready_at ts i \<and> (\<forall>j. ready_at ts j \<longrightarrow>
      eff_score (current_id ts c) ts j < eff_score (current_id ts c) ts i \<or>
      eff_score (current_id ts c) ts j = eff_score (current_id ts c) ts i \<and> i \<le> j)"
    if "default_pick_next ts c = Some i" for i
    using default_pick_next_best [of ts c] that
    by (auto simp: best_below_def ready_at_def)
  show ?thesis
  proof (cases "default_pick_next ts c")
    case None
    then show ?thesis using default_pick_next_None_iff [of ts c] by auto
  next
    case (Some k)
    have "k = i" if "ready_at ts i" "\<forall>j. ready_at ts j \<longrightarrow>
        eff_score (current_id ts c) ts j < eff_score (current_id ts c) ts i \<or>
        eff_score (current_id ts c) ts j = eff_score (current_id ts c) ts i \<and> i \<le> j"
      using best [OF Some] that by (metis order.antisym order.asym order.irrefl)
    then show ?thesis
      using Some best [of i] best [OF Some] default_pick_next_None_iff [of ts c] by auto
  qed
qed

definition demo_tasks :: "task list" where
  "demo_tasks = [zero_task, zero_task\<lparr>tid := 1, priority := 10, tstate := Ready\<rparr>,
     zero_task\<lparr>tid := 2, priority := 10, runtime_ns := 3000000, tstate := Ready\<rparr>]"

theorem default_pick_next_optimal_witness:
  "default_pick_next demo_tasks None = Some 2 \<and> ready_at demo_tasks 1 \<and>
   eff_score None demo_tasks 1 < eff_score None demo_tasks 2"
proof -
  have pick: "default_pick_next demo_tasks None = Some 2"
    by (simp add: default_pick_next_def demo_tasks_def base_score_def zero_task_def current_id_def)
  have ready: "ready_at demo_tasks 1"
    by (simp add: ready_at_def demo_tasks_def)
  have "eff_score (current_id demo_tasks None) demo_tasks 1
          < eff_score (current_id demo_tasks None) demo_tasks 2 \<or> (2::nat) \<le> 1"
    using default_pick_next_optimal [of demo_tasks None 2] pick ready by blast
  then have "eff_score (current_id demo_tasks None) demo_tasks 1
        < eff_score (current_id demo_tasks None) demo_tasks 2"
    by simp
  then show ?thesis using pick ready by (simp add: current_id_def)
qed

section \<open>The contract of a policy\<close>

text \<open>
  What the scheduler relies on when it calls a policy: the callbacks leave the identity and the
  state of every task alone, and \<open>pick_next\<close> answers with a ready task of the table or with the
  current task.
\<close>

definition same_slots :: "task list \<Rightarrow> task list \<Rightarrow> bool" where
  "same_slots ts ts' \<longleftrightarrow> length ts' = length ts \<and>
     (\<forall>i < length ts. tid (ts' ! i) = tid (ts ! i) \<and> tstate (ts' ! i) = tstate (ts ! i))"

locale sched_policy =
  fixes p :: policy
  assumes init_keeps: "p_init p = Some f \<Longrightarrow> same_slots ts (fst (f ts))"
    and destroy_keeps: "p_destroy p = Some g \<Longrightarrow> same_slots ts (g ts)"
    and enqueue_keeps: "enqueue p = Some e \<Longrightarrow> same_slots ts (fst (e ts i))"
    and dequeue_keeps: "dequeue p = Some h \<Longrightarrow> same_slots ts (h ts i)"
    and running_keeps: "task_running p = Some h \<Longrightarrow> same_slots ts (h ts i)"
    and blocked_keeps: "task_blocked p = Some h \<Longrightarrow> same_slots ts (h ts i)"
    and finished_keeps: "task_finished p = Some h \<Longrightarrow> same_slots ts (h ts i)"
    and pick_valid: "\<lbrakk>p_pick_next p = Some k; k ts c = Some i\<rbrakk> \<Longrightarrow> ready_at ts i \<or> c = Some i"

text \<open>A policy whose candidate is always ready to run, whatever task is current.\<close>

locale ready_policy = sched_policy +
  assumes pick_ready: "\<lbrakk>p_pick_next p = Some k; k ts c = Some i\<rbrakk> \<Longrightarrow> ready_at ts i"
    and pick_total: "\<lbrakk>p_pick_next p = Some k; ready_at ts j\<rbrakk> \<Longrightarrow> k ts c \<noteq> None"

definition keeps_slots :: "(task list \<Rightarrow> nat \<Rightarrow> task list) option \<Rightarrow> bool" where
  "keeps_slots cb \<longleftrightarrow> (\<forall>f ts i. cb = Some f \<longrightarrow> same_slots ts (f ts i))"

lemma same_slots_refl [simp]: "same_slots ts ts"
  by (simp add: same_slots_def)

interpretation default: ready_policy default_policy
  by unfold_locales
    (auto simp: default_policy_def default_pick_next_None_iff dest: default_pick_next_ready)

interpretation deadline: sched_policy deadline_policy
  by unfold_locales (auto simp: deadline_policy_def deadline_pick_next_def split: option.splits)

section \<open>The scheduler's invariant\<close>

interpretation task_table: slot_table used_task tid zero_task
  by unfold_locales (simp add: zero_task_def)

definition tasks_ok :: "task list \<Rightarrow> u64 \<Rightarrow> bool" where
  "tasks_ok ts nxt \<longleftrightarrow> length ts = MAX_TASKS \<and> 0 < nxt \<and> slot_uniq used_task tid ts \<and>
     (\<forall>i < length ts. used_task (ts ! i) \<longrightarrow> 0 < tid (ts ! i) \<and> tid (ts ! i) < nxt)"

definition current_ok :: "task list \<Rightarrow> nat option \<Rightarrow> bool" where
  "current_ok ts c \<longleftrightarrow> (case c of None \<Rightarrow> True | Some i \<Rightarrow> i < length ts \<and> used_task (ts ! i))"

definition registered :: "sched \<Rightarrow> u64 list" where
  "registered s = take (policy_count s) (policies s)"

definition policies_ok :: "policy_mem \<Rightarrow> sched \<Rightarrow> bool" where
  "policies_ok P s \<longleftrightarrow>
     length (policies s) = MAX_POLICIES \<and> policy_count s \<le> MAX_POLICIES \<and>
     (\<forall>p \<in> set (registered s). p \<noteq> 0 \<and> pname (P p) \<notin> {None, Some []} \<and> sched_policy (P p)) \<and>
     distinct (map (\<lambda>p. pname (P p)) (registered s)) \<and>
     set (drop (policy_count s) (policies s)) \<subseteq> {0} \<and>
     (active_policy s = 0 \<or> active_policy s \<in> set (registered s))"

definition sched_inv :: "policy_mem \<Rightarrow> sched \<Rightarrow> bool" where
  "sched_inv P s \<longleftrightarrow> tasks_ok (tasks s) (next_task_id s) \<and> current_ok (tasks s) (current s) \<and>
     policies_ok P s"

lemma find_taskD:
  assumes "find_task s k = Some i"
  shows "i < length (tasks s)" and "used_task (tasks s ! i)" and "tid (tasks s ! i) = k" and "k \<noteq> 0"
  using assms find_idx_SomeD [of "\<lambda>t. used_task t \<and> tid t = k" "tasks s" i]
  by (auto simp: find_task_def split: if_splits)

lemma tasks_ok_same_slots: "\<lbrakk>tasks_ok ts n; same_slots ts ts'\<rbrakk> \<Longrightarrow> tasks_ok ts' n"
  unfolding tasks_ok_def slot_uniq_def same_slots_def by auto

lemma tasks_ok_update:
  assumes "tasks_ok ts n" and "i < length ts" and "used_task x \<Longrightarrow> used_task (ts ! i) \<and> tid x = tid (ts ! i)"
  shows "tasks_ok (ts[i := x]) n"
  using assms task_table.uniq_update [of ts i x]
  by (auto simp: tasks_ok_def nth_list_update)

lemma current_ok_same_slots: "\<lbrakk>current_ok ts c; same_slots ts ts'\<rbrakk> \<Longrightarrow> current_ok ts' c"
  by (auto simp: current_ok_def same_slots_def split: option.splits)

lemma current_ok_update: "\<lbrakk>current_ok ts c; used_task x \<or> c \<noteq> Some i\<rbrakk> \<Longrightarrow> current_ok (ts[i := x]) c"
  by (cases "i < length ts") (auto simp: current_ok_def nth_list_update list_update_beyond split: option.splits)

lemma policies_ok_simps [simp]:
  "policies_ok P (s\<lparr>tasks := ts\<rparr>) = policies_ok P s"
  "policies_ok P (s\<lparr>current := c\<rparr>) = policies_ok P s"
  "policies_ok P (s\<lparr>next_task_id := n\<rparr>) = policies_ok P s"
  "policies_ok P (s\<lparr>scheduler_time_ns := n\<rparr>) = policies_ok P s"
  by (simp_all add: policies_ok_def registered_def)

lemma active_lawful:
  assumes "sched_inv P s" and "active P field s = Some f"
  shows "sched_policy (P (active_policy s))" and "field (P (active_policy s)) = Some f"
  using assms by (auto simp: sched_inv_def policies_ok_def active_def split: if_splits)

lemma active_keeps:
  assumes inv: "sched_inv P s"
  shows "keeps_slots (active P dequeue s)"
    and "keeps_slots (active P task_running s)"
    and "keeps_slots (active P task_blocked s)"
    and "keeps_slots (active P task_finished s)"
    and "active P enqueue s = Some e \<Longrightarrow> same_slots ts (fst (e ts i))"
proof -
  show "keeps_slots (active P dequeue s)"
  proof -
    have "same_slots ts (f ts i)" if "active P dequeue s = Some f" for f ts i
      by (rule sched_policy.dequeue_keeps [OF active_lawful [OF inv that]])
    then show ?thesis by (simp add: keeps_slots_def)
  qed
  show "keeps_slots (active P task_running s)"
  proof -
    have "same_slots ts (f ts i)" if "active P task_running s = Some f" for f ts i
      by (rule sched_policy.running_keeps [OF active_lawful [OF inv that]])
    then show ?thesis by (simp add: keeps_slots_def)
  qed
  show "keeps_slots (active P task_blocked s)"
  proof -
    have "same_slots ts (f ts i)" if "active P task_blocked s = Some f" for f ts i
      by (rule sched_policy.blocked_keeps [OF active_lawful [OF inv that]])
    then show ?thesis by (simp add: keeps_slots_def)
  qed
  show "keeps_slots (active P task_finished s)"
  proof -
    have "same_slots ts (f ts i)" if "active P task_finished s = Some f" for f ts i
      by (rule sched_policy.finished_keeps [OF active_lawful [OF inv that]])
    then show ?thesis by (simp add: keeps_slots_def)
  qed
  show "same_slots ts (fst (e ts i))" if "active P enqueue s = Some e"
    by (rule sched_policy.enqueue_keeps [OF active_lawful [OF inv that]])
qed

lemma active_set_state [simp]: "active P field (set_state i st s) = active P field s"
  by (simp add: active_def set_state_def)

lemma active_simps [simp]:
  "active P field (s\<lparr>tasks := ts\<rparr>) = active P field s"
  "active P field (s\<lparr>current := c\<rparr>) = active P field s"
  "active P field (s\<lparr>next_task_id := n\<rparr>) = active P field s"
  "active P field (s\<lparr>scheduler_time_ns := n\<rparr>) = active P field s"
  by (simp_all add: active_def)

lemma set_state_simps [simp]:
  "current (set_state i st s) = current s"
  "next_task_id (set_state i st s) = next_task_id s"
  "length (tasks (set_state i st s)) = length (tasks s)"
  "policies_ok P (set_state i st s) = policies_ok P s"
  "policies (set_state i st s) = policies s"
  "policy_count (set_state i st s) = policy_count s"
  "active_policy (set_state i st s) = active_policy s"
  by (simp_all add: set_state_def)

lemma notify_simps [simp]:
  "current (notify cb i s) = current s"
  "next_task_id (notify cb i s) = next_task_id s"
  "policies_ok P (notify cb i s) = policies_ok P s"
  "active P field (notify cb i s) = active P field s"
  by (simp_all add: notify_def split: option.splits)

lemma inv_same_slots:
  "\<lbrakk>sched_inv P s; same_slots (tasks s) ts\<rbrakk> \<Longrightarrow> sched_inv P (s\<lparr>tasks := ts\<rparr>)"
  by (auto simp: sched_inv_def intro: tasks_ok_same_slots current_ok_same_slots)

lemma same_slots_notify: "keeps_slots cb \<Longrightarrow> same_slots (tasks s) (tasks (notify cb i s))"
  by (auto simp: notify_def keeps_slots_def split: option.splits)

lemma notify_eq: "notify cb i s = s\<lparr>tasks := tasks (notify cb i s)\<rparr>"
  by (simp add: notify_def split: option.splits)

lemma inv_notify: "\<lbrakk>sched_inv P s; keeps_slots cb\<rbrakk> \<Longrightarrow> sched_inv P (notify cb i s)"
  using inv_same_slots [OF _ same_slots_notify] by (metis notify_eq)

lemma inv_set_state:
  assumes "sched_inv P s" and "i < length (tasks s)" and "used_task (tasks s ! i)" and "st \<noteq> Empty"
  shows "sched_inv P (set_state i st s)"
  using assms unfolding sched_inv_def set_state_def
  by (auto intro!: tasks_ok_update current_ok_update)

lemma inv_current:
  "\<lbrakk>sched_inv P s; current_ok (tasks s) c\<rbrakk> \<Longrightarrow> sched_inv P (s\<lparr>current := c\<rparr>)"
  by (simp add: sched_inv_def)

lemma current_ok_None [simp]: "current_ok ts None"
  by (simp add: current_ok_def)

lemma current_ok_Some [simp]: "current_ok ts (Some i) \<longleftrightarrow> i < length ts \<and> used_task (ts ! i)"
  by (simp add: current_ok_def)

lemma inv_callbacks:
  assumes "sched_inv P s"
  shows "sched_inv P (notify (active P dequeue s) i s)"
    and "sched_inv P (notify (active P task_running s) i s)"
    and "sched_inv P (notify (active P task_blocked s) i s)"
    and "sched_inv P (notify (active P task_finished s) i s)"
  by (rule inv_notify [OF assms active_keeps(1) [OF assms]] inv_notify [OF assms active_keeps(2) [OF assms]]
      inv_notify [OF assms active_keeps(3) [OF assms]] inv_notify [OF assms active_keeps(4) [OF assms]])+

lemma inv_make_current:
  "\<lbrakk>sched_inv P s; i < length (tasks s); used_task (tasks s ! i); st \<noteq> Empty\<rbrakk>
     \<Longrightarrow> sched_inv P (set_state i st (s\<lparr>current := Some i\<rparr>))"
  by (simp add: inv_current inv_set_state)

lemma inv_drop_current: "sched_inv P s \<Longrightarrow> sched_inv P (if current s = Some i then s\<lparr>current := None\<rparr> else s)"
  by (simp add: inv_current)

text \<open>Every operation keeps the invariant.\<close>

lemma inv_set_ready: "sched_inv P s \<Longrightarrow> sched_inv P (fst (set_ready k s))"
  by (auto simp: set_ready_def split: option.splits dest: find_taskD intro: inv_set_state)

lemma inv_set_sleeping: "sched_inv P s \<Longrightarrow> sched_inv P (fst (set_sleeping k s))"
  by (auto simp: set_sleeping_def split: option.splits dest: find_taskD intro: inv_set_state)

lemma inv_set_running:
  assumes "sched_inv P s"
  shows "sched_inv P (fst (set_running P k s))"
proof (cases "find_task s k")
  case None
  then show ?thesis using assms by (simp add: set_running_def)
next
  case (Some i)
  show ?thesis
    using inv_callbacks(2) [OF inv_make_current [OF assms find_taskD(1,2) [OF Some], of Running], of i] Some
    by (simp add: set_running_def Let_def)
qed

lemma inv_set_blocked:
  assumes "sched_inv P s"
  shows "sched_inv P (fst (set_blocked P k s))"
proof (cases "find_task s k")
  case None
  then show ?thesis using assms by (simp add: set_blocked_def)
next
  case (Some i)
  note s1 = inv_set_state [OF assms find_taskD(1,2) [OF Some], of Blocked]
  show ?thesis
    using inv_drop_current [OF inv_callbacks(3) [OF s1], of i i] Some
    by (simp add: set_blocked_def Let_def)
qed

lemma inv_set_finished:
  assumes "sched_inv P s"
  shows "sched_inv P (fst (set_finished P k s))"
proof (cases "find_task s k")
  case None
  then show ?thesis using assms by (simp add: set_finished_def)
next
  case (Some i)
  note s1 = inv_set_state [OF assms find_taskD(1,2) [OF Some], of Finished]
  show ?thesis
    using inv_drop_current [OF inv_callbacks(4) [OF s1], of i i] Some
    by (simp add: set_finished_def Let_def)
qed

lemma word_less_Suc: "n + 1 \<noteq> 0 \<Longrightarrow> n < (n :: u64) + 1"
  by (simp add: word_less_nat_alt unatSuc add.commute)

lemma tasks_ok_create:
  assumes ok: "tasks_ok ts n" and "i < length ts" and "tstate (ts ! i) = Empty" and "tid x = n"
    and "n + 1 \<noteq> 0"
  shows "tasks_ok (ts[i := x]) (n + 1)"
proof -
  have n: "n < n + 1" using assms(5) by (rule word_less_Suc)
  have "slot_uniq used_task tid (ts[i := x])"
    using assms by (intro task_table.uniq_insert) (auto simp: tasks_ok_def)
  moreover have "0 < n + 1" using n ok by (auto simp: tasks_ok_def)
  ultimately show ?thesis
    using assms n by (auto simp: tasks_ok_def nth_list_update intro: less_trans)
qed

lemma inv_create_task:
  assumes inv: "sched_inv P s" and bound: "next_task_id s + 1 \<noteq> 0"
  shows "sched_inv P (fst (create_task P e a s))"
proof (cases "e = 0 \<or> find_free_task s = None")
  case True
  then show ?thesis using inv by (auto simp: create_task_def)
next
  case False
  then obtain i where i: "find_free_task s = Some i" and e: "e \<noteq> 0" by auto
  note i' = find_idx_SomeD [OF i [unfolded find_free_task_def]]
  define s1 where "s1 = s\<lparr>tasks := (tasks s)[i := zero_task\<lparr>tid := next_task_id s, priority := 10,
    tstate := Ready, tentry := e, targ := a\<rparr>], next_task_id := next_task_id s + 1\<rparr>"
  have s1: "sched_inv P s1"
    using inv i' bound
    by (auto simp: sched_inv_def s1_def intro!: tasks_ok_create current_ok_update)
  show ?thesis
  proof (cases "active P enqueue s1")
    case None
    then show ?thesis using s1 i e by (simp add: create_task_def Let_def s1_def)
  next
    case (Some f)
    obtain ts ok where f: "f (tasks s1) i = (ts, ok)" by (cases "f (tasks s1) i")
    have slots: "same_slots (tasks s1) ts"
      using active_keeps(5) [OF s1 Some, of "tasks s1" i] f by simp
    with s1 have s2: "sched_inv P (s1\<lparr>tasks := ts\<rparr>)" by (rule inv_same_slots)
    have cur: "current s \<noteq> Some i"
      using inv i' by (auto simp: sched_inv_def)
    have "fst (create_task P e a s) = (if ok then s1\<lparr>tasks := ts\<rparr> else set_state i Empty (s1\<lparr>tasks := ts\<rparr>))"
      using i e Some f by (auto simp: create_task_def Let_def s1_def)
    moreover have "sched_inv P (set_state i Empty (s1\<lparr>tasks := ts\<rparr>))"
      using s2 slots i' cur
      by (auto simp: sched_inv_def set_state_def s1_def same_slots_def
          intro!: tasks_ok_update current_ok_update)
    ultimately show ?thesis using s2 by simp
  qed
qed

lemma inv_destroy_task:
  assumes "sched_inv P s"
  shows "sched_inv P (fst (destroy_task P k s))"
proof (cases "find_task s k")
  case None
  then show ?thesis using assms by (simp add: destroy_task_def)
next
  case (Some i)
  define s1 where "s1 = notify (active P dequeue s) i s"
  define s2 where "s2 = (if current s1 = Some i then s1\<lparr>current := None\<rparr> else s1)"
  have s2: "sched_inv P s2"
    unfolding s1_def s2_def by (rule inv_drop_current [OF inv_callbacks(1) [OF assms]])
  have "length (tasks s2) = length (tasks s)"
    using s2 assms by (simp add: sched_inv_def tasks_ok_def)
  moreover have "current s2 \<noteq> Some i" by (simp add: s2_def)
  ultimately have "sched_inv P (s2\<lparr>tasks := (tasks s2)[i := zero_task]\<rparr>)"
    using s2 find_taskD(1) [OF Some]
    by (auto simp: sched_inv_def zero_task_def intro!: tasks_ok_update current_ok_update)
  moreover have "fst (destroy_task P k s) = s2\<lparr>tasks := (tasks s2)[i := zero_task]\<rparr>"
    using Some by (simp add: destroy_task_def Let_def s1_def s2_def)
  ultimately show ?thesis by simp
qed

lemma pick_next_valid:
  assumes inv: "sched_inv P s" and pick: "pick_next P s = Some i"
  shows "i < length (tasks s)" and "used_task (tasks s ! i)"
    and "ready_at (tasks s) i \<or> current s = Some i"
proof -
  obtain f where f: "active P p_pick_next s = Some f" "f (tasks s) (current s) = Some i"
    using pick by (auto simp: pick_next_def split: option.splits)
  show ready: "ready_at (tasks s) i \<or> current s = Some i"
    by (rule sched_policy.pick_valid [OF active_lawful [OF inv f(1)] f(2)])
  then show "i < length (tasks s)" and "used_task (tasks s ! i)"
    using inv by (auto simp: sched_inv_def ready_at_def)
qed

lemma inv_yield:
  assumes "sched_inv P s"
  shows "sched_inv P (yield P s)"
proof (cases "current s")
  case None
  then show ?thesis using assms by (simp add: yield_def)
next
  case (Some c)
  have s1: "sched_inv P (set_state c Ready s)"
    using assms Some by (intro inv_set_state) (auto simp: sched_inv_def)
  then show ?thesis
    using Some pick_next_valid(1,2) [OF s1] inv_make_current [OF s1]
    by (auto simp: yield_def Let_def split: option.splits)
qed

lemma inv_tick_time:
  assumes "sched_inv P s"
  shows "sched_inv P (s\<lparr>scheduler_time_ns := t, tasks := (tasks s)[c := (tasks s ! c)\<lparr>runtime_ns := r\<rparr>]\<rparr>)"
  using assms
  by (cases "c < length (tasks s)")
    (auto simp: sched_inv_def list_update_beyond current_ok_def nth_list_update split: option.splits
      intro!: tasks_ok_update)

lemma find_picked:
  assumes inv: "sched_inv P s" and pick: "pick_next P s = Some i"
  shows "find_task s (tid (tasks s ! i)) = Some i"
  using inv pick_next_valid(1,2) [OF inv pick] task_table.lookup_eq_Some [of "tasks s" i]
  by (auto simp: find_task_def sched_inv_def tasks_ok_def)

text \<open>The tick, split into the accounting of the elapsed time and the switch it decides on.\<close>

definition tick_account :: "u64 \<Rightarrow> sched \<Rightarrow> sched" where
  "tick_account elapsed s =
     (let s = s\<lparr>scheduler_time_ns := scheduler_time_ns s + elapsed\<rparr>
      in case current s of None \<Rightarrow> s
         | Some c \<Rightarrow>
             if tstate (tasks s ! c) = Running
             then s\<lparr>tasks := (tasks s)[c := (tasks s ! c)\<lparr>runtime_ns := runtime_ns (tasks s ! c) + elapsed\<rparr>]\<rparr>
             else s)"

definition tick_switch :: "policy_mem \<Rightarrow> nat \<Rightarrow> sched \<Rightarrow> sched" where
  "tick_switch P next s =
     (let s = (case current s of None \<Rightarrow> s
               | Some c \<Rightarrow> if c \<noteq> next \<and> tstate (tasks s ! c) = Running then set_state c Ready s else s);
          s = set_state next Running (s\<lparr>current := Some next\<rparr>)
      in notify (active P task_running s) next s)"

lemma scheduler_tick_eq:
  assumes "sched_inv P (tick_account e s)"
  shows "scheduler_tick P e s =
    (let s = tick_account e s
     in case pick_next P s of None \<Rightarrow> s
        | Some next \<Rightarrow> if current s = None \<or> preempt_current (make_decision P s)
                       then tick_switch P next s else s)"
  using find_picked [OF assms]
  unfolding scheduler_tick_def tick_account_def [symmetric, unfolded Let_def] tick_switch_def Let_def
  by (auto simp: make_decision_def split: option.splits)

lemma inv_tick_account: "sched_inv P s \<Longrightarrow> sched_inv P (tick_account e s)"
  using inv_tick_time [of P s]
  by (auto simp: tick_account_def Let_def sched_inv_def split: option.splits)

lemma inv_tick_switch:
  assumes inv: "sched_inv P s" and n: "n < length (tasks s)" "used_task (tasks s ! n)"
  shows "sched_inv P (tick_switch P n s)"
proof -
  define s1 where "s1 = (case current s of None \<Rightarrow> s
    | Some c \<Rightarrow> if c \<noteq> n \<and> tstate (tasks s ! c) = Running then set_state c Ready s else s)"
  have "sched_inv P s1"
    using inv inv_set_state [OF inv] by (auto simp: s1_def sched_inv_def split: option.splits)
  moreover have "n < length (tasks s1)" "used_task (tasks s1 ! n)"
    using n by (auto simp: s1_def set_state_def nth_list_update split: option.splits)
  ultimately have "sched_inv P (set_state n Running (s1\<lparr>current := Some n\<rparr>))"
    by (intro inv_make_current) auto
  from inv_callbacks(2) [OF this, of n] show ?thesis
    by (simp add: tick_switch_def Let_def s1_def)
qed

lemma inv_scheduler_tick:
  assumes "sched_inv P s"
  shows "sched_inv P (scheduler_tick P e s)"
proof -
  note s1 = inv_tick_account [OF assms, of e]
  show ?thesis
    using s1 inv_tick_switch [OF s1] pick_next_valid(1,2) [OF s1]
    by (auto simp: scheduler_tick_eq [OF s1] Let_def split: option.splits)
qed

lemma registered_simps [simp]: "registered (s\<lparr>tasks := ts\<rparr>) = registered s"
  by (simp add: registered_def)

lemma take_Suc_update:
  "\<lbrakk>n < length xs\<rbrakk> \<Longrightarrow> take (Suc n) (xs[n := x]) = take n xs @ [x]"
  by (simp add: take_Suc_conv_app_nth)

lemma inv_register_policy:
  assumes inv: "sched_inv P s" and lawful: "sched_policy (P p)"
  shows "sched_inv P (fst (register_policy P p s))"
proof (cases "p = 0 \<or> pname (P p) \<in> {None, Some []} \<or> MAX_POLICIES \<le> policy_count s \<or>
    (\<exists>q \<in> set (registered s). name_is P (the (pname (P p))) q)")
  case True
  then show ?thesis
    using inv by (auto simp: register_policy_def registered_def split: option.splits)
next
  case False
  then obtain n where n: "pname (P p) = Some n" "n \<noteq> []" "p \<noteq> 0" by auto
  define r where "r = (case p_init (P p) of None \<Rightarrow> (tasks s, True) | Some f \<Rightarrow> f (tasks s))"
  have slots: "same_slots (tasks s) (fst r)"
    using sched_policy.init_keeps [OF lawful] by (auto simp: r_def split: option.splits)
  define s1 where "s1 = s\<lparr>tasks := fst r\<rparr>"
  have s1: "sched_inv P s1" using inv slots by (simp add: s1_def inv_same_slots)
  have eq: "fst (register_policy P p s) =
      (if snd r then s1\<lparr>policies := (policies s1)[policy_count s1 := p], policy_count := policy_count s1 + 1\<rparr>
       else s1)"
    using False n by (auto simp: register_policy_def registered_def r_def s1_def Let_def split: option.splits prod.splits)
  have cnt: "policy_count s1 < length (policies s1)"
    using s1 False by (auto simp: sched_inv_def policies_ok_def s1_def)
  have fresh: "pname (P q) \<noteq> Some n" if "q \<in> set (registered s1)" for q
    using False n that s1 by (auto simp: name_is_def s1_def sched_inv_def policies_ok_def)
  have reg: "registered (s1\<lparr>policies := (policies s1)[policy_count s1 := p], policy_count := policy_count s1 + 1\<rparr>)
      = registered s1 @ [p]"
    using cnt by (simp add: registered_def take_Suc_update)
  have "policies_ok P (s1\<lparr>policies := (policies s1)[policy_count s1 := p], policy_count := policy_count s1 + 1\<rparr>)"
    using s1 cnt fresh n lawful unfolding policies_ok_def reg sched_inv_def
    by (auto simp: drop_update_cancel Cons_nth_drop_Suc [symmetric] image_iff)
  then show ?thesis
    using s1 unfolding eq by (auto simp: sched_inv_def)
qed

lemma inv_select_policy:
  assumes "sched_inv P s"
  shows "sched_inv P (fst (select_policy P name s))"
proof -
  have "policies s ! i \<in> set (registered s)" if "find_idx f (take (policy_count s) (policies s)) = Some i" for f i
    using find_idx_SomeD(1) [OF that] by (auto simp: registered_def in_set_conv_nth)
  then show ?thesis
    using assms
    by (auto simp: select_policy_def sched_inv_def policies_ok_def registered_def split: option.splits)
qed

declare shift_down.simps [simp del]

lemma shift_down_length [simp]: "length (shift_down j n xs) = length xs"
proof (induction j n xs rule: shift_down.induct)
  case (1 j n xs)
  then show ?case by (simp add: shift_down.simps [of j n xs])
qed

lemma shift_down_nth:
  "\<lbrakk>n \<le> length xs; k < length xs\<rbrakk> \<Longrightarrow>
     shift_down j n xs ! k = (if j \<le> k \<and> k + 1 < n then xs ! (k + 1) else xs ! k)"
proof (induction j n xs rule: shift_down.induct)
  case (1 j n xs)
  then show ?case
    by (cases "j + 1 < n") (auto simp: shift_down.simps [of j n xs] nth_list_update)
qed

lemma shift_down_take:
  assumes "i < n" and "n \<le> length xs"
  shows "take (n - 1) ((shift_down i n xs)[n - 1 := x]) = take i xs @ drop (Suc i) (take n xs)"
  using assms by (intro nth_equalityI) (auto simp: shift_down_nth nth_append)

lemma shift_down_drop:
  assumes "0 < n" and "n \<le> length xs"
  shows "drop (n - 1) ((shift_down i n xs)[n - 1 := x]) = x # drop n xs"
  using assms by (intro nth_equalityI) (auto simp: shift_down_nth nth_list_update nth_Cons split: nat.splits)

lemma distinct_map_remove:
  assumes "distinct (map f xs)" and "i < length xs"
  shows "distinct (map f (take i xs @ drop (Suc i) xs))"
proof -
  have "distinct (map f (take i xs @ xs ! i # drop (Suc i) xs))"
    using assms id_take_nth_drop [OF assms(2)] by simp
  then show ?thesis by auto
qed

lemma set_remove: "set (take i xs @ drop (Suc i) xs) \<subseteq> set xs"
  by (auto dest: in_set_takeD in_set_dropD)

lemma set_remove_other:
  assumes "i < length xs" and "x \<in> set xs" and "x \<noteq> xs ! i"
  shows "x \<in> set (take i xs @ drop (Suc i) xs)"
proof -
  have "x \<in> set (take i xs @ xs ! i # drop (Suc i) xs)"
    using assms(2) id_take_nth_drop [OF assms(1)] by simp
  then show ?thesis using assms(3) by auto
qed

lemma unregister_policy_eq:
  "unregister_policy P name s =
     (case name of None \<Rightarrow> (s, False)
      | Some n \<Rightarrow>
          (case find_idx (name_is P n) (registered s) of None \<Rightarrow> (s, False)
           | Some i \<Rightarrow>
               if active_policy s = registered s ! i then (s, False)
               else (s\<lparr>tasks := (case p_destroy (P (registered s ! i)) of None \<Rightarrow> tasks s
                                 | Some g \<Rightarrow> g (tasks s)),
                       policies := (shift_down i (policy_count s) (policies s))[policy_count s - 1 := 0],
                       policy_count := policy_count s - 1\<rparr>, True)))"
proof -
  have "registered s ! i = policies s ! i" if "find_idx (name_is P n) (registered s) = Some i" for n i
    using find_idx_SomeD(1) [OF that] by (simp add: registered_def)
  then show ?thesis
    by (simp add: unregister_policy_def Let_def registered_def split: option.split)
qed

lemma policies_ok_remove:
  assumes ok: "policies_ok P s" and i: "i < length (registered s)"
    and act: "active_policy s \<noteq> registered s ! i"
    and len: "length ps = MAX_POLICIES"
    and reg: "take (policy_count s - 1) ps = take i (registered s) @ drop (Suc i) (registered s)"
    and rest: "drop (policy_count s - 1) ps = 0 # drop (policy_count s) (policies s)"
  shows "policies_ok P (s\<lparr>policies := ps, policy_count := policy_count s - 1\<rparr>)"
proof -
  let ?s = "s\<lparr>policies := ps, policy_count := policy_count s - 1\<rparr>"
  have r: "registered ?s = take i (registered s) @ drop (Suc i) (registered s)"
    using reg by (simp add: registered_def)
  note ok' = ok [unfolded policies_ok_def]
  have "\<forall>p \<in> set (registered ?s). p \<noteq> 0 \<and> pname (P p) \<notin> {None, Some []} \<and> sched_policy (P p)"
    using ok' set_remove [of i "registered s"] unfolding r by blast
  moreover have "distinct (map (\<lambda>p. pname (P p)) (registered ?s))"
    using ok' i unfolding r by (intro distinct_map_remove) auto
  moreover have "set (drop (policy_count ?s) (policies ?s)) \<subseteq> {0}"
    using ok' rest by simp
  moreover have "active_policy ?s = 0 \<or> active_policy ?s \<in> set (registered ?s)"
    using ok' set_remove_other [OF i _ act] unfolding r by auto
  ultimately show ?thesis
    using ok' len unfolding policies_ok_def [of P ?s] by simp linarith
qed

lemma inv_unregister_at:
  assumes inv: "sched_inv P s" and i: "i < length (registered s)"
    and act: "active_policy s \<noteq> registered s ! i"
    and slots: "same_slots (tasks s) ts"
  shows "sched_inv P (s\<lparr>tasks := ts,
    policies := (shift_down i (policy_count s) (policies s))[policy_count s - 1 := 0],
    policy_count := policy_count s - 1\<rparr>)"
proof -
  let ?ps = "(shift_down i (policy_count s) (policies s))[policy_count s - 1 := 0]"
  have ok: "policies_ok P s" using inv by (simp add: sched_inv_def)
  have cnt: "0 < policy_count s" "i < policy_count s" and len: "policy_count s \<le> length (policies s)"
    using ok i by (auto simp: registered_def policies_ok_def)
  have reg: "take (policy_count s - 1) ?ps = take i (registered s) @ drop (Suc i) (registered s)"
    using shift_down_take [OF cnt(2) len] cnt len by (simp add: registered_def min_def)
  have "policies_ok P (s\<lparr>policies := ?ps, policy_count := policy_count s - 1\<rparr>)"
    using ok by (intro policies_ok_remove [OF ok i act _ reg shift_down_drop [OF cnt(1) len]])
      (simp add: policies_ok_def)
  then show ?thesis
    using inv_same_slots [OF inv slots] by (simp add: sched_inv_def policies_ok_def registered_def)
qed

lemma inv_unregister_policy:
  assumes inv: "sched_inv P s"
  shows "sched_inv P (fst (unregister_policy P name s))"
proof -
  have slots: "same_slots (tasks s) (case p_destroy (P (registered s ! i)) of None \<Rightarrow> tasks s | Some g \<Rightarrow> g (tasks s))"
    if "i < length (registered s)" for i
  proof -
    have "sched_policy (P (registered s ! i))"
      using inv nth_mem [OF that] unfolding sched_inv_def policies_ok_def by blast
    then show ?thesis
      by (cases "p_destroy (P (registered s ! i))") (simp_all add: sched_policy.destroy_keeps)
  qed
  show ?thesis
  proof (cases "\<exists>n i. name = Some n \<and> find_idx (name_is P n) (registered s) = Some i \<and>
      active_policy s \<noteq> registered s ! i")
    case True
    then obtain n i where "name = Some n" and idx: "find_idx (name_is P n) (registered s) = Some i"
      and act: "active_policy s \<noteq> registered s ! i" by blast
    note i = find_idx_SomeD(1) [OF idx]
    show ?thesis
      using inv_unregister_at [OF inv i act slots [OF i]] \<open>name = Some n\<close> idx act
      by (simp only: unregister_policy_eq option.case if_False fst_conv)
  next
    case False
    then show ?thesis using inv by (auto simp: unregister_policy_eq split: option.split)
  qed
qed

lemma scheduler_init_eq:
  assumes "P default_policy_addr = default_policy"
  shows "scheduler_init P = \<lparr>tasks = replicate MAX_TASKS zero_task,
    policies = (replicate MAX_POLICIES 0)[0 := default_policy_addr], policy_count = 1,
    active_policy = default_policy_addr, current = None, next_task_id = 1, scheduler_time_ns = 0\<rparr>"
  using assms
  by (simp add: scheduler_init_def register_policy_def select_policy_def Let_def default_policy_def
      default_policy_addr_def name_is_def MAX_POLICIES_def take_Suc_update [of 0, simplified])

lemma inv_init:
  assumes "P default_policy_addr = default_policy"
  shows "sched_inv P (scheduler_init P)"
proof -
  have "tasks_ok (replicate MAX_TASKS zero_task) 1"
    using task_table.uniq_replicate by (simp add: tasks_ok_def MAX_TASKS_def) (simp add: zero_task_def)
  moreover have "policies_ok P (scheduler_init P)"
    using assms default.sched_policy_axioms
    by (simp add: scheduler_init_eq policies_ok_def registered_def MAX_POLICIES_def
        default_policy_addr_def take_Suc_update [of 0, simplified])
      (simp add: default_policy_def)
  ultimately show ?thesis
    using assms by (simp add: sched_inv_def scheduler_init_eq)
qed

lemma unat_minus_one_64: "unat (- 1 :: u64) = 2 ^ 64 - 1"
  by (simp add: unsigned_minus_1_eq_mask mask_eq_exp_minus_1)

section \<open>Sequences of calls\<close>

datatype sched_call =
    CreateTask u64 u64
  | DestroyTask u64
  | RegisterPolicy u64
  | UnregisterPolicy "string option"
  | SelectPolicy "string option"
  | Tick u64
  | SetReady u64
  | SetRunning u64
  | SetSleeping u64
  | SetBlocked u64
  | SetFinished u64
  | Yield

fun exec_call :: "policy_mem \<Rightarrow> sched_call \<Rightarrow> sched \<Rightarrow> sched" where
  "exec_call P (CreateTask e a) s = fst (create_task P e a s)"
| "exec_call P (DestroyTask k) s = fst (destroy_task P k s)"
| "exec_call P (RegisterPolicy p) s = fst (register_policy P p s)"
| "exec_call P (UnregisterPolicy n) s = fst (unregister_policy P n s)"
| "exec_call P (SelectPolicy n) s = fst (select_policy P n s)"
| "exec_call P (Tick e) s = scheduler_tick P e s"
| "exec_call P (SetReady k) s = fst (set_ready k s)"
| "exec_call P (SetRunning k) s = fst (set_running P k s)"
| "exec_call P (SetSleeping k) s = fst (set_sleeping k s)"
| "exec_call P (SetBlocked k) s = fst (set_blocked P k s)"
| "exec_call P (SetFinished k) s = fst (set_finished P k s)"
| "exec_call P Yield s = yield P s"

fun exec_calls :: "policy_mem \<Rightarrow> sched_call list \<Rightarrow> sched \<Rightarrow> sched" where
  "exec_calls P [] s = s"
| "exec_calls P (c # cs) s = exec_calls P cs (exec_call P c s)"

lemma inv_exec_call:
  assumes "sched_inv P s" and "next_task_id s + 1 \<noteq> 0" and "\<And>p. c = RegisterPolicy p \<Longrightarrow> sched_policy (P p)"
  shows "sched_inv P (exec_call P c s)"
  using assms
  by (cases c) (simp_all add: inv_create_task inv_destroy_task inv_register_policy inv_unregister_policy
      inv_select_policy inv_scheduler_tick inv_set_ready inv_set_running inv_set_sleeping inv_set_blocked
      inv_set_finished inv_yield)

text \<open>A call takes at most one task identifier.\<close>

lemma next_task_id_create: "next_task_id (fst (create_task P e a s)) \<in> {next_task_id s, next_task_id s + 1}"
  by (auto simp: create_task_def Let_def set_state_def split: option.splits prod.splits)

lemma next_task_id_other:
  "next_task_id (fst (destroy_task P k s)) = next_task_id s"
  "next_task_id (fst (register_policy P p s)) = next_task_id s"
  "next_task_id (fst (unregister_policy P n s)) = next_task_id s"
  "next_task_id (fst (select_policy P n s)) = next_task_id s"
  "next_task_id (fst (set_ready k s)) = next_task_id s"
  "next_task_id (fst (set_running P k s)) = next_task_id s"
  "next_task_id (fst (set_sleeping k s)) = next_task_id s"
  "next_task_id (fst (set_blocked P k s)) = next_task_id s"
  "next_task_id (fst (set_finished P k s)) = next_task_id s"
  "next_task_id (yield P s) = next_task_id s"
  "next_task_id (scheduler_tick P e s) = next_task_id s"
  by (auto simp: destroy_task_def register_policy_def unregister_policy_def select_policy_def
      set_ready_def set_running_def set_sleeping_def set_blocked_def set_finished_def yield_def
      scheduler_tick_def Let_def split: option.splits prod.splits)

lemma next_task_id_call: "next_task_id (exec_call P c s) \<in> {next_task_id s, next_task_id s + 1}"
  by (cases c) (use next_task_id_create in \<open>simp_all add: next_task_id_other\<close>)

lemma next_id_no_wrap:
  assumes "unat (next_task_id s) + Suc n < 2 ^ 64"
  shows "next_task_id s + 1 \<noteq> 0" and "unat (next_task_id (exec_call P c s)) + n < 2 ^ 64"
proof -
  show no_wrap: "next_task_id s + 1 \<noteq> 0"
  proof
    assume "next_task_id s + 1 = 0"
    then have "unat (next_task_id s) = 2 ^ 64 - 1"
      using unat_minus_one_64 by (simp add: eq_neg_iff_add_eq_0 [symmetric])
    then show False using assms by simp
  qed
  have "unat (next_task_id s + 1) = Suc (unat (next_task_id s))"
    using no_wrap by (simp add: unatSuc add.commute)
  then show "unat (next_task_id (exec_call P c s)) + n < 2 ^ 64"
    using next_task_id_call [of P c s] assms by auto
qed

lemma inv_exec_calls:
  assumes "sched_inv P s" and "unat (next_task_id s) + length cs < 2 ^ 64"
    and "\<And>p. RegisterPolicy p \<in> set cs \<Longrightarrow> sched_policy (P p)"
  shows "sched_inv P (exec_calls P cs s)"
  using assms
proof (induction cs arbitrary: s)
  case (Cons c cs)
  have len: "unat (next_task_id s) + Suc (length cs) < 2 ^ 64" using Cons.prems(2) by simp
  note step = next_id_no_wrap [OF len]
  show ?case
    using Cons.IH [of "exec_call P c s"] step(2) inv_exec_call [OF Cons.prems(1) step(1), of c] Cons.prems(3) by simp
qed simp

text \<open>
  C2. From \<open>scheduler_init\<close> on, every sequence of scheduler calls that registers only lawful
  policies and stays below the 64-bit range of task identifiers keeps the scheduler's tables
  consistent: identifiers of live tasks are non-zero, below \<open>next_task_id\<close> and pairwise distinct,
  \<open>current\<close> points to a live task, the registered policies fill a prefix of the policy table
  under distinct names, and the active policy is one of them. (Runs with cooperative loops among the
  calls are the subject of theory \<open>Scheduler_Loop\<close>.)
\<close>

theorem scheduler_invariant:
  assumes "P default_policy_addr = default_policy" and "length cs < 2 ^ 64 - 1"
    and "\<And>p. RegisterPolicy p \<in> set cs \<Longrightarrow> sched_policy (P p)"
  shows "sched_inv P (exec_calls P cs (scheduler_init P))"
  using assms inv_init [of P, OF assms(1)] by (intro inv_exec_calls) (auto simp: scheduler_init_eq)

definition demo_policies :: policy_mem where
  "demo_policies p = (if p = 2 then deadline_policy else default_policy)"

definition demo_calls :: "sched_call list" where
  "demo_calls = [CreateTask 4096 7, CreateTask 8192 9, Tick 10, RegisterPolicy 2,
     SelectPolicy (Some ''blockos-deadline''), Tick 5, SetBlocked 1, DestroyTask 1]"

theorem scheduler_invariant_witness:
  "sched_inv demo_policies (exec_calls demo_policies demo_calls (scheduler_init demo_policies))"
proof (rule scheduler_invariant)
  show "demo_policies default_policy_addr = default_policy"
    by (simp add: demo_policies_def default_policy_addr_def)
  show "length demo_calls < 2 ^ 64 - 1"
    by (simp add: demo_calls_def)
  show "sched_policy (demo_policies p)" for p
    by (simp add: demo_policies_def default.sched_policy_axioms deadline.sched_policy_axioms)
qed

end
