(* ===== verification/Scheduler_Runs.thy ===== *)
theory Scheduler_Runs
  imports Scheduler
begin

text \<open>
  Properties of the scheduler of theory \<open>Scheduler\<close> over runs of calls: which calls keep the running
  state to the current task, task creation and destruction against the lookup \<open>get_task\<close>, and the
  policy registry.
\<close>

section \<open>The running task\<close>

definition only_current_runs :: "sched \<Rightarrow> bool" where
  "only_current_runs s \<longleftrightarrow>
     (\<forall>i < length (tasks s). tstate (tasks s ! i) = Running \<longrightarrow> current s = Some i)"

lemma runs_same_slots:
  "\<lbrakk>only_current_runs s; same_slots (tasks s) ts\<rbrakk> \<Longrightarrow> only_current_runs (s\<lparr>tasks := ts\<rparr>)"
  by (auto simp: only_current_runs_def same_slots_def)

lemma runs_notify: "\<lbrakk>only_current_runs s; keeps_slots cb\<rbrakk> \<Longrightarrow> only_current_runs (notify cb i s)"
  using runs_same_slots [OF _ same_slots_notify] by (metis notify_eq)

lemma runs_set_state: "\<lbrakk>only_current_runs s; st \<noteq> Running\<rbrakk> \<Longrightarrow> only_current_runs (set_state i st s)"
  by (auto simp: only_current_runs_def set_state_def nth_update_if split: if_splits)

lemma runs_make_current:
  "(\<And>j. \<lbrakk>j < length (tasks s); j \<noteq> i\<rbrakk> \<Longrightarrow> tstate (tasks s ! j) \<noteq> Running)
     \<Longrightarrow> only_current_runs (set_state i Running (s\<lparr>current := Some i\<rparr>))"
  by (auto simp: only_current_runs_def set_state_def nth_update_if split: if_splits)

lemma runs_drop_current:
  assumes "only_current_runs s" and "i < length (tasks s) \<Longrightarrow> tstate (tasks s ! i) \<noteq> Running"
  shows "only_current_runs (if current s = Some i then s\<lparr>current := None\<rparr> else s)"
  using assms by (auto simp: only_current_runs_def)

lemma runs_callbacks:
  assumes "sched_inv P s" and "only_current_runs s"
  shows "only_current_runs (notify (active P dequeue s) i s)"
    and "only_current_runs (notify (active P task_running s) i s)"
    and "only_current_runs (notify (active P task_blocked s) i s)"
    and "only_current_runs (notify (active P task_finished s) i s)"
  using active_keeps [OF assms(1)] by (simp_all add: runs_notify [OF assms(2)])

lemma runs_set_ready: "only_current_runs s \<Longrightarrow> only_current_runs (fst (set_ready k s))"
  by (auto simp: set_ready_def split: option.splits intro: runs_set_state)

lemma runs_set_sleeping: "only_current_runs s \<Longrightarrow> only_current_runs (fst (set_sleeping k s))"
  by (auto simp: set_sleeping_def split: option.splits intro: runs_set_state)

lemma tstate_set_state:
  "j < length (tasks s) \<Longrightarrow> tstate (tasks (set_state i st s) ! j) = (if j = i then st else tstate (tasks s ! j))"
  by (simp add: set_state_def nth_update_if)

lemma tstate_notify:
  "\<lbrakk>keeps_slots cb; j < length (tasks s)\<rbrakk> \<Longrightarrow> tstate (tasks (notify cb i s) ! j) = tstate (tasks s ! j)"
  using same_slots_notify [of cb s i] by (auto simp: same_slots_def)

lemma runs_set_blocked:
  assumes "sched_inv P s" and "only_current_runs s"
  shows "only_current_runs (fst (set_blocked P k s))"
proof (cases "find_task s k")
  case None
  then show ?thesis using assms by (simp add: set_blocked_def)
next
  case (Some i)
  let ?s1 = "set_state i Blocked s"
  have inv1: "sched_inv P ?s1" by (rule inv_set_state [OF assms(1) find_taskD(1,2) [OF Some]]) simp
  have "tstate (tasks (notify (active P task_blocked ?s1) i ?s1) ! i) \<noteq> Running"
    using tstate_notify [OF active_keeps(3) [OF inv1], of i ?s1 i]
      tstate_set_state [OF find_taskD(1) [OF Some]] find_taskD(1) [OF Some] by simp
  then have "only_current_runs (let s' = notify (active P task_blocked ?s1) i ?s1
      in if current s' = Some i then s'\<lparr>current := None\<rparr> else s')"
    unfolding Let_def
    by (intro runs_drop_current runs_callbacks [OF inv1] runs_set_state [OF assms(2)]) simp
  then show ?thesis using Some by (simp add: set_blocked_def Let_def split: if_splits)
qed

lemma runs_set_finished:
  assumes "sched_inv P s" and "only_current_runs s"
  shows "only_current_runs (fst (set_finished P k s))"
proof (cases "find_task s k")
  case None
  then show ?thesis using assms by (simp add: set_finished_def)
next
  case (Some i)
  let ?s1 = "set_state i Finished s"
  have inv1: "sched_inv P ?s1" by (rule inv_set_state [OF assms(1) find_taskD(1,2) [OF Some]]) simp
  have "tstate (tasks (notify (active P task_finished ?s1) i ?s1) ! i) \<noteq> Running"
    using tstate_notify [OF active_keeps(4) [OF inv1], of i ?s1 i]
      tstate_set_state [OF find_taskD(1) [OF Some]] find_taskD(1) [OF Some] by simp
  then have "only_current_runs (let s' = notify (active P task_finished ?s1) i ?s1
      in if current s' = Some i then s'\<lparr>current := None\<rparr> else s')"
    unfolding Let_def
    by (intro runs_drop_current runs_callbacks [OF inv1] runs_set_state [OF assms(2)]) simp
  then show ?thesis using Some by (simp add: set_finished_def Let_def split: if_splits)
qed

lemma runs_yield:
  assumes "only_current_runs s"
  shows "only_current_runs (yield P s)"
proof (cases "current s")
  case None
  then show ?thesis using assms by (simp add: yield_def)
next
  case (Some c)
  have none: "tstate (tasks (set_state c Ready s) ! j) \<noteq> Running" if "j < length (tasks s)" for j
    using assms Some that by (auto simp: tstate_set_state only_current_runs_def)
  show ?thesis
    using Some none assms runs_make_current [of "set_state c Ready s"] runs_set_state [OF assms, of Ready c]
    by (auto simp: yield_def Let_def split: option.splits)
qed

lemma runs_tick_account: "only_current_runs s \<Longrightarrow> only_current_runs (tick_account e s)"
  by (auto simp: tick_account_def Let_def only_current_runs_def nth_update_if split: option.splits if_splits)

lemma runs_tick_switch:
  assumes inv: "sched_inv P s" and runs: "only_current_runs s"
    and n: "n < length (tasks s)" "used_task (tasks s ! n)"
  shows "only_current_runs (tick_switch P n s)"
proof -
  define s1 where "s1 = (case current s of None \<Rightarrow> s
    | Some c \<Rightarrow> if c \<noteq> n \<and> tstate (tasks s ! c) = Running then set_state c Ready s else s)"
  have inv1: "sched_inv P s1"
    using inv inv_set_state [OF inv] by (auto simp: s1_def sched_inv_def split: option.splits)
  have n1: "n < length (tasks s1)" "used_task (tasks s1 ! n)"
    using n by (auto simp: s1_def set_state_def nth_list_update split: option.splits)
  have len: "length (tasks s1) = length (tasks s)"
    by (simp add: s1_def split: option.split)
  have "tstate (tasks s1 ! j) \<noteq> Running" if j: "j < length (tasks s1)" "j \<noteq> n" for j
  proof (cases "current s")
    case None
    then show ?thesis using runs j by (auto simp: s1_def only_current_runs_def)
  next
    case (Some c)
    have "tstate (tasks s ! j) = Running \<Longrightarrow> j = c"
      using runs j len Some by (auto simp: only_current_runs_def)
    then show ?thesis
      using Some j len by (auto simp: s1_def tstate_set_state)
  qed
  then have runs2: "only_current_runs (set_state n Running (s1\<lparr>current := Some n\<rparr>))"
    by (rule runs_make_current)
  have inv2: "sched_inv P (set_state n Running (s1\<lparr>current := Some n\<rparr>))"
    using inv1 n1 by (intro inv_make_current) auto
  show ?thesis
    using runs_callbacks(2) [OF inv2 runs2, of n] by (simp add: tick_switch_def Let_def s1_def)
qed

lemma runs_scheduler_tick:
  assumes "sched_inv P s" and "only_current_runs s"
  shows "only_current_runs (scheduler_tick P e s)"
proof -
  note inv1 = inv_tick_account [OF assms(1), of e]
  note runs1 = runs_tick_account [OF assms(2), of e]
  show ?thesis
    using runs1 runs_tick_switch [OF inv1 runs1] pick_next_valid(1,2) [OF inv1]
    by (auto simp: scheduler_tick_eq [OF inv1] Let_def split: option.splits)
qed

text \<open>Creating a task, with the answer of the active policy spelt out.\<close>

definition new_task :: "u64 \<Rightarrow> u64 \<Rightarrow> sched \<Rightarrow> task" where
  "new_task e a s = zero_task\<lparr>tid := next_task_id s, priority := 10, tstate := Ready, tentry := e, targ := a\<rparr>"

lemma create_task_cases:
  assumes inv: "sched_inv P s" and bound: "next_task_id s + 1 \<noteq> 0"
  obtains (fail) "create_task P e a s = (s, -1)" "e = 0 \<or> find_free_task s = None"
  | (made) i ts ok s' where "e \<noteq> 0" "i < length (tasks s)" "tstate (tasks s ! i) = Empty"
      "same_slots ((tasks s)[i := new_task e a s]) ts"
      "s' = s\<lparr>tasks := ts, next_task_id := next_task_id s + 1\<rparr>"
      "create_task P e a s =
         (if ok then (s', sint (ucast (next_task_id s) :: 32 word)) else (set_state i Empty s', -1))"
proof (cases "e = 0 \<or> find_free_task s = None")
  case True
  then show ?thesis by (intro fail) (auto simp: create_task_def)
next
  case False
  then obtain i where i: "find_free_task s = Some i" and e: "e \<noteq> 0" by auto
  note i' = find_idx_SomeD [OF i [unfolded find_free_task_def]]
  define s1 where "s1 = s\<lparr>tasks := (tasks s)[i := new_task e a s], next_task_id := next_task_id s + 1\<rparr>"
  have s1: "sched_inv P s1"
    using inv i' bound
    by (auto simp: sched_inv_def s1_def new_task_def intro!: tasks_ok_create current_ok_update)
  define r where "r = (case active P enqueue s1 of None \<Rightarrow> (tasks s1, True) | Some f \<Rightarrow> f (tasks s1) i)"
  have slots: "same_slots (tasks s1) (fst r)"
    using active_keeps(5) [OF s1] by (auto simp: r_def split: option.split)
  have tid: "tid (fst r ! i) = next_task_id s"
    using slots i' by (auto simp: same_slots_def s1_def new_task_def)
  show ?thesis
  proof (rule made [of i "fst r" "s1\<lparr>tasks := fst r\<rparr>" "snd r"])
    show "create_task P e a s = (if snd r then (s1\<lparr>tasks := fst r\<rparr>, sint (ucast (next_task_id s) :: 32 word))
        else (set_state i Empty (s1\<lparr>tasks := fst r\<rparr>), -1))"
      using i e i' tid
      by (auto simp: create_task_def Let_def r_def s1_def new_task_def split: option.splits prod.splits)
  qed (use e i' slots in \<open>auto simp: s1_def\<close>)
qed

lemma runs_create_task:
  assumes inv: "sched_inv P s" and bound: "next_task_id s + 1 \<noteq> 0" and runs: "only_current_runs s"
  shows "only_current_runs (fst (create_task P e a s))"
  using inv bound
proof (cases rule: create_task_cases [of P s e a])
  case fail
  then show ?thesis using runs by simp
next
  case (made i ts ok s')
  have "only_current_runs (s\<lparr>tasks := (tasks s)[i := new_task e a s]\<rparr>)"
    using runs by (auto simp: only_current_runs_def nth_update_if new_task_def split: if_splits)
  from runs_same_slots [OF this, of ts] have "only_current_runs s'"
    using made by (simp add: only_current_runs_def)
  then show ?thesis using made runs_set_state [of s' Empty i] by simp
qed

lemma runs_destroy_task:
  assumes inv: "sched_inv P s" and runs: "only_current_runs s"
  shows "only_current_runs (fst (destroy_task P k s))"
proof (cases "find_task s k")
  case None
  then show ?thesis using runs by (simp add: destroy_task_def)
next
  case (Some i)
  have "only_current_runs (notify (active P dequeue s) i s)"
    by (rule runs_callbacks(1) [OF inv runs])
  then show ?thesis
    using Some by (auto simp: destroy_task_def Let_def only_current_runs_def nth_update_if zero_task_def split: if_splits)
qed

lemma tasks_register_policy:
  assumes "sched_policy (P p)"
  shows "same_slots (tasks s) (tasks (fst (register_policy P p s)))"
    and "current (fst (register_policy P p s)) = current s"
  using sched_policy.init_keeps [OF assms, of _ "tasks s"]
  by (auto simp: register_policy_def Let_def split: option.splits prod.splits)

lemma tasks_unregister_policy:
  assumes "sched_inv P s"
  shows "same_slots (tasks s) (tasks (fst (unregister_policy P n s)))"
    and "current (fst (unregister_policy P n s)) = current s"
proof -
  have "sched_policy (P (registered s ! i))" if "find_idx f (registered s) = Some i" for f i
    using assms nth_mem [OF find_idx_SomeD(1) [OF that]] by (auto simp: sched_inv_def policies_ok_def)
  then show "same_slots (tasks s) (tasks (fst (unregister_policy P n s)))"
    by (auto simp: unregister_policy_eq split: option.splits intro: sched_policy.destroy_keeps)
  show "current (fst (unregister_policy P n s)) = current s"
    by (auto simp: unregister_policy_eq split: option.splits)
qed

lemma tasks_select_policy:
  "tasks (fst (select_policy P n s)) = tasks s" "current (fst (select_policy P n s)) = current s"
  by (auto simp: select_policy_def split: option.splits)

lemma runs_slots_current:
  "\<lbrakk>only_current_runs s; same_slots (tasks s) (tasks s'); current s' = current s\<rbrakk> \<Longrightarrow> only_current_runs s'"
  by (auto simp: only_current_runs_def same_slots_def)

lemma runs_registry:
  assumes "sched_inv P s" and "only_current_runs s"
  shows "sched_policy (P p) \<Longrightarrow> only_current_runs (fst (register_policy P p s))"
    and "only_current_runs (fst (unregister_policy P n s))"
    and "only_current_runs (fst (select_policy P n s))"
  using runs_slots_current [OF assms(2)] tasks_register_policy tasks_unregister_policy [OF assms(1)]
    tasks_select_policy by (auto simp only: same_slots_refl)

lemma runs_exec_call:
  assumes "sched_inv P s" and "next_task_id s + 1 \<noteq> 0" and "only_current_runs s"
    and "\<And>p. c = RegisterPolicy p \<Longrightarrow> sched_policy (P p)" and "c \<notin> range SetRunning"
  shows "only_current_runs (exec_call P c s)"
  using assms
  by (cases c) (simp_all add: runs_create_task runs_destroy_task runs_registry runs_scheduler_tick
      runs_set_ready runs_set_sleeping runs_set_blocked runs_set_finished runs_yield)

section \<open>Creating and destroying tasks\<close>

lemma find_task_same_slots: "same_slots (tasks s) (tasks s') \<Longrightarrow> find_task s' k = find_task s k"
  unfolding find_task_def same_slots_def by (auto intro: find_idx_nth_cong)

lemma task_count_same_slots: "same_slots (tasks s) (tasks s') \<Longrightarrow> task_count s' = task_count s"
  unfolding task_count_def count_if_filter length_filter_conv_card same_slots_def
  by (rule arg_cong [where f = card]) auto

lemma find_task_update:
  assumes "i < length (tasks s)" and "\<not> used_task (tasks s ! i) \<or> tid (tasks s ! i) \<noteq> k"
    and "\<not> used_task t \<or> tid t \<noteq> k"
  shows "find_task (s\<lparr>tasks := (tasks s)[i := t]\<rparr>) k = find_task s k"
  using task_table.lookup_other [OF assms] by (simp add: find_task_def)

lemma find_task_state:
  assumes "i < length (tasks s)" and "tid (tasks s ! i) \<noteq> k"
  shows "find_task (set_state i st s) k = find_task s k"
  using assms by (simp add: set_state_def find_task_update)

lemma sint_ucast_id:
  assumes "next < (2 ^ 31 :: u64)"
  shows "sint (ucast next :: 32 word) = int (unat next)"
proof -
  have u: "uint next < 2 ^ 31" using assms by (simp add: word_less_def)
  have "uint (ucast next :: 32 word) = uint next"
    using u by (simp add: unsigned_ucast_eq take_bit_int_eq_self)
  moreover have "signed_take_bit 31 (uint next) = uint next"
    using u by (intro signed_take_bit_int_eq_self) (auto intro: order_trans [of _ 0])
  ultimately show ?thesis
    by (simp add: sint_uint)
qed

lemma task_count_full: "task_count s = length (tasks s) \<longleftrightarrow> find_free_task s = None"
  by (simp add: task_count_def find_free_task_def find_idx_None_iff count_if_full)

lemma live_id_old:
  assumes "sched_inv P s" and "j < length (tasks s)" and "used_task (tasks s ! j)"
  shows "tid (tasks s ! j) \<noteq> next_task_id s"
  using assms by (auto simp: sched_inv_def tasks_ok_def)

lemma create_task_lookup:
  assumes inv: "sched_inv P s" and i: "i < length (tasks s)" "tstate (tasks s ! i) = Empty"
    and slots: "same_slots ((tasks s)[i := new_task e a s]) (tasks s')"
  shows "find_task s' (next_task_id s) = Some i" and "tstate (tasks s' ! i) = Ready"
    and "k \<noteq> next_task_id s \<Longrightarrow> find_task s' k = find_task s k"
    and "task_count s' = Suc (task_count s)"
proof -
  let ?s = "s\<lparr>tasks := (tasks s)[i := new_task e a s]\<rparr>"
  have slots': "same_slots (tasks ?s) (tasks s')" using slots by simp
  have id: "next_task_id s \<noteq> 0" using inv by (auto simp: sched_inv_def tasks_ok_def)
  have "find_idx (\<lambda>t. used_task t \<and> tid t = next_task_id s) ((tasks s)[i := new_task e a s]) = Some i"
  proof (rule find_idx_first)
    show "j = i" if "j < length ((tasks s)[i := new_task e a s])"
      "used_task ((tasks s)[i := new_task e a s] ! j) \<and> tid ((tasks s)[i := new_task e a s] ! j) = next_task_id s" for j
      using live_id_old [OF inv, of j] that by (cases "j = i") auto
  qed (use i in \<open>simp_all add: new_task_def\<close>)
  then show "find_task s' (next_task_id s) = Some i"
    using find_task_same_slots [OF slots', of "next_task_id s"] id by (simp add: find_task_def)
  show "tstate (tasks s' ! i) = Ready"
    using slots i by (simp add: same_slots_def new_task_def)
  show "find_task s' k = find_task s k" if "k \<noteq> next_task_id s"
    using find_task_same_slots [OF slots', of k] find_task_update [OF i(1), of k "new_task e a s"] i that
    by (simp add: new_task_def)
  show "task_count s' = Suc (task_count s)"
    using task_count_same_slots [OF slots'] count_if_update [OF i(1), of used_task "new_task e a s"] i
    by (simp add: task_count_def new_task_def)
qed

lemma create_task_undone:
  assumes i: "i < length (tasks s)" "tstate (tasks s ! i) = Empty"
    and slots: "same_slots ((tasks s)[i := new_task e a s]) (tasks s')"
  shows "find_task (set_state i Empty s') k = find_task s k"
    and "task_count (set_state i Empty s') = task_count s"
proof -
  let ?e = "s\<lparr>tasks := (tasks s)[i := (tasks s ! i)\<lparr>tid := next_task_id s\<rparr>]\<rparr>"
  have same: "same_slots (tasks ?e) (tasks (set_state i Empty s'))"
    using slots i by (auto simp: same_slots_def set_state_def nth_update_if new_task_def split: if_splits)
  show "find_task (set_state i Empty s') k = find_task s k"
    using find_task_same_slots [OF same, of k]
      find_task_update [OF i(1), of k "(tasks s ! i)\<lparr>tid := next_task_id s\<rparr>"] i by simp
  show "task_count (set_state i Empty s') = task_count s"
    using task_count_same_slots [OF same] count_if_update [OF i(1), of used_task "(tasks s ! i)\<lparr>tid := next_task_id s\<rparr>"] i
    by (simp add: task_count_def)
qed

lemma id_no_wrap_31: "next < (2 ^ 31 :: u64) \<Longrightarrow> next + 1 \<noteq> 0"
  using unat_minus_one_64 by (auto simp: word_less_nat_alt eq_neg_iff_add_eq_0 [symmetric])

text \<open>
  C4. As long as the next identifier is below \<open>2\<^sup>3\<^sup>1\<close>, \<open>create_task\<close> returns -1 exactly when the entry is null, the table is full or the active policy
  refuses the task, and then no lookup and no count changes; otherwise it returns the new identifier,
  \<open>get_task\<close> finds a ready task under it, every other lookup is unchanged and \<open>task_count\<close> grows by one.
\<close>

theorem create_task_correct:
  assumes inv: "sched_inv P s" and bound: "next_task_id s < 2 ^ 31"
    and res: "create_task P e a s = (s', k)"
  shows "(e = 0 \<or> task_count s = MAX_TASKS \<longrightarrow> k = -1) \<and>
    (if k = -1 then (\<forall>j. get_task s' j = get_task s j) \<and> task_count s' = task_count s
     else k = int (unat (next_task_id s)) \<and>
       (\<exists>i. get_task s' (next_task_id s) = Some i \<and> tstate (tasks s' ! i) = Ready) \<and>
       (\<forall>j. j \<noteq> next_task_id s \<longrightarrow> get_task s' j = get_task s j) \<and>
       task_count s' = Suc (task_count s))"
  using inv id_no_wrap_31 [OF bound]
proof (cases rule: create_task_cases [of P s e a])
  case fail
  then show ?thesis using res by simp
next
  case (made i ts ok t)
  have len: "length (tasks s) = MAX_TASKS" using inv by (simp add: sched_inv_def tasks_ok_def)
  have free: "task_count s \<noteq> MAX_TASKS"
    using made(2,3) task_count_full [of s] len by (auto simp: find_free_task_def find_idx_None_iff)
  have slots: "same_slots ((tasks s)[i := new_task e a s]) (tasks t)" using made(4,5) by simp
  show ?thesis
  proof (cases ok)
    case True
    have k: "k = int (unat (next_task_id s))" "s' = t"
      using True made(6) res sint_ucast_id [OF bound] by auto
    moreover have "k \<noteq> -1" unfolding k(1) by linarith
    ultimately show ?thesis
      using made(1) free create_task_lookup [OF inv made(2,3) slots] by (auto simp: get_task_def)
  next
    case False
    then show ?thesis
      using made free res create_task_undone [OF made(2,3) slots] by (auto simp: get_task_def)
  qed
qed

theorem create_task_correct_witness:
  "\<exists>s'. create_task (\<lambda>_. default_policy) 4096 7 (scheduler_init (\<lambda>_. default_policy)) = (s', 1) \<and>
     (\<exists>i. get_task s' 1 = Some i \<and> tstate (tasks s' ! i) = Ready) \<and> task_count s' = 1"
proof -
  let ?P = "\<lambda>_ :: u64. default_policy"
  let ?s = "scheduler_init ?P"
  obtain s' k where res: "create_task ?P 4096 7 ?s = (s', k)" by fastforce
  have init: "find_free_task ?s = Some 0" "next_task_id ?s = 1" "task_count ?s = 0"
    by (simp_all add: scheduler_init_eq find_free_task_def task_count_def count_if_zero_iff zero_task_def MAX_TASKS_def)
  have "k = 1"
    using res init(1,2)
    by (simp add: create_task_def Let_def active_def scheduler_init_eq default_policy_addr_def)
      (simp add: default_policy_def MAX_TASKS_def)
  moreover have "sched_inv ?P ?s" by (rule inv_init) simp
  ultimately show ?thesis
    using create_task_correct [of ?P ?s 4096 7 s' k] res init by auto
qed

text \<open>
  C5. \<open>destroy_task\<close> succeeds exactly on the identifiers \<open>get_task\<close> finds; afterwards the identifier is
  unknown, every other task is found where it was, and \<open>task_count\<close> drops by one. On failure nothing
  changes.
\<close>

theorem destroy_task_correct:
  assumes inv: "sched_inv P s" and res: "destroy_task P k s = (s', ok)"
  shows "(ok \<longleftrightarrow> get_task s k \<noteq> None) \<and>
    (if ok then get_task s' k = None \<and> (\<forall>j. j \<noteq> k \<longrightarrow> get_task s' j = get_task s j) \<and>
       Suc (task_count s') = task_count s \<and> current s' \<noteq> get_task s k
     else s' = s)"
proof (cases "find_task s k")
  case None
  then show ?thesis using res by (simp add: destroy_task_def get_task_def)
next
  case (Some i)
  note i = find_taskD [OF Some]
  let ?n = "notify (active P dequeue s) i s"
  have n: "same_slots (tasks s) (tasks ?n)"
    by (rule same_slots_notify [OF active_keeps(1) [OF inv]])
  have inv': "sched_inv P ?n" by (rule inv_callbacks(1) [OF inv])
  have in_n: "i < length (tasks ?n)" "used_task (tasks ?n ! i)" "tid (tasks ?n ! i) = k"
    using n i by (auto simp: same_slots_def)
  have s': "tasks s' = (tasks ?n)[i := zero_task]" "ok" "current s' \<noteq> Some i"
    using Some res by (auto simp: destroy_task_def Let_def split: if_splits)
  have eq: "find_task s' j = find_task (?n\<lparr>tasks := (tasks ?n)[i := zero_task]\<rparr>) j" for j
    using s' by (simp add: find_task_def)
  have "find_task s' k = None"
    using task_table.lookup_deleted [OF _ in_n(1,2)] in_n(3) inv' s'(1)
    by (simp add: find_task_def sched_inv_def tasks_ok_def)
  moreover have "find_task s' j = find_task s j" if "j \<noteq> k" for j
    using that in_n find_task_same_slots [OF n, of j] find_task_update [OF in_n(1), of j zero_task]
    by (simp add: eq zero_task_def)
  moreover have "Suc (task_count s') = task_count s"
    using count_if_update [OF in_n(1), of used_task zero_task] in_n task_count_same_slots [OF n] s'(1)
    by (simp add: task_count_def zero_task_def)
  ultimately show ?thesis using Some s' by (simp add: get_task_def)
qed

definition demo_sched :: sched where
  "demo_sched = exec_calls (\<lambda>_. default_policy) [CreateTask 4096 7, CreateTask 8192 9]
     (scheduler_init (\<lambda>_. default_policy))"

lemma demo_sched_inv: "sched_inv (\<lambda>_. default_policy) demo_sched"
  unfolding demo_sched_def
  by (rule inv_exec_calls [OF inv_init]) (simp_all add: scheduler_init_eq)

lemma demo_sched_eq:
  "tasks demo_sched = (replicate MAX_TASKS zero_task)
     [0 := zero_task\<lparr>tid := 1, priority := 10, tstate := Ready, tentry := 4096, targ := 7\<rparr>,
      1 := zero_task\<lparr>tid := 2, priority := 10, tstate := Ready, tentry := 8192, targ := 9\<rparr>]"
  "active_policy demo_sched = default_policy_addr" "current demo_sched = None" "next_task_id demo_sched = 3"
proof -
  let ?t = "zero_task\<lparr>tid := 1, priority := 10, tstate := Ready, tentry := 4096, targ := 7\<rparr>"
  have free: "find_idx (\<lambda>t. tstate t = Empty) ((replicate MAX_TASKS zero_task)[0 := ?t]) = Some 1"
    by (simp add: find_idx_Some_iff MAX_TASKS_def zero_task_def)
  have init: "find_idx (\<lambda>t. tstate t = Empty) (replicate MAX_TASKS zero_task) = Some 0"
    by (simp add: MAX_TASKS_def zero_task_def)
  have zt: "tstate zero_task = Empty" "0 < MAX_TASKS" by (simp_all add: zero_task_def MAX_TASKS_def)
  have enq: "enqueue default_policy = Some (\<lambda>ts i. (ts, True))" by (simp add: default_policy_def)
  note defs = demo_sched_def create_task_def find_free_task_def scheduler_init_eq Let_def active_def
    default_policy_addr_def enq zt init free
  show "tasks demo_sched = (replicate MAX_TASKS zero_task)
     [0 := ?t, 1 := zero_task\<lparr>tid := 2, priority := 10, tstate := Ready, tentry := 8192, targ := 9\<rparr>]"
    by (simp add: defs)
  show "active_policy demo_sched = default_policy_addr" "current demo_sched = None" "next_task_id demo_sched = 3"
    by (simp_all add: defs)
qed

theorem destroy_task_correct_witness:
  "\<exists>s'. destroy_task (\<lambda>_. default_policy) 2 demo_sched = (s', True) \<and> get_task s' 2 = None \<and>
     get_task s' 1 = get_task demo_sched 1"
proof -
  obtain s' ok where res: "destroy_task (\<lambda>_. default_policy) 2 demo_sched = (s', ok)" by fastforce
  have "get_task demo_sched 2 = Some 1"
    by (simp add: get_task_def find_task_def demo_sched_eq find_idx_Some_iff MAX_TASKS_def)
  then show ?thesis
    using destroy_task_correct [OF demo_sched_inv res] res by auto
qed

section \<open>The policy registry\<close>

lemma registered_register:
  assumes inv: "sched_inv P s" and res: "register_policy P p s = (s1, True)" and n: "pname (P p) = Some n"
  shows "registered s1 = registered s @ [p]" and "active_policy s1 = active_policy s" and "p \<noteq> 0"
    and "\<forall>q \<in> set (registered s). \<not> name_is P n q"
proof -
  have cnt: "policy_count s < length (policies s)"
    using inv res by (auto simp: register_policy_def sched_inv_def policies_ok_def split: if_splits option.splits)
  then show "registered s1 = registered s @ [p]"
    using res by (auto simp: register_policy_def registered_def Let_def take_Suc_update
        split: if_splits option.splits prod.splits)
  show "active_policy s1 = active_policy s" "p \<noteq> 0" "\<forall>q \<in> set (registered s). \<not> name_is P n q"
    using res n by (auto simp: register_policy_def registered_def Let_def split: if_splits option.splits prod.splits)
qed

lemma find_last:
  assumes "\<forall>x \<in> set xs. \<not> Q x" and "Q y"
  shows "find_idx Q (xs @ [y]) = Some (length xs)"
  using assms by (induction xs) auto

lemma select_registered:
  assumes "find_idx (name_is P n) (registered s) = Some i"
  shows "select_policy P (Some n) s = (s\<lparr>active_policy := registered s ! i\<rparr>, True)"
  using assms find_idx_SomeD(1) [OF assms] by (simp add: select_policy_def registered_def)

lemma unregister_at:
  assumes inv: "sched_inv P s" and idx: "find_idx (name_is P n) (registered s) = Some i"
    and act: "active_policy s \<noteq> registered s ! i"
  shows "\<exists>s'. unregister_policy P (Some n) s = (s', True) \<and> active_policy s' = active_policy s \<and>
    registered s' = take i (registered s) @ drop (Suc i) (registered s)"
proof -
  have i: "i < policy_count s" "policy_count s \<le> length (policies s)"
    using find_idx_SomeD(1) [OF idx] inv by (auto simp: registered_def sched_inv_def policies_ok_def)
  show ?thesis
    using idx act shift_down_take [OF i] i
    by (simp add: unregister_policy_eq) (simp add: registered_def min_def)
qed

text \<open>
  A policy that \<open>register_policy\<close> accepts can be selected by its name and is then the active
  policy that \<open>current_policy_name\<close> reports; while it is active \<open>unregister_policy\<close> refuses to remove
  it, and before it is selected \<open>unregister_policy\<close> restores the registry of before the registration.
\<close>

lemma policy_registry_roundtrip:
  assumes inv: "sched_inv P s" and lawful: "sched_policy (P p)"
    and res: "register_policy P p s = (s1, True)" and n: "pname (P p) = Some n"
  shows "(\<exists>s2. select_policy P (Some n) s1 = (s2, True) \<and> active_policy s2 = p \<and>
      current_policy_name P s2 = Some n \<and> unregister_policy P (Some n) s2 = (s2, False)) \<and>
    (\<exists>s3. unregister_policy P (Some n) s1 = (s3, True) \<and> registered s3 = registered s \<and>
      active_policy s3 = active_policy s)"
proof -
  note r = registered_register [OF inv res n]
  have inv1: "sched_inv P s1" using inv_register_policy [OF inv lawful] res by simp
  have idx: "find_idx (name_is P n) (registered s1) = Some (length (registered s))"
    unfolding r(1) by (rule find_last [OF r(4)]) (use n r(3) in \<open>simp add: name_is_def\<close>)
  have fresh: "p \<notin> set (registered s)"
    using r(3,4) n by (auto simp: name_is_def)
  then have act: "active_policy s1 \<noteq> registered s1 ! length (registered s)"
    using inv r by (auto simp: sched_inv_def policies_ok_def)
  have reg_act: "registered (s1\<lparr>active_policy := p\<rparr>) = registered s1" by (simp add: registered_def)
  have "select_policy P (Some n) s1 = (s1\<lparr>active_policy := p\<rparr>, True)"
    using select_registered [OF idx] by (simp add: r(1))
  moreover have "unregister_policy P (Some n) (s1\<lparr>active_policy := p\<rparr>) = (s1\<lparr>active_policy := p\<rparr>, False)"
    using idx nth_append_length [of "registered s" p "[]"]
    by (simp add: unregister_policy_eq reg_act r(1))
  moreover have "current_policy_name P (s1\<lparr>active_policy := p\<rparr>) = Some n"
    using n r(3) by (simp add: current_policy_name_def)
  ultimately show ?thesis
    using unregister_at [OF inv1 idx act] r(1,2) by auto
qed

lemma policy_registry_roundtrip_witness:
  "\<exists>s1 s2. register_policy demo_policies 2 (scheduler_init demo_policies) = (s1, True) \<and>
     select_policy demo_policies (Some ''blockos-deadline'') s1 = (s2, True) \<and>
     current_policy_name demo_policies s2 = Some ''blockos-deadline''"
proof -
  let ?s = "scheduler_init demo_policies"
  have P: "demo_policies default_policy_addr = default_policy"
    by (simp add: demo_policies_def default_policy_addr_def)
  obtain s1 ok where res: "register_policy demo_policies 2 ?s = (s1, ok)" by fastforce
  have init: "registered ?s = [1]" "policy_count ?s < MAX_POLICIES"
    by (simp_all add: scheduler_init_eq [of demo_policies, OF P] registered_def MAX_POLICIES_def
        take_Suc_update [of 0, simplified] default_policy_addr_def)
  have dp: "pname (demo_policies 2) = Some ''blockos-deadline''" "pname (demo_policies 1) = Some ''blockos-default''"
    "p_init (demo_policies 2) = Some (\<lambda>ts. (ts, True))"
    by (simp_all add: demo_policies_def deadline_policy_def default_policy_def)
  have "ok"
    using res init by (simp add: register_policy_def registered_def name_is_def dp)
  then have res': "register_policy demo_policies 2 ?s = (s1, True)" using res by simp
  have "sched_policy (demo_policies 2)"
    by (simp add: demo_policies_def deadline.sched_policy_axioms)
  from policy_registry_roundtrip [OF inv_init [of demo_policies, OF P] this res' dp(1)]
  show ?thesis using res' by blast
qed

end
