(* ===== verification/Scheduler_Loop.thy ===== *)
theory Scheduler_Loop
  imports Scheduler_Runs
begin

text \<open>
  The cooperative loop \<open>run_scheduler_loop\<close> of \<open>kernel/scheduler.cpp\<close>: its termination and what it
  leaves behind, for task entry functions that call back into the scheduler, and the runs of the
  scheduler in which loops are mixed with the other calls.
\<close>

section \<open>What an entry function does\<close>

text \<open>
  The calls an entry function makes: every state helper that parks a task, and the two calls that
  switch tasks. The calls left out are those that make a task ready or running again
  (\<open>create_task\<close>, \<open>set_ready\<close>, \<open>set_running\<close>), under which the loop need not end, and those that
  remove tasks or change policies.
\<close>

fun switching :: "sched_call \<Rightarrow> bool" where
  "switching Yield = True"
| "switching (Tick e) = True"
| "switching c = False"

fun parking :: "sched_call \<Rightarrow> bool" where
  "parking (SetSleeping k) = True"
| "parking (SetBlocked k) = True"
| "parking (SetFinished k) = True"
| "parking c = False"

text \<open>
  A run of an entry function from one scheduler state to another, calling into the scheduler by the
  calls in \<open>A\<close>, and otherwise changing at most the fields of tasks that are not the identifier and
  the state, which it can reach through \<open>get_task\<close>.
\<close>

inductive entry_run :: "policy_mem \<Rightarrow> sched_call set \<Rightarrow> sched \<Rightarrow> sched \<Rightarrow> bool"
  for P :: policy_mem and A :: "sched_call set" and s :: sched where
  start: "entry_run P A s s"
| call: "\<lbrakk>entry_run P A s s'; c \<in> A\<rbrakk> \<Longrightarrow> entry_run P A s (exec_call P c s')"
| edit: "\<lbrakk>entry_run P A s s'; same_slots (tasks s') ts\<rbrakk> \<Longrightarrow> entry_run P A s (s'\<lparr>tasks := ts\<rparr>)"

definition entries_use :: "policy_mem \<Rightarrow> sched_call set \<Rightarrow> (u64 \<Rightarrow> u64 \<Rightarrow> sched \<Rightarrow> sched) \<Rightarrow> bool" where
  "entries_use P A call \<longleftrightarrow> (\<forall>e a s. entry_run P A s (call e a s))"

section \<open>Relations every round maintains\<close>

text \<open>
  \<open>live\<close> holds the tasks a lawful policy may still pick. \<open>shrinks\<close> relates a state to a later one with
  the same tasks and policies and no more live tasks; \<open>parks\<close> to one in which a task either has the
  state it had or was parked.
\<close>

definition live :: "sched \<Rightarrow> nat set" where
  "live s = {i. ready_at (tasks s) i} \<union> set_option (current s)"

definition shrinks :: "sched \<Rightarrow> sched \<Rightarrow> bool" where
  "shrinks s s' \<longleftrightarrow> length (tasks s') = length (tasks s) \<and>
     (\<forall>i < length (tasks s). tid (tasks s' ! i) = tid (tasks s ! i) \<and>
        used_task (tasks s' ! i) = used_task (tasks s ! i)) \<and>
     active_policy s' = active_policy s \<and> next_task_id s' = next_task_id s \<and> live s' \<subseteq> live s"

abbreviation parked :: "task_state \<Rightarrow> bool" where
  "parked st \<equiv> st \<in> {Sleeping, Blocked, Finished}"

definition parks :: "sched \<Rightarrow> sched \<Rightarrow> bool" where
  "parks s s' \<longleftrightarrow> length (tasks s') = length (tasks s) \<and> (current s' = current s \<or> current s' = None) \<and>
     (\<forall>i < length (tasks s). tstate (tasks s' ! i) = tstate (tasks s ! i) \<or> parked (tstate (tasks s' ! i)))"

lemma shrinks_refl [simp, intro]: "shrinks s s"
  by (simp add: shrinks_def)

lemma shrinks_trans [trans]: "\<lbrakk>shrinks a b; shrinks b c\<rbrakk> \<Longrightarrow> shrinks a c"
  unfolding shrinks_def by (metis order_trans)

lemma parks_refl [simp, intro]: "parks s s"
  by (simp add: parks_def)

lemma parks_trans [trans]: "\<lbrakk>parks a b; parks b c\<rbrakk> \<Longrightarrow> parks a c"
  unfolding parks_def by (metis (no_types, lifting))

lemma same_slots_trans: "\<lbrakk>same_slots a b; same_slots b c\<rbrakk> \<Longrightarrow> same_slots a c"
  by (simp add: same_slots_def)

lemma notify_frame [simp]:
  "active_policy (notify cb i s) = active_policy s" "policies (notify cb i s) = policies s"
  "next_task_id (notify cb i s) = next_task_id s" "current (notify cb i s) = current s"
  by (simp_all add: notify_def split: option.splits)

lemma set_state_frame [simp]:
  "active_policy (set_state i st s) = active_policy s" "next_task_id (set_state i st s) = next_task_id s"
  "current (set_state i st s) = current s" "length (tasks (set_state i st s)) = length (tasks s)"
  "tid (tasks (set_state i st s) ! j) = tid (tasks s ! j)"
  by (simp_all add: set_state_def nth_update_if)

text \<open>The building blocks of the calls.\<close>

lemma edit_rel: "same_slots (tasks s) ts \<Longrightarrow> shrinks s (s\<lparr>tasks := ts\<rparr>) \<and> parks s (s\<lparr>tasks := ts\<rparr>)"
  by (auto simp: same_slots_def shrinks_def parks_def live_def ready_at_def)

lemma notify_rel: "keeps_slots cb \<Longrightarrow> shrinks s (notify cb i s) \<and> parks s (notify cb i s)"
  using edit_rel [OF same_slots_notify [of cb s i]] notify_eq [of cb i s] by simp

lemma park_rel:
  assumes "i < length (tasks s)" and "used_task (tasks s ! i)" and "parked st"
  shows "shrinks s (set_state i st s) \<and> parks s (set_state i st s)"
  using assms by (auto simp: shrinks_def parks_def live_def ready_at_def tstate_set_state split: if_splits)

lemma drop_rel:
  "shrinks s (if current s = Some i then s\<lparr>current := None\<rparr> else s) \<and>
     parks s (if current s = Some i then s\<lparr>current := None\<rparr> else s)"
  by (auto simp: shrinks_def parks_def live_def)

lemma parking_call:
  assumes inv: "sched_inv P s" and c: "parking c"
  shows "sched_inv P (exec_call P c s)" and "shrinks s (exec_call P c s) \<and> parks s (exec_call P c s)"
proof -
  show "sched_inv P (exec_call P c s)"
    using inv c by (cases c) (simp_all add: inv_set_sleeping inv_set_blocked inv_set_finished)
  have blk: "shrinks s (notify (active P task_blocked (set_state i Blocked s)) i (set_state i Blocked s)) \<and>
      parks s (notify (active P task_blocked (set_state i Blocked s)) i (set_state i Blocked s))"
    if f: "find_task s k = Some i" for k i
    using park_rel [OF find_taskD(1,2) [OF f], of Blocked]
      notify_rel [OF active_keeps(3) [OF inv_set_state [OF inv find_taskD(1,2) [OF f], of Blocked]], of "set_state i Blocked s" i]
    by (auto intro: shrinks_trans parks_trans)
  have fin: "shrinks s (notify (active P task_finished (set_state i Finished s)) i (set_state i Finished s)) \<and>
      parks s (notify (active P task_finished (set_state i Finished s)) i (set_state i Finished s))"
    if f: "find_task s k = Some i" for k i
    using park_rel [OF find_taskD(1,2) [OF f], of Finished]
      notify_rel [OF active_keeps(4) [OF inv_set_state [OF inv find_taskD(1,2) [OF f], of Finished]], of "set_state i Finished s" i]
    by (auto intro: shrinks_trans parks_trans)
  show "shrinks s (exec_call P c s) \<and> parks s (exec_call P c s)"
  proof (cases c)
    case (SetSleeping k)
    then show ?thesis
      using park_rel [where st = Sleeping and s = s] find_taskD(1,2) [of s k]
      by (auto simp: set_sleeping_def split: option.splits)
  next
    case (SetBlocked k)
    then show ?thesis
      using shrinks_trans [OF conjunct1 [OF blk] conjunct1 [OF drop_rel]]
        parks_trans [OF conjunct2 [OF blk] conjunct2 [OF drop_rel]]
      by (auto simp: set_blocked_def Let_def split: option.splits simp del: notify_frame)
  next
    case (SetFinished k)
    then show ?thesis
      using shrinks_trans [OF conjunct1 [OF fin] conjunct1 [OF drop_rel]]
        parks_trans [OF conjunct2 [OF fin] conjunct2 [OF drop_rel]]
      by (auto simp: set_finished_def Let_def split: option.splits simp del: notify_frame)
  qed (use c in simp_all)
qed

lemma make_current_rel:
  assumes "i \<in> live s" and "i < length (tasks s)" and "used_task (tasks s ! i)"
  shows "shrinks s (set_state i Running (s\<lparr>current := Some i\<rparr>))"
  using assms by (auto simp: shrinks_def live_def ready_at_def tstate_set_state split: if_splits)

lemma unrun_rel:
  assumes "current s = Some c" and "sched_inv P s"
  shows "shrinks s (set_state c Ready s)" and "sched_inv P (set_state c Ready s)"
proof -
  have c: "c < length (tasks s)" "used_task (tasks s ! c)"
    using assms by (auto simp: sched_inv_def current_ok_def)
  then show "shrinks s (set_state c Ready s)"
    using assms(1) by (auto simp: shrinks_def live_def ready_at_def tstate_set_state split: if_splits)
  show "sched_inv P (set_state c Ready s)" by (rule inv_set_state [OF assms(2) c]) simp
qed

lemma pick_live:
  assumes "sched_inv P s" and "pick_next P s = Some i"
  shows "i \<in> live s" and "i < length (tasks s)" and "used_task (tasks s ! i)"
  using pick_next_valid [OF assms] by (auto simp: live_def)

lemma yield_shrinks:
  assumes "sched_inv P s"
  shows "shrinks s (yield P s)"
proof (cases "current s")
  case (Some c)
  note s1 = unrun_rel [OF Some assms]
  show ?thesis
    using shrinks_trans [OF s1(1) make_current_rel [OF pick_live [OF s1(2)]]] s1(1) Some
    by (auto simp: yield_def Let_def split: option.splits)
qed (simp add: yield_def)

lemma tick_switch_shrinks:
  assumes inv: "sched_inv P s" and n: "n \<in> live s" "n < length (tasks s)" "used_task (tasks s ! n)"
  shows "shrinks s (tick_switch P n s)"
proof -
  define s1 where "s1 = (case current s of None \<Rightarrow> s
    | Some c \<Rightarrow> if c \<noteq> n \<and> tstate (tasks s ! c) = Running then set_state c Ready s else s)"
  have s1: "sched_inv P s1" "shrinks s s1"
    using inv unrun_rel [OF _ inv] by (auto simp: s1_def split: option.splits)
  have n1: "n \<in> live s1" "n < length (tasks s1)" "used_task (tasks s1 ! n)"
    using n s1(2) by (auto simp: s1_def live_def ready_at_def tstate_set_state split: option.splits)
  define s2 where "s2 = set_state n Running (s1\<lparr>current := Some n\<rparr>)"
  have "sched_inv P s2" unfolding s2_def by (rule inv_make_current [OF s1(1) n1(2,3)]) simp
  then have "shrinks s2 (notify (active P task_running s2) n s2)"
    using notify_rel [OF active_keeps(2)] by blast
  moreover have "shrinks s s2"
    unfolding s2_def by (rule shrinks_trans [OF s1(2) make_current_rel [OF n1]])
  moreover have "tick_switch P n s = notify (active P task_running s2) n s2"
    by (simp add: tick_switch_def Let_def s1_def s2_def)
  ultimately show ?thesis by (metis shrinks_trans)
qed

lemma tick_account_shrinks:
  assumes "sched_inv P s"
  shows "shrinks s (tick_account e s)"
  using assms
  by (auto simp: tick_account_def Let_def shrinks_def live_def ready_at_def nth_update_if sched_inv_def current_ok_def
      split: option.splits if_splits)

lemma tick_shrinks:
  assumes "sched_inv P s"
  shows "shrinks s (scheduler_tick P e s)"
proof -
  note s1 = inv_tick_account [OF assms, of e] and r1 = tick_account_shrinks [OF assms, of e]
  show ?thesis
    using r1 shrinks_trans [OF r1 tick_switch_shrinks [OF s1 pick_live [OF s1]]]
    by (auto simp: scheduler_tick_eq [OF s1] Let_def split: option.splits)
qed

lemma cooperative_call:
  assumes "sched_inv P s" and "parking c \<or> switching c"
  shows "sched_inv P (exec_call P c s) \<and> shrinks s (exec_call P c s)"
  using assms parking_call [OF assms(1), of c]
  by (cases c) (simp_all add: inv_scheduler_tick tick_shrinks inv_yield yield_shrinks)

text \<open>What these relations say of a whole entry function.\<close>

lemma entry_run_cooperative:
  assumes "entry_run P A s s'" and "\<forall>c \<in> A. parking c \<or> switching c" and "sched_inv P s"
  shows "sched_inv P s' \<and> shrinks s s'"
  using assms(1)
proof induction
  case (call s' c)
  then show ?case using cooperative_call [of P s' c] assms(2) by (blast intro: shrinks_trans)
next
  case (edit s' ts)
  then show ?case using inv_same_slots edit_rel by (blast intro: shrinks_trans)
qed (use assms(3) in simp)

lemma entry_run_parking:
  assumes "entry_run P A s s'" and "\<forall>c \<in> A. parking c" and "sched_inv P s"
  shows "sched_inv P s' \<and> parks s s'"
  using assms(1)
proof induction
  case (call s' c)
  then show ?case using parking_call [of P s' c] assms(2) by (blast intro: parks_trans)
next
  case (edit s' ts)
  then show ?case using inv_same_slots edit_rel by (blast intro: parks_trans)
qed (use assms(3) in simp)

lemma entry_run_silent:
  assumes "entry_run P {} s s'"
  shows "same_slots (tasks s) (tasks s')"
  using assms by induction (auto intro: same_slots_trans)

section \<open>One round of the loop\<close>

text \<open>Running one task to completion: the body of the loop once a task is picked.\<close>

definition run_one :: "(u64 \<Rightarrow> u64 \<Rightarrow> sched \<Rightarrow> sched) \<Rightarrow> policy_mem \<Rightarrow> nat \<Rightarrow> sched \<Rightarrow> sched" where
  "run_one call P i s =
     (let s = set_state i Running (s\<lparr>current := Some i\<rparr>);
          s = notify (active P task_running s) i s;
          s = (if tentry (tasks s ! i) \<noteq> 0 then call (tentry (tasks s ! i)) (targ (tasks s ! i)) s else s);
          s = set_state i Finished s;
          s = notify (active P task_finished s) i s
      in if current s = Some i then s\<lparr>current := None\<rparr> else s)"

lemma loop_round_eq:
  assumes "sched_inv P s"
  shows "loop_round call P s = map_option (\<lambda>i. run_one call P i s) (pick_next P s)"
  using find_picked [OF assms]
  by (auto simp: loop_round_def make_decision_def run_one_def Let_def split: option.splits)

lemma run_one_stages:
  assumes inv: "sched_inv P s" and i: "i < length (tasks s)" "used_task (tasks s ! i)"
    and A: "entries_use P A call" "\<forall>c \<in> A. parking c \<or> switching c"
  obtains s2 s3 s4 where
    "sched_inv P s2" "same_slots (tasks (set_state i Running s)) (tasks s2)" "current s2 = Some i"
    "active_policy s2 = active_policy s" "next_task_id s2 = next_task_id s"
    "entry_run P A s2 s3" "sched_inv P s3" "shrinks s2 s3"
    "sched_inv P s4" "same_slots (tasks (set_state i Finished s3)) (tasks s4)" "current s4 = current s3"
    "active_policy s4 = active_policy s3" "next_task_id s4 = next_task_id s3"
    "run_one call P i s = (if current s4 = Some i then s4\<lparr>current := None\<rparr> else s4)"
proof -
  define s1 where "s1 = set_state i Running (s\<lparr>current := Some i\<rparr>)"
  define s2 where "s2 = notify (active P task_running s1) i s1"
  define s3 where "s3 = (if tentry (tasks s2 ! i) \<noteq> 0 then call (tentry (tasks s2 ! i)) (targ (tasks s2 ! i)) s2 else s2)"
  define s4 where "s4 = notify (active P task_finished (set_state i Finished s3)) i (set_state i Finished s3)"
  have inv1: "sched_inv P s1" unfolding s1_def by (rule inv_make_current [OF inv i]) simp
  have inv2: "sched_inv P s2" unfolding s2_def by (rule inv_callbacks(2) [OF inv1])
  have slots2: "same_slots (tasks s1) (tasks s2)"
    unfolding s2_def by (rule same_slots_notify [OF active_keeps(2) [OF inv1]])
  have tasks1: "tasks s1 = tasks (set_state i Running s)" by (simp add: s1_def set_state_def)
  have run: "entry_run P A s2 s3"
    using A(1) by (auto simp: s3_def entries_use_def intro: entry_run.start)
  note s3 = entry_run_cooperative [OF run A(2) inv2]
  have i3: "i < length (tasks s3)" "used_task (tasks s3 ! i)"
    using s3 slots2 i by (auto simp: tasks1 same_slots_def shrinks_def tstate_set_state)
  have inv3: "sched_inv P (set_state i Finished s3)"
    by (rule inv_set_state [OF conjunct1 [OF s3] i3]) simp
  show ?thesis
  proof (rule that [OF inv2 slots2 [unfolded tasks1] _ _ _ run])
    show "sched_inv P s4" unfolding s4_def by (rule inv_callbacks(4) [OF inv3])
    show "same_slots (tasks (set_state i Finished s3)) (tasks s4)"
      unfolding s4_def by (rule same_slots_notify [OF active_keeps(4) [OF inv3]])
    show "run_one call P i s = (if current s4 = Some i then s4\<lparr>current := None\<rparr> else s4)"
      by (simp add: run_one_def Let_def s1_def s2_def s3_def s4_def)
  qed (use s3 in \<open>simp_all add: s4_def s2_def s1_def\<close>)
qed

lemma run_one_round:
  assumes inv: "sched_inv P s" and i: "i \<in> live s" "i < length (tasks s)" "used_task (tasks s ! i)"
    and A: "entries_use P A call" "\<forall>c \<in> A. parking c \<or> switching c"
  shows "sched_inv P (run_one call P i s)" and "shrinks s (run_one call P i s)"
    and "i \<notin> live (run_one call P i s)"
proof -
  obtain s2 s3 s4 where st:
    "sched_inv P s2" "same_slots (tasks (set_state i Running s)) (tasks s2)" "current s2 = Some i"
    "active_policy s2 = active_policy s" "next_task_id s2 = next_task_id s"
    "entry_run P A s2 s3" "sched_inv P s3" "shrinks s2 s3"
    "sched_inv P s4" "same_slots (tasks (set_state i Finished s3)) (tasks s4)" "current s4 = current s3"
    "active_policy s4 = active_policy s3" "next_task_id s4 = next_task_id s3"
    "run_one call P i s = (if current s4 = Some i then s4\<lparr>current := None\<rparr> else s4)"
    by (rule run_one_stages [OF inv i(2,3) A])
  show "sched_inv P (run_one call P i s)" unfolding st(14) by (rule inv_drop_current [OF st(9)])
  have s2: "shrinks s s2"
    using st(2-5) i
    by (auto simp: shrinks_def same_slots_def live_def ready_at_def tstate_set_state split: if_splits)
  have i3: "i < length (tasks s3)" "used_task (tasks s3 ! i)"
    using shrinks_trans [OF s2 st(8)] i by (auto simp: shrinks_def)
  have "shrinks s3 s4"
    using st(10-13) i3
    by (auto simp: shrinks_def same_slots_def live_def ready_at_def tstate_set_state split: if_splits)
  then show "shrinks s (run_one call P i s)"
    unfolding st(14) using s2 st(8) drop_rel by (blast intro: shrinks_trans)
  show "i \<notin> live (run_one call P i s)"
    unfolding st(14) using st(10) i3 by (auto simp: live_def ready_at_def same_slots_def tstate_set_state)
qed

text \<open>When entry functions never switch tasks, a round leaves no task current.\<close>

lemma run_one_parking:
  assumes inv: "sched_inv P s" and i: "i < length (tasks s)" "used_task (tasks s ! i)"
    and A: "entries_use P A call" "\<forall>c \<in> A. parking c"
  shows "current (run_one call P i s) = None"
    and "\<And>j. j < length (tasks s) \<Longrightarrow> tstate (tasks (run_one call P i s) ! j) = tstate (tasks s ! j) \<or>
           parked (tstate (tasks (run_one call P i s) ! j))"
    and "\<And>j. \<lbrakk>A = {}; j < length (tasks s)\<rbrakk> \<Longrightarrow>
           tstate (tasks (run_one call P i s) ! j) = (if j = i then Finished else tstate (tasks s ! j))"
proof -
  have A': "\<forall>c \<in> A. parking c \<or> switching c" using A(2) by blast
  obtain s2 s3 s4 where st:
    "sched_inv P s2" "same_slots (tasks (set_state i Running s)) (tasks s2)" "current s2 = Some i"
    "active_policy s2 = active_policy s" "next_task_id s2 = next_task_id s"
    "entry_run P A s2 s3" "sched_inv P s3" "shrinks s2 s3"
    "sched_inv P s4" "same_slots (tasks (set_state i Finished s3)) (tasks s4)" "current s4 = current s3"
    "active_policy s4 = active_policy s3" "next_task_id s4 = next_task_id s3"
    "run_one call P i s = (if current s4 = Some i then s4\<lparr>current := None\<rparr> else s4)"
    by (rule run_one_stages [OF inv i A(1) A'])
  note p = entry_run_parking [OF st(6) A(2) st(1)]
  show "current (run_one call P i s) = None"
    unfolding st(14) using p st(3,11) by (auto simp: parks_def)
  show "tstate (tasks (run_one call P i s) ! j) = tstate (tasks s ! j) \<or>
      parked (tstate (tasks (run_one call P i s) ! j))" if "j < length (tasks s)" for j
    using that p st(2,10) unfolding st(14)
    by (auto simp: parks_def same_slots_def tstate_set_state split: if_splits)
  show "tstate (tasks (run_one call P i s) ! j) = (if j = i then Finished else tstate (tasks s ! j))"
    if "A = {}" "j < length (tasks s)" for j
    using that st(2,10) entry_run_silent [of P s2 s3] st(6) unfolding st(14)
    by (auto simp: same_slots_def tstate_set_state split: if_splits)
qed

section \<open>The loop\<close>

lemma finite_live: "sched_inv P s \<Longrightarrow> finite (live s)"
  by (rule finite_subset [of _ "{..< length (tasks s)}"])
    (auto simp: live_def ready_at_def sched_inv_def current_ok_def)

text \<open>
  The loop returns, because a round takes the task it ran out of \<open>live\<close> and puts none there; and a
  reflexive and transitive relation that every round maintains relates the states before and after.
\<close>

lemma run_loop_rule:
  assumes inv: "sched_inv P s" and A: "entries_use P A call" "\<forall>c \<in> A. parking c \<or> switching c"
    and R: "\<And>s. R s s" "\<And>a b c. \<lbrakk>R a b; R b c\<rbrakk> \<Longrightarrow> R a c"
    and round: "\<And>s1 i. \<lbrakk>sched_inv P s1; active_policy s1 = active_policy s; pick_next P s1 = Some i\<rbrakk>
        \<Longrightarrow> R s1 (run_one call P i s1)"
  shows "\<exists>s'. run_scheduler_loop call P s = Some s' \<and> sched_inv P s' \<and> shrinks s s' \<and> pick_next P s' = None \<and> R s s'"
  using inv round
proof (induction "card (live s)" arbitrary: s rule: less_induct)
  case less
  show ?case
  proof (cases "pick_next P s")
    case None
    then have "run_scheduler_loop call P s = Some s"
      by (subst run_scheduler_loop.simps) (simp add: loop_round_eq [OF less.prems(1)])
    then show ?thesis using less.prems(1) None R(1) by blast
  next
    case (Some i)
    let ?s1 = "run_one call P i s"
    note step = run_one_round [OF less.prems(1) pick_live [OF less.prems(1) Some] A]
    have "live ?s1 \<subset> live s"
      using step(2,3) pick_live(1) [OF less.prems(1) Some] by (auto simp: shrinks_def)
    then have card: "card (live ?s1) < card (live s)"
      by (rule psubset_card_mono [OF finite_live [OF less.prems(1)]])
    have act: "active_policy ?s1 = active_policy s" using step(2) by (simp add: shrinks_def)
    have "\<exists>s'. run_scheduler_loop call P ?s1 = Some s' \<and> sched_inv P s' \<and> shrinks ?s1 s' \<and>
        pick_next P s' = None \<and> R ?s1 s'"
      by (rule less.hyps [OF card step(1)]) (simp add: less.prems(2) act)
    moreover have "run_scheduler_loop call P s = run_scheduler_loop call P ?s1"
      by (subst run_scheduler_loop.simps) (simp add: loop_round_eq [OF less.prems(1)] Some)
    moreover have "R s ?s1" by (rule less.prems(2) [OF less.prems(1) refl Some])
    ultimately show ?thesis using step(2) by (auto intro: shrinks_trans R(2))
  qed
qed

definition ready_picking :: "policy_mem \<Rightarrow> sched \<Rightarrow> bool" where
  "ready_picking P s \<longleftrightarrow> ready_policy (P (active_policy s)) \<and> active_policy s \<noteq> 0 \<and>
     p_pick_next (P (active_policy s)) \<noteq> None"

lemma pick_ready_iff:
  assumes pol: "ready_picking P s"
  shows "pick_next P s = Some i \<Longrightarrow> ready_at (tasks s) i"
    and "pick_next P s = None \<Longrightarrow> \<not> ready_at (tasks s) j"
proof -
  obtain k where k: "p_pick_next (P (active_policy s)) = Some k" using pol by (auto simp: ready_picking_def)
  have eq: "pick_next P s = k (tasks s) (current s)"
    using k pol by (simp add: pick_next_def active_def ready_picking_def)
  have rp: "ready_policy (P (active_policy s))" using pol by (simp add: ready_picking_def)
  show "pick_next P s = Some i \<Longrightarrow> ready_at (tasks s) i"
    using ready_policy.pick_ready [OF rp k] eq by metis
  show "pick_next P s = None \<Longrightarrow> \<not> ready_at (tasks s) j"
    using ready_policy.pick_total [OF rp k] eq by metis
qed

text \<open>The state a task has after the loop, by what the entry functions do.\<close>

definition run_state :: "sched_call set \<Rightarrow> task_state \<Rightarrow> task_state \<Rightarrow> bool" where
  "run_state A st st' \<longleftrightarrow>
     ((\<forall>c \<in> A. parking c) \<longrightarrow> st' = st \<or> parked st') \<and> (A = {} \<longrightarrow> st' = st \<or> st = Ready \<and> st' = Finished)"

lemma run_one_state:
  assumes inv: "sched_inv P s" and pol: "ready_picking P s" and pick: "pick_next P s = Some i"
    and A: "entries_use P A call" and j: "j < length (tasks s)"
  shows "run_state A (tstate (tasks s ! j)) (tstate (tasks (run_one call P i s) ! j))"
proof (cases "\<forall>c \<in> A. parking c")
  case True
  have "tstate (tasks s ! i) = Ready" using pick_ready_iff(1) [OF pol pick] by (simp add: ready_at_def)
  then show ?thesis
    using run_one_parking(2,3) [OF inv pick_live(2,3) [OF inv pick] A True] j
    by (auto simp: run_state_def split: if_splits)
qed (auto simp: run_state_def)

lemma run_state_trans: "\<lbrakk>run_state A a b; run_state A b c\<rbrakk> \<Longrightarrow> run_state A a c"
  by (auto simp: run_state_def)

text \<open>
  C6. \<open>run_scheduler_loop\<close> returns, from every state with the scheduler's invariant and under every
  lawful policy, when each entry function returns and calls back into the scheduler only by
  \<open>yield\<close>, \<open>scheduler_tick\<close>, \<open>set_sleeping\<close>, \<open>set_blocked\<close> and \<open>set_finished\<close>. The tables stay
  consistent, no task appears or disappears, and the policy has nothing more to pick. When the active
  policy picks a ready task as long as there is one, no task is ready afterwards; if moreover no entry
  function switches tasks (\<open>yield\<close>, \<open>scheduler_tick\<close>), every task that was ready is sleeping, blocked or
  finished; and if none calls into the scheduler at all, every task that was ready is finished and
  every other task has the state it had.
\<close>

theorem run_scheduler_loop_finishes:
  assumes inv: "sched_inv P s" and A: "entries_use P A call" "\<forall>c \<in> A. parking c \<or> switching c"
  shows "\<exists>s'. run_scheduler_loop call P s = Some s' \<and> sched_inv P s' \<and> pick_next P s' = None \<and>
    length (tasks s') = length (tasks s) \<and>
    (\<forall>j < length (tasks s). tid (tasks s' ! j) = tid (tasks s ! j) \<and>
       used_task (tasks s' ! j) = used_task (tasks s ! j)) \<and>
    (ready_picking P s \<longrightarrow>
       (\<forall>j < length (tasks s). tstate (tasks s' ! j) \<noteq> Ready \<and>
          ((\<forall>c \<in> A. parking c) \<and> tstate (tasks s ! j) = Ready \<longrightarrow> tstate (tasks s' ! j) \<in> {Sleeping, Blocked, Finished}) \<and>
          (A = {} \<longrightarrow> tstate (tasks s' ! j) =
             (if tstate (tasks s ! j) = Ready then Finished else tstate (tasks s ! j)))))"
proof -
  let ?R = "\<lambda>a b. length (tasks b) = length (tasks a) \<and> (ready_picking P s \<longrightarrow>
    (\<forall>j < length (tasks a). run_state A (tstate (tasks a ! j)) (tstate (tasks b ! j))))"
  obtain s' where s': "run_scheduler_loop call P s = Some s'" "sched_inv P s'" "shrinks s s'"
    "pick_next P s' = None" "?R s s'"
  proof (rule exE [OF run_loop_rule [OF inv A, of ?R]])
    show "?R a a" for a by (simp add: run_state_def)
    show "\<lbrakk>?R a b; ?R b c\<rbrakk> \<Longrightarrow> ?R a c" for a b c by (auto intro: run_state_trans)
    show "?R s1 (run_one call P i s1)"
      if "sched_inv P s1" "active_policy s1 = active_policy s" "pick_next P s1 = Some i" for s1 i
      using run_one_round(2) [OF that(1) pick_live [OF that(1,3)] A] run_one_state [OF that(1) _ that(3) A(1)] that(2)
      by (auto simp: shrinks_def ready_picking_def)
  qed blast
  have "\<not> ready_at (tasks s') j" if "ready_picking P s" for j
    using that s'(3) pick_ready_iff(2) [OF _ s'(4)] by (simp add: ready_picking_def shrinks_def)
  then show ?thesis
    using s' by (auto simp: shrinks_def ready_at_def run_state_def intro!: exI [of _ s'])
qed

text \<open>The first task blocks the second one before it returns.\<close>

definition demo_entry :: "u64 \<Rightarrow> u64 \<Rightarrow> sched \<Rightarrow> sched" where
  "demo_entry e a s = (if e = 4096 then exec_call (\<lambda>_. default_policy) (SetBlocked 2) s else s)"

lemma demo_entry_use: "entries_use (\<lambda>_. default_policy) {SetBlocked 2} demo_entry"
  unfolding entries_use_def demo_entry_def
  using entry_run.call [OF entry_run.start, of "SetBlocked 2"] by (auto intro: entry_run.start)

lemma demo_ready_picking: "ready_picking (\<lambda>_. default_policy) demo_sched"
  using default.ready_policy_axioms
  by (simp add: ready_picking_def demo_sched_eq default_policy_addr_def) (simp add: default_policy_def)

theorem run_scheduler_loop_finishes_witness:
  "\<exists>s'. run_scheduler_loop demo_entry (\<lambda>_. default_policy) demo_sched = Some s' \<and>
     sched_inv (\<lambda>_. default_policy) s' \<and>
     tstate (tasks s' ! 0) \<in> {Sleeping, Blocked, Finished} \<and> tstate (tasks s' ! 1) \<in> {Sleeping, Blocked, Finished}"
proof -
  have "tstate (tasks demo_sched ! 0) = Ready" "tstate (tasks demo_sched ! 1) = Ready"
    "0 < length (tasks demo_sched)" "1 < length (tasks demo_sched)"
    by (simp_all add: demo_sched_eq MAX_TASKS_def zero_task_def)
  then show ?thesis
    using run_scheduler_loop_finishes [OF demo_sched_inv demo_entry_use] demo_ready_picking by auto
qed

text \<open>
  A task that is running when the loop starts, while another one is ready, is stranded: the loop
  moves \<open>current\<close> to the tasks it runs and leaves the first one in the running state.
\<close>

lemma run_loop_strands_running:
  assumes inv: "sched_inv P s" and A: "entries_use P {} call" and pol: "ready_picking P s"
    and j: "j < length (tasks s)" "tstate (tasks s ! j) = Running" and k: "ready_at (tasks s) k"
  shows "\<exists>s'. run_scheduler_loop call P s = Some s' \<and> tstate (tasks s' ! j) = Running \<and> current s' = None"
proof -
  let ?R = "\<lambda>a b. length (tasks b) = length (tasks a) \<and> (b = a \<or> current b = None) \<and>
    (j < length (tasks a) \<and> tstate (tasks a ! j) = Running \<longrightarrow> tstate (tasks b ! j) = Running)"
  obtain s' where s': "run_scheduler_loop call P s = Some s'" "pick_next P s' = None" "?R s s'"
  proof (rule exE [OF run_loop_rule [OF inv A, of ?R]])
    show "?R s1 (run_one call P i s1)"
      if "sched_inv P s1" "active_policy s1 = active_policy s" "pick_next P s1 = Some i" for s1 i
    proof -
      have "tstate (tasks s1 ! i) = Ready"
        using pol that pick_ready_iff(1) [of P s1 i] by (simp add: ready_picking_def ready_at_def)
      then show ?thesis
        using run_one_round(2) [OF that(1) pick_live [OF that(1,3)] A]
          run_one_parking(1,3) [OF that(1) pick_live(2,3) [OF that(1,3)] A]
        by (auto simp: shrinks_def)
    qed
  qed auto
  moreover have "s' \<noteq> s" using s'(2) pick_ready_iff(2) [OF pol] k by blast
  ultimately show ?thesis using j by auto
qed

section \<open>Calls and loops\<close>

text \<open>A run of the scheduler is a sequence of calls and of loops.\<close>

datatype sched_event = Call sched_call | RunLoop

fun exec_events ::
  "(u64 \<Rightarrow> u64 \<Rightarrow> sched \<Rightarrow> sched) \<Rightarrow> policy_mem \<Rightarrow> sched_event list \<Rightarrow> sched \<Rightarrow> sched option" where
  "exec_events call P [] s = Some s"
| "exec_events call P (Call c # es) s = exec_events call P es (exec_call P c s)"
| "exec_events call P (RunLoop # es) s =
     (case run_scheduler_loop call P s of None \<Rightarrow> None | Some s' \<Rightarrow> exec_events call P es s')"

definition no_task_runs :: "sched \<Rightarrow> bool" where
  "no_task_runs s \<longleftrightarrow> list_all (\<lambda>t. tstate t \<noteq> Running) (tasks s)"

text \<open>Every loop of the run starts while no task is in the running state.\<close>

fun loops_idle ::
  "(u64 \<Rightarrow> u64 \<Rightarrow> sched \<Rightarrow> sched) \<Rightarrow> policy_mem \<Rightarrow> sched_event list \<Rightarrow> sched \<Rightarrow> bool" where
  "loops_idle call P [] s = True"
| "loops_idle call P (Call c # es) s = loops_idle call P es (exec_call P c s)"
| "loops_idle call P (RunLoop # es) s =
     (no_task_runs s \<and>
      (case run_scheduler_loop call P s of None \<Rightarrow> True | Some s' \<Rightarrow> loops_idle call P es s'))"

lemma no_task_runs_iff: "no_task_runs s \<longleftrightarrow> (\<forall>j < length (tasks s). tstate (tasks s ! j) \<noteq> Running)"
  by (auto simp: no_task_runs_def list_all_length)

lemma no_task_runs_only: "no_task_runs s \<Longrightarrow> only_current_runs s"
  by (simp add: no_task_runs_iff only_current_runs_def)

lemma run_loop_idle:
  assumes inv: "sched_inv P s" and A: "entries_use P A call" "\<forall>c \<in> A. parking c" and idle: "no_task_runs s"
  shows "\<exists>s'. run_scheduler_loop call P s = Some s' \<and> sched_inv P s' \<and> no_task_runs s' \<and>
    next_task_id s' = next_task_id s"
proof -
  have A': "\<forall>c \<in> A. parking c \<or> switching c" using A(2) by blast
  let ?R = "\<lambda>a b. no_task_runs a \<longrightarrow> no_task_runs b"
  have "?R s1 (run_one call P i s1)" if "sched_inv P s1" "pick_next P s1 = Some i" for s1 i
  proof -
    have "length (tasks (run_one call P i s1)) = length (tasks s1)"
      using run_one_round(2) [OF that(1) pick_live [OF that] A(1) A'] by (simp add: shrinks_def)
    then show ?thesis
      using run_one_parking(2) [OF that(1) pick_live(2,3) [OF that] A] by (fastforce simp: no_task_runs_iff)
  qed
  then show ?thesis
    using run_loop_rule [OF inv A(1) A', of ?R] idle by (auto simp: shrinks_def)
qed

lemma exec_events_runs:
  assumes "sched_inv P s" and "only_current_runs s" and "unat (next_task_id s) + length es < 2 ^ 64"
    and "\<And>p. Call (RegisterPolicy p) \<in> set es \<Longrightarrow> sched_policy (P p)" and "\<And>k. Call (SetRunning k) \<notin> set es"
    and A: "entries_use P A call" "\<forall>c \<in> A. parking c" and "loops_idle call P es s"
  shows "\<exists>s'. exec_events call P es s = Some s' \<and> sched_inv P s' \<and> only_current_runs s'"
  using assms(1-5,8)
proof (induction es arbitrary: s)
  case (Cons e es)
  show ?case
  proof (cases e)
    case (Call c)
    have len: "unat (next_task_id s) + Suc (length es) < 2 ^ 64" using Cons.prems(3) by simp
    note step = next_id_no_wrap [of s "length es"]
    have "sched_inv P (exec_call P c s)"
      by (rule inv_exec_call [OF Cons.prems(1) step(1) [OF len]]) (use Cons.prems(4) Call in auto)
    moreover have "only_current_runs (exec_call P c s)"
      by (rule runs_exec_call [OF Cons.prems(1) step(1) [OF len] Cons.prems(2)])
        (use Cons.prems(4,5) Call in auto)
    ultimately show ?thesis
      using Cons.IH [of "exec_call P c s"] step(2) [OF len] Cons.prems(4,5,6) Call by simp
  next
    case RunLoop
    obtain s1 where s1: "run_scheduler_loop call P s = Some s1" "sched_inv P s1" "no_task_runs s1"
      "next_task_id s1 = next_task_id s"
      using run_loop_idle [OF Cons.prems(1) A] Cons.prems(6) RunLoop by auto
    then show ?thesis
      using Cons.IH [OF s1(2) no_task_runs_only [OF s1(3)]] Cons.prems(3-6) RunLoop by simp
  qed
qed simp

text \<open>
  C3. In every run of the scheduler from \<open>scheduler_init\<close>, made of its calls and of cooperative loops,
  at most one task is in the running state, and it is the task \<open>current\<close> points to; the tables are
  consistent, and every loop of the run returns. The runs meant are those that never call
  \<open>set_running\<close>, register lawful policies, start a loop only while no task is in the running state,
  and whose entry functions call back into the scheduler only by \<open>set_sleeping\<close>, \<open>set_blocked\<close> and
  \<open>set_finished\<close>. Without these conditions a task can be left in the running state while it is not
  current (\<open>run_loop_strands_running\<close>).
\<close>

theorem only_current_task_runs:
  assumes "P default_policy_addr = default_policy" and "length es < 2 ^ 64 - 1"
    and "\<And>p. Call (RegisterPolicy p) \<in> set es \<Longrightarrow> sched_policy (P p)" and "\<And>k. Call (SetRunning k) \<notin> set es"
    and "entries_use P A call" and "\<forall>c \<in> A. parking c" and "loops_idle call P es (scheduler_init P)"
  shows "\<exists>s'. exec_events call P es (scheduler_init P) = Some s' \<and> sched_inv P s' \<and> only_current_runs s'"
proof (rule exec_events_runs [OF inv_init [of P, OF assms(1)] _ _ assms(3-7)])
  show "only_current_runs (scheduler_init P)"
    by (simp add: scheduler_init_eq [of P, OF assms(1)] only_current_runs_def zero_task_def)
qed (use assms in \<open>simp_all add: scheduler_init_eq\<close>)

text \<open>Two tasks are created and run by the loop, then a third one is made current by the tick.\<close>

definition demo_events :: "sched_event list" where
  "demo_events = [Call (CreateTask 4096 7), Call (CreateTask 8192 9), RunLoop, Call (CreateTask 12288 1),
     Call (Tick 1000), Call Yield]"

theorem only_current_task_runs_witness:
  "\<exists>s'. exec_events demo_entry (\<lambda>_. default_policy) demo_events (scheduler_init (\<lambda>_. default_policy)) = Some s' \<and>
     sched_inv (\<lambda>_. default_policy) s' \<and> only_current_runs s'"
proof -
  have "no_task_runs demo_sched"
    by (simp add: no_task_runs_iff demo_sched_eq nth_update_if zero_task_def)
  then have "loops_idle demo_entry (\<lambda>_. default_policy) demo_events (scheduler_init (\<lambda>_. default_policy))"
    by (simp add: demo_events_def demo_sched_def split: option.splits)
  moreover have "sched_policy default_policy" by (rule default.sched_policy_axioms)
  moreover have "length demo_events < 2 ^ 64 - 1" "Call (SetRunning k) \<notin> set demo_events" for k
    by (simp_all add: demo_events_def)
  ultimately show ?thesis
    using only_current_task_runs [OF _ _ _ _ demo_entry_use, of demo_events] by simp
qed

end
