(* ===== verification/Livepatch.thy ===== *)
theory Livepatch
  imports Prelude
begin

text \<open>
  The live patch registry of \<^verbatim>\<open>kernel/livepatch/livepatch.cpp\<close>: a table of 64 slots, each naming
  a function pointer in memory (\<open>target\<close>), the pointer to install (\<open>replacement\<close>) and the pointer
  found there at registration (\<open>original\<close>). Pointers are 64-bit addresses with 0 for \<open>nullptr\<close>; the
  pointers the patches write are the function \<open>fptr\<close> from addresses to addresses. A \<open>const char*\<close>
  is an optional string: the registry keeps the pointer, so its contents are taken to stay fixed.
\<close>

section \<open>Data\<close>

datatype lp_error =
  NoError | InvalidArgument | AlreadyRegistered | NotFound | AlreadyApplied | NotApplied | NoFreeSlot | InvalidState

record patch =
  patch_name :: "string option"
  target :: u64
  replacement :: u64
  original :: u64
  registered :: bool
  applied :: bool

record lp_status =
  n_registered :: nat
  n_applied :: nat
  capacity :: nat

definition MAX_PATCHES :: nat where "MAX_PATCHES = 64"

definition no_patch :: patch where
  "no_patch = \<lparr>patch_name = None, target = 0, replacement = 0, original = 0, registered = False, applied = False\<rparr>"

record livepatch =
  patches :: "patch list"
  current_error :: lp_error
  initialized :: bool
  fptr :: "u64 \<Rightarrow> u64"

section \<open>Operations\<close>

text \<open>The loop of \<open>names_equal\<close>; the end of a list is the terminating zero character.\<close>

fun chars_equal :: "string \<Rightarrow> string \<Rightarrow> bool" where
  "chars_equal (a # as) (b # bs) = (if a \<noteq> b then False else chars_equal as bs)"
| "chars_equal as bs = (as = [] \<and> bs = [])"

definition names_equal :: "string option \<Rightarrow> string option \<Rightarrow> bool" where
  "names_equal a b = (case (a, b) of (Some x, Some y) \<Rightarrow> chars_equal x y | _ \<Rightarrow> False)"

definition patch_count :: "livepatch \<Rightarrow> nat" where
  "patch_count s = count_if registered (patches s)"

definition applied_count :: "livepatch \<Rightarrow> nat" where
  "applied_count s = count_if (\<lambda>p. registered p \<and> applied p) (patches s)"

definition find_mutable :: "livepatch \<Rightarrow> string option \<Rightarrow> nat option" where
  "find_mutable s name =
     (if name = None then None
      else find_idx (\<lambda>p. registered p \<and> names_equal (patch_name p) name) (patches s))"

definition free_slot :: "livepatch \<Rightarrow> nat option" where
  "free_slot s = find_idx (\<lambda>p. \<not> registered p) (patches s)"

definition set_error :: "lp_error \<Rightarrow> livepatch \<Rightarrow> livepatch" where
  "set_error e s = s\<lparr>current_error := e\<rparr>"

definition livepatch_init :: "livepatch \<Rightarrow> livepatch \<times> bool" where
  "livepatch_init s =
     (s\<lparr>patches := replicate MAX_PATCHES no_patch, current_error := NoError, initialized := True\<rparr>, True)"

definition register_patch :: "string option \<Rightarrow> u64 \<Rightarrow> u64 \<Rightarrow> livepatch \<Rightarrow> livepatch \<times> bool" where
  "register_patch name tgt repl s =
     (if \<not> initialized s then (set_error InvalidState s, False)
      else if name = None \<or> tgt = 0 \<or> repl = 0 then (set_error InvalidArgument s, False)
      else if find_mutable s name \<noteq> None then (set_error AlreadyRegistered s, False)
      else case free_slot s of None \<Rightarrow> (set_error NoFreeSlot s, False)
      | Some i \<Rightarrow>
          (set_error NoError (s\<lparr>patches := (patches s)[i :=
             \<lparr>patch_name = name, target = tgt, replacement = repl, original = fptr s tgt,
              registered = True, applied = False\<rparr>]\<rparr>), True))"

definition unregister_patch :: "string option \<Rightarrow> livepatch \<Rightarrow> livepatch \<times> bool" where
  "unregister_patch name s =
     (case find_mutable s name of None \<Rightarrow> (set_error NotFound s, False)
      | Some i \<Rightarrow>
          if applied (patches s ! i) then (set_error AlreadyApplied s, False)
          else (set_error NoError (s\<lparr>patches := (patches s)[i := no_patch]\<rparr>), True))"

definition apply_patch :: "string option \<Rightarrow> livepatch \<Rightarrow> livepatch \<times> bool" where
  "apply_patch name s =
     (case find_mutable s name of None \<Rightarrow> (set_error NotFound s, False)
      | Some i \<Rightarrow>
          let p = patches s ! i in
          if applied p then (set_error AlreadyApplied s, False)
          else if target p = 0 \<or> replacement p = 0 then (set_error InvalidArgument s, False)
          else (set_error NoError (s\<lparr>fptr := (fptr s)(target p := replacement p),
                  patches := (patches s)[i := p\<lparr>applied := True\<rparr>]\<rparr>), True))"

definition rollback :: "string option \<Rightarrow> livepatch \<Rightarrow> livepatch \<times> bool" where
  "rollback name s =
     (case find_mutable s name of None \<Rightarrow> (set_error NotFound s, False)
      | Some i \<Rightarrow>
          let p = patches s ! i in
          if \<not> applied p then (set_error NotApplied s, False)
          else if target p = 0 then (set_error InvalidArgument s, False)
          else (set_error NoError (s\<lparr>fptr := (fptr s)(target p := original p),
                  patches := (patches s)[i := p\<lparr>applied := False\<rparr>]\<rparr>), True))"

text \<open>The loop of \<open>apply_all\<close> over the slot indices still to visit.\<close>

fun apply_loop :: "nat list \<Rightarrow> livepatch \<Rightarrow> livepatch \<times> bool" where
  "apply_loop [] s = (set_error NoError s, True)"
| "apply_loop (i # is) s =
     (if \<not> registered (patches s ! i) \<or> applied (patches s ! i) then apply_loop is s
      else let (s', ok) = apply_patch (patch_name (patches s ! i)) s
           in if ok then apply_loop is s' else (s', False))"

definition apply_all :: "livepatch \<Rightarrow> livepatch \<times> bool" where
  "apply_all s = apply_loop [0..<MAX_PATCHES] s"

text \<open>The loop of \<open>rollback_all\<close>, which visits the slots from the last to the first.\<close>

fun rollback_loop :: "nat list \<Rightarrow> livepatch \<Rightarrow> livepatch \<times> bool" where
  "rollback_loop [] s = (set_error NoError s, True)"
| "rollback_loop (i # is) s =
     (if \<not> registered (patches s ! i) \<or> \<not> applied (patches s ! i) then rollback_loop is s
      else let (s', ok) = rollback (patch_name (patches s ! i)) s
           in if ok then rollback_loop is s' else (s', False))"

definition rollback_all :: "livepatch \<Rightarrow> livepatch \<times> bool" where
  "rollback_all s = rollback_loop (rev [0..<MAX_PATCHES]) s"

definition is_applied :: "string option \<Rightarrow> livepatch \<Rightarrow> bool" where
  "is_applied name s = (case find_mutable s name of None \<Rightarrow> False | Some i \<Rightarrow> applied (patches s ! i))"

definition patch_status :: "livepatch \<Rightarrow> lp_status" where
  "patch_status s = \<lparr>n_registered = patch_count s, n_applied = applied_count s, capacity = MAX_PATCHES\<rparr>"

definition last_error :: "livepatch \<Rightarrow> lp_error" where
  "last_error s = current_error s"

fun error_name :: "lp_error \<Rightarrow> string" where
  "error_name NoError = ''none''"
| "error_name InvalidArgument = ''invalid argument''"
| "error_name AlreadyRegistered = ''already registered''"
| "error_name NotFound = ''not found''"
| "error_name AlreadyApplied = ''already applied''"
| "error_name NotApplied = ''not applied''"
| "error_name NoFreeSlot = ''no free slot''"
| "error_name InvalidState = ''invalid state''"

section \<open>The registry's invariant\<close>

lemma chars_equal_iff [simp]: "chars_equal a b \<longleftrightarrow> a = b"
  by (induction a b rule: chars_equal.induct) auto

lemma names_equal_iff [simp]: "names_equal a b \<longleftrightarrow> a \<noteq> None \<and> a = b"
  by (auto simp: names_equal_def split: option.splits)

interpretation patch_table: slot_table registered patch_name no_patch
  by unfold_locales (simp add: no_patch_def)

definition patch_ok :: "patch \<Rightarrow> bool" where
  "patch_ok p \<longleftrightarrow> (registered p \<longrightarrow> patch_name p \<noteq> None \<and> target p \<noteq> 0 \<and> replacement p \<noteq> 0) \<and>
     (applied p \<longrightarrow> registered p)"

definition lp_inv :: "livepatch \<Rightarrow> bool" where
  "lp_inv s \<longleftrightarrow> initialized s \<and> length (patches s) = MAX_PATCHES \<and> (\<forall>p \<in> set (patches s). patch_ok p) \<and>
     slot_uniq registered patch_name (patches s)"

lemma set_error_simps [simp]:
  "patches (set_error e s) = patches s" "fptr (set_error e s) = fptr s" "initialized (set_error e s) = initialized s"
  "lp_inv (set_error e s) = lp_inv s" "current_error (set_error e s) = e"
  by (simp_all add: set_error_def lp_inv_def)

lemma set_error_inj [simp]: "set_error e s = set_error f s \<longleftrightarrow> e = f"
  by (metis set_error_simps(5))

lemma find_mutable_eq:
  "find_mutable s n = (if n = None then None else find_idx (\<lambda>p. registered p \<and> patch_name p = n) (patches s))"
  unfolding find_mutable_def by (auto intro: find_idx_cong)

lemma find_mutableD:
  assumes "find_mutable s n = Some i"
  shows "i < length (patches s)" and "registered (patches s ! i)" and "patch_name (patches s ! i) = n" and "n \<noteq> None"
  using find_idx_SomeD(1,2) [of "\<lambda>p. registered p \<and> patch_name p = n" "patches s" i] assms
  by (auto simp: find_mutable_eq split: if_splits)

lemma find_mutable_at:
  assumes "lp_inv s" and "i < length (patches s)" and "registered (patches s ! i)"
  shows "find_mutable s (patch_name (patches s ! i)) = Some i"
proof -
  have "patch_name (patches s ! i) \<noteq> None"
    using assms nth_mem [OF assms(2)] unfolding lp_inv_def patch_ok_def by blast
  moreover have "find_idx (\<lambda>p. registered p \<and> patch_name p = patch_name (patches s ! i)) (patches s) = Some i"
    using assms by (intro patch_table.lookup_eq_Some) (auto simp: lp_inv_def)
  ultimately show ?thesis by (simp add: find_mutable_eq)
qed

lemma lp_inv_update:
  assumes "lp_inv s" and "i < length (patches s)" and "patch_ok p"
    and "registered p \<Longrightarrow> registered (patches s ! i) \<and> patch_name p = patch_name (patches s ! i)"
  shows "lp_inv (s\<lparr>patches := (patches s)[i := p]\<rparr>)"
  using assms patch_table.uniq_update [of "patches s" i p]
  by (auto simp: lp_inv_def dest!: subsetD [OF set_update_subset_insert])

lemma lp_inv_fptr [simp]: "lp_inv (s\<lparr>fptr := m\<rparr>) = lp_inv s" "lp_inv (s\<lparr>fptr := m, patches := ps\<rparr>) = lp_inv (s\<lparr>patches := ps\<rparr>)"
  by (simp_all add: lp_inv_def)

lemma patch_ok_at: "\<lbrakk>lp_inv s; i < length (patches s)\<rbrakk> \<Longrightarrow> patch_ok (patches s ! i)"
  by (simp add: lp_inv_def)

lemma no_patch_ok [simp]: "patch_ok no_patch"
  by (simp add: patch_ok_def no_patch_def)

lemma lp_inv_init: "lp_inv (fst (livepatch_init s))"
  using patch_table.uniq_replicate by (auto simp: livepatch_init_def lp_inv_def)

definition new_patch :: "string option \<Rightarrow> u64 \<Rightarrow> u64 \<Rightarrow> livepatch \<Rightarrow> patch" where
  "new_patch n t r s = \<lparr>patch_name = n, target = t, replacement = r, original = fptr s t, registered = True, applied = False\<rparr>"

lemma register_patch_cases:
  assumes "lp_inv s"
  obtains (fail) e where "e \<noteq> NoError" "register_patch n t r s = (set_error e s, False)"
  | (made) i where "n \<noteq> None" "t \<noteq> 0" "r \<noteq> 0" "find_mutable s n = None" "i < length (patches s)"
      "\<not> registered (patches s ! i)"
      "register_patch n t r s = (set_error NoError (s\<lparr>patches := (patches s)[i := new_patch n t r s]\<rparr>), True)"
proof (cases "n = None \<or> t = 0 \<or> r = 0 \<or> find_mutable s n \<noteq> None \<or> free_slot s = None")
  case True
  then have "\<exists>e. e \<noteq> NoError \<and> register_patch n t r s = (set_error e s, False)"
    using assms by (auto simp: register_patch_def lp_inv_def)
  then show ?thesis using fail by blast
next
  case False
  then obtain i where i: "free_slot s = Some i" by auto
  show ?thesis
    using False i find_idx_SomeD(1,2) [OF i [unfolded free_slot_def]] assms
    by (intro made [of i]) (auto simp: register_patch_def lp_inv_def new_patch_def)
qed

lemma lp_inv_register:
  assumes inv: "lp_inv s"
  shows "lp_inv (fst (register_patch n t r s))"
  using inv
proof (cases rule: register_patch_cases [of s n t r])
  case fail
  then show ?thesis using inv by simp
next
  case (made i)
  have "slot_uniq registered patch_name ((patches s)[i := new_patch n t r s])"
    using made inv by (intro patch_table.uniq_insert)
      (auto simp: lp_inv_def new_patch_def find_mutable_eq find_idx_None_iff)
  moreover have "patch_ok (new_patch n t r s)"
    using made by (auto simp: patch_ok_def new_patch_def)
  ultimately have "lp_inv (s\<lparr>patches := (patches s)[i := new_patch n t r s]\<rparr>)"
    using inv by (auto simp: lp_inv_def dest!: subsetD [OF set_update_subset_insert])
  then show ?thesis using made by simp
qed

text \<open>The single-patch operations, with their effect spelt out.\<close>

lemma unregister_patch_eq:
  "unregister_patch n s = (case find_mutable s n of None \<Rightarrow> (set_error NotFound s, False)
     | Some i \<Rightarrow> if applied (patches s ! i) then (set_error AlreadyApplied s, False)
         else (set_error NoError (s\<lparr>patches := (patches s)[i := no_patch]\<rparr>), True))"
  by (simp add: unregister_patch_def)

lemma apply_patch_eq:
  assumes "lp_inv s"
  shows "apply_patch n s = (case find_mutable s n of None \<Rightarrow> (set_error NotFound s, False)
     | Some i \<Rightarrow> if applied (patches s ! i) then (set_error AlreadyApplied s, False)
         else (set_error NoError (s\<lparr>fptr := (fptr s)(target (patches s ! i) := replacement (patches s ! i)),
                patches := (patches s)[i := (patches s ! i)\<lparr>applied := True\<rparr>]\<rparr>), True))"
  using patch_ok_at [OF assms find_mutableD(1)] find_mutableD(2)
  by (auto simp: apply_patch_def Let_def patch_ok_def split: option.splits)

lemma rollback_eq:
  assumes "lp_inv s"
  shows "rollback n s = (case find_mutable s n of None \<Rightarrow> (set_error NotFound s, False)
     | Some i \<Rightarrow> if \<not> applied (patches s ! i) then (set_error NotApplied s, False)
         else (set_error NoError (s\<lparr>fptr := (fptr s)(target (patches s ! i) := original (patches s ! i)),
                patches := (patches s)[i := (patches s ! i)\<lparr>applied := False\<rparr>]\<rparr>), True))"
  using patch_ok_at [OF assms find_mutableD(1)] find_mutableD(2)
  by (auto simp: rollback_def Let_def patch_ok_def split: option.splits)

lemma lp_inv_applied:
  assumes "lp_inv s" and "i < length (patches s)" and "registered (patches s ! i)"
  shows "lp_inv (s\<lparr>patches := (patches s)[i := (patches s ! i)\<lparr>applied := b\<rparr>]\<rparr>)"
  using assms patch_ok_at [OF assms(1,2)] by (intro lp_inv_update) (auto simp: patch_ok_def)

lemma lp_inv_single:
  assumes "lp_inv s"
  shows "lp_inv (fst (unregister_patch n s))" and "lp_inv (fst (apply_patch n s))" and "lp_inv (fst (rollback n s))"
proof -
  show "lp_inv (fst (unregister_patch n s))"
    using assms find_mutableD(1) [of s n]
    by (auto simp: unregister_patch_eq patch_table.blank_unused split: option.split intro!: lp_inv_update)
  show "lp_inv (fst (apply_patch n s))" "lp_inv (fst (rollback n s))"
    using assms find_mutableD(1,2) [of s n]
    by (auto simp: apply_patch_eq rollback_eq split: option.split intro!: lp_inv_applied)
qed

section \<open>Applying and rolling back all patches\<close>

definition due :: "patch \<Rightarrow> bool" where
  "due p \<longleftrightarrow> registered p \<and> \<not> applied p"

definition live :: "patch \<Rightarrow> bool" where
  "live p \<longleftrightarrow> registered p \<and> applied p"

text \<open>Writing \<open>f i\<close> to the address \<open>tg i\<close> for every index of the list that passes the test, in order.\<close>

fun write_seq :: "(nat \<Rightarrow> bool) \<Rightarrow> (nat \<Rightarrow> u64) \<Rightarrow> (nat \<Rightarrow> u64) \<Rightarrow> nat list \<Rightarrow> (u64 \<Rightarrow> u64) \<Rightarrow> u64 \<Rightarrow> u64" where
  "write_seq Q tg f [] m = m"
| "write_seq Q tg f (i # is) m = write_seq Q tg f is (if Q i then m(tg i := f i) else m)"

lemma write_seq_cong:
  "\<lbrakk>\<And>i. i \<in> set is \<Longrightarrow> Q i = Q' i \<and> tg i = tg' i \<and> f i = f' i\<rbrakk> \<Longrightarrow> write_seq Q tg f is m = write_seq Q' tg' f' is m"
  by (induction "is" arbitrary: m) auto

lemma write_seq_other: "(\<And>i. \<lbrakk>i \<in> set is; Q i\<rbrakk> \<Longrightarrow> tg i \<noteq> a) \<Longrightarrow> write_seq Q tg f is m a = m a"
  by (induction "is" arbitrary: m) auto

lemma write_seq_same:
  assumes "\<And>i. \<lbrakk>i \<in> set is; Q i; tg i = a\<rbrakk> \<Longrightarrow> f i = v"
  shows "write_seq Q tg f is m a = (if \<exists>i \<in> set is. Q i \<and> tg i = a then v else m a)"
  using assms
proof (induction "is" arbitrary: m)
  case (Cons i "is")
  then show ?case by (cases "Q i \<and> tg i = a") auto
qed simp

text \<open>The effect of one successful switch of slot \<open>i\<close>.\<close>

definition switch :: "(patch \<Rightarrow> u64) \<Rightarrow> bool \<Rightarrow> nat \<Rightarrow> livepatch \<Rightarrow> livepatch" where
  "switch val b i s = set_error NoError
     (s\<lparr>fptr := (fptr s)(target (patches s ! i) := val (patches s ! i)),
        patches := (patches s)[i := (patches s ! i)\<lparr>applied := b\<rparr>]\<rparr>)"

lemma switch_simps [simp]:
  "length (patches (switch val b i s)) = length (patches s)"
  "fptr (switch val b i s) = (fptr s)(target (patches s ! i) := val (patches s ! i))"
  "patches (switch val b i s) = (patches s)[i := (patches s ! i)\<lparr>applied := b\<rparr>]"
  by (simp_all add: switch_def)

lemma lp_inv_switch:
  "\<lbrakk>lp_inv s; i < length (patches s); registered (patches s ! i)\<rbrakk> \<Longrightarrow> lp_inv (switch val b i s)"
  using lp_inv_applied by (simp add: switch_def)

text \<open>
  A pass over the slots that switches every slot whose patch passes the test \<open>todo\<close>: both
  \<open>apply_all\<close> and \<open>rollback_all\<close> are such passes.
\<close>

locale patch_pass =
  fixes loop :: "nat list \<Rightarrow> livepatch \<Rightarrow> livepatch \<times> bool"
    and todo :: "patch \<Rightarrow> bool" and val :: "patch \<Rightarrow> u64" and flag :: bool
  assumes loop_Nil: "loop [] s = (set_error NoError s, True)"
    and loop_skip: "\<not> todo (patches s ! i) \<Longrightarrow> loop (i # is) s = loop is s"
    and loop_step: "\<lbrakk>lp_inv s; i < length (patches s); todo (patches s ! i)\<rbrakk>
      \<Longrightarrow> loop (i # is) s = loop is (switch val flag i s)"
    and todo_registered: "todo p \<Longrightarrow> registered p"
    and todo_done: "\<not> todo (p\<lparr>applied := flag\<rparr>)"
begin

abbreviation (input) writes :: "livepatch \<Rightarrow> nat list \<Rightarrow> (u64 \<Rightarrow> u64) \<Rightarrow> u64 \<Rightarrow> u64" where
  "writes s \<equiv> write_seq (\<lambda>i. todo (patches s ! i)) (\<lambda>i. target (patches s ! i)) (\<lambda>i. val (patches s ! i))"

lemma writes_switch: "i \<notin> set is \<Longrightarrow> writes (switch val flag i s) is m = writes s is m"
  by (rule write_seq_cong) (auto simp: nth_update_if)

lemma pass_effect:
  assumes "lp_inv s" and "distinct is" and "\<And>i. i \<in> set is \<Longrightarrow> i < length (patches s)"
  shows "\<exists>s'. loop is s = (s', True) \<and> lp_inv s' \<and> fptr s' = writes s is (fptr s) \<and>
    length (patches s') = length (patches s) \<and>
    (\<forall>j. patches s' ! j =
       (if j \<in> set is \<and> todo (patches s ! j) then (patches s ! j)\<lparr>applied := flag\<rparr> else patches s ! j))"
  using assms
proof (induction "is" arbitrary: s)
  case Nil
  then show ?case by (simp add: loop_Nil)
next
  case (Cons i "is")
  show ?case
  proof (cases "todo (patches s ! i)")
    case False
    then show ?thesis
      using Cons.IH [of s] Cons.prems loop_skip [OF False] by auto
  next
    case True
    let ?t = "switch val flag i s"
    have i: "i < length (patches s)" "i \<notin> set is" using Cons.prems by auto
    note eq = loop_step [OF Cons.prems(1) i(1) True, of "is"]
    have inv: "lp_inv ?t" by (rule lp_inv_switch [OF Cons.prems(1) i(1) todo_registered [OF True]])
    have "distinct is" "\<And>j. j \<in> set is \<Longrightarrow> j < length (patches ?t)" using Cons.prems(2,3) by simp_all
    from Cons.IH [OF inv this]
    obtain s' where s': "loop is ?t = (s', True)" "lp_inv s'" "fptr s' = writes ?t is (fptr ?t)"
      "length (patches s') = length (patches ?t)"
      "\<And>j. patches s' ! j = (if j \<in> set is \<and> todo (patches ?t ! j) then (patches ?t ! j)\<lparr>applied := flag\<rparr> else patches ?t ! j)"
      by blast
    have "patches s' ! j = (if j \<in> set (i # is) \<and> todo (patches s ! j) then (patches s ! j)\<lparr>applied := flag\<rparr>
        else patches s ! j)" for j
      unfolding s'(5) using i True todo_done by (cases "j = i") auto
    moreover have "fptr s' = writes s (i # is) (fptr s)"
      using s'(3) writes_switch [OF i(2), of s] True by simp
    ultimately show ?thesis using eq s'(1,2,4) by simp
  qed
qed

lemma pass_keeps:
  assumes "R s" and "\<And>s. R s \<Longrightarrow> lp_inv s" and "\<And>s. R s \<Longrightarrow> R (set_error NoError s)"
    and "\<And>s i. \<lbrakk>R s; i < length (patches s); todo (patches s ! i)\<rbrakk> \<Longrightarrow> R (switch val flag i s)"
    and "\<And>i. i \<in> set is \<Longrightarrow> i < length (patches s)"
  shows "R (fst (loop is s))"
  using assms(1,5)
proof (induction "is" arbitrary: s)
  case Nil
  then show ?case by (simp add: loop_Nil assms(3))
next
  case (Cons i "is")
  then have i: "i < length (patches s)" by simp
  show ?case
  proof (cases "todo (patches s ! i)")
    case True
    have "R (fst (loop is (switch val flag i s)))"
      using Cons.IH [OF assms(4) [OF Cons.prems(1) i True]] Cons.prems(2) by simp
    then show ?thesis by (simp add: loop_step [OF assms(2) [OF Cons.prems(1)] i True])
  qed (use Cons in \<open>simp add: loop_skip\<close>)
qed

end

lemma apply_step:
  assumes "lp_inv s" and "i < length (patches s)" and "due (patches s ! i)"
  shows "apply_patch (patch_name (patches s ! i)) s = (switch replacement True i s, True)"
  using assms find_mutable_at [OF assms(1,2)] by (simp add: apply_patch_eq due_def switch_def)

lemma rollback_step:
  assumes "lp_inv s" and "i < length (patches s)" and "live (patches s ! i)"
  shows "rollback (patch_name (patches s ! i)) s = (switch original False i s, True)"
  using assms find_mutable_at [OF assms(1,2)] by (simp add: rollback_eq live_def switch_def)

interpretation apply_pass: patch_pass apply_loop due replacement True
  by unfold_locales (use apply_step in \<open>auto simp: due_def\<close>)

interpretation rollback_pass: patch_pass rollback_loop live original False
  by unfold_locales (use rollback_step in \<open>auto simp: live_def\<close>)

lemma apply_all_effect:
  assumes inv: "lp_inv s"
  obtains s' where "apply_all s = (s', True)" "lp_inv s'" "length (patches s') = MAX_PATCHES"
    "fptr s' = write_seq (\<lambda>i. due (patches s ! i)) (\<lambda>i. target (patches s ! i)) (\<lambda>i. replacement (patches s ! i))
       [0..<MAX_PATCHES] (fptr s)"
    "\<And>j. patches s' ! j = (if j < MAX_PATCHES \<and> due (patches s ! j) then (patches s ! j)\<lparr>applied := True\<rparr> else patches s ! j)"
proof -
  have len: "length (patches s) = MAX_PATCHES" using inv by (simp add: lp_inv_def)
  have "distinct [0..<MAX_PATCHES]" "\<And>i. i \<in> set [0..<MAX_PATCHES] \<Longrightarrow> i < length (patches s)"
    using len by auto
  from apply_pass.pass_effect [OF inv this] show ?thesis
    using that by (simp add: apply_all_def len) blast
qed

lemma rollback_all_effect:
  assumes inv: "lp_inv s"
  obtains s' where "rollback_all s = (s', True)" "lp_inv s'" "length (patches s') = MAX_PATCHES"
    "fptr s' = write_seq (\<lambda>i. live (patches s ! i)) (\<lambda>i. target (patches s ! i)) (\<lambda>i. original (patches s ! i))
       (rev [0..<MAX_PATCHES]) (fptr s)"
    "\<And>j. patches s' ! j = (if j < MAX_PATCHES \<and> live (patches s ! j) then (patches s ! j)\<lparr>applied := False\<rparr> else patches s ! j)"
proof -
  have len: "length (patches s) = MAX_PATCHES" using inv by (simp add: lp_inv_def)
  have "distinct (rev [0..<MAX_PATCHES])" "\<And>i. i \<in> set (rev [0..<MAX_PATCHES]) \<Longrightarrow> i < length (patches s)"
    using len by auto
  from rollback_pass.pass_effect [OF inv this] show ?thesis
    using that by (simp add: rollback_all_def len) blast
qed

text \<open>
  C7. In a registry where no patch is applied and every registered patch still finds its original
  pointer in place, \<open>apply_all\<close> succeeds and marks every registered patch applied, and
  \<open>rollback_all\<close> then succeeds and restores every function pointer and the whole patch table, also when
  several patches share a target.
\<close>

theorem apply_rollback_all_roundtrip:
  assumes inv: "lp_inv s"
    and fresh: "\<And>p. \<lbrakk>p \<in> set (patches s); registered p\<rbrakk> \<Longrightarrow> \<not> applied p \<and> original p = fptr s (target p)"
  shows "\<exists>s1 s2. apply_all s = (s1, True) \<and> applied_count s1 = patch_count s \<and>
    rollback_all s1 = (s2, True) \<and> fptr s2 = fptr s \<and> patches s2 = patches s"
proof -
  let ?is = "[0..<MAX_PATCHES]"
  have len: "length (patches s) = MAX_PATCHES" using inv by (simp add: lp_inv_def)
  have at: "\<not> applied (patches s ! j)" "registered (patches s ! j) \<Longrightarrow> original (patches s ! j) = fptr s (target (patches s ! j))"
    if "j < MAX_PATCHES" for j
    using fresh [of "patches s ! j"] patch_ok_at [OF inv, of j] that len by (auto simp: patch_ok_def)
  obtain s1 where s1: "apply_all s = (s1, True)" "lp_inv s1" "length (patches s1) = MAX_PATCHES"
    "fptr s1 = write_seq (\<lambda>i. due (patches s ! i)) (\<lambda>i. target (patches s ! i)) (\<lambda>i. replacement (patches s ! i)) ?is (fptr s)"
    "\<And>j. patches s1 ! j = (if j < MAX_PATCHES \<and> due (patches s ! j) then (patches s ! j)\<lparr>applied := True\<rparr> else patches s ! j)"
    using apply_all_effect [OF inv] by blast
  obtain s2 where s2: "rollback_all s1 = (s2, True)" "length (patches s2) = MAX_PATCHES"
    "fptr s2 = write_seq (\<lambda>i. live (patches s1 ! i)) (\<lambda>i. target (patches s1 ! i)) (\<lambda>i. original (patches s1 ! i)) (rev ?is) (fptr s1)"
    "\<And>j. patches s2 ! j = (if j < MAX_PATCHES \<and> live (patches s1 ! j) then (patches s1 ! j)\<lparr>applied := False\<rparr> else patches s1 ! j)"
    using rollback_all_effect [OF s1(2)] by blast
  have live: "live (patches s1 ! j) = registered (patches s ! j)" "target (patches s1 ! j) = target (patches s ! j)"
    "original (patches s1 ! j) = original (patches s ! j)" if "j < MAX_PATCHES" for j
    using at [OF that] that by (auto simp: s1(5) live_def due_def)
  have "fptr s2 a = fptr s a" for a
  proof -
    have "fptr s2 a = (if \<exists>i \<in> set (rev ?is). live (patches s1 ! i) \<and> target (patches s1 ! i) = a then fptr s a else fptr s1 a)"
      unfolding s2(3) using live at by (intro write_seq_same) auto
    moreover have "fptr s1 a = fptr s a" if "\<not> (\<exists>i \<in> set (rev ?is). live (patches s1 ! i) \<and> target (patches s1 ! i) = a)"
      unfolding s1(4) using that live by (intro write_seq_other) (auto simp: due_def)
    ultimately show ?thesis by presburger
  qed
  moreover have "patches s2 = patches s"
    using s2(2) len at live by (intro nth_equalityI) (auto simp: s2(4) s1(5) live_def due_def)
  moreover have "applied_count s1 = patch_count s"
    unfolding applied_count_def patch_count_def count_if_filter length_filter_conv_card s1(3) len
    using live by (intro arg_cong [where f = card]) (auto simp: live_def)
  ultimately show ?thesis using s1(1) s2(1) by blast
qed

definition boot_lp :: livepatch where
  "boot_lp = \<lparr>patches = [], current_error = NoError, initialized = False, fptr = (\<lambda>a. a + 1)\<rparr>"

definition demo_lp :: livepatch where
  "demo_lp = fst (register_patch (Some ''b'') 8 200 (fst (register_patch (Some ''a'') 8 100 (fst (livepatch_init boot_lp)))))"

lemma demo_lp_patches:
  "patches demo_lp =
     \<lparr>patch_name = Some ''a'', target = 8, replacement = 100, original = 9, registered = True, applied = False\<rparr> #
     \<lparr>patch_name = Some ''b'', target = 8, replacement = 200, original = 9, registered = True, applied = False\<rparr> #
     replicate 62 no_patch"
  by code_simp

lemma demo_lp_inv: "lp_inv demo_lp"
  unfolding demo_lp_def by (intro lp_inv_register lp_inv_init)

lemma demo_lp_fptr: "fptr demo_lp = (\<lambda>a. a + 1)"
  by (simp add: demo_lp_def register_patch_def livepatch_init_def boot_lp_def split: option.split)

theorem apply_rollback_all_roundtrip_witness:
  "\<exists>s1 s2. apply_all demo_lp = (s1, True) \<and> applied_count s1 = 2 \<and> rollback_all s1 = (s2, True) \<and>
     fptr s2 = fptr demo_lp \<and> patches s2 = patches demo_lp"
proof -
  have "\<not> applied p \<and> original p = fptr demo_lp (target p)" if "p \<in> set (patches demo_lp)" "registered p" for p
    using that by (auto simp: demo_lp_patches demo_lp_fptr no_patch_def)
  note all = apply_rollback_all_roundtrip [OF demo_lp_inv this]
  have "patch_count demo_lp = 2"
    by (simp add: patch_count_def demo_lp_patches count_if_filter no_patch_def)
  then show ?thesis using all by simp
qed

section \<open>Histories of calls\<close>

datatype lp_call =
    RegisterPatch string u64 u64
  | UnregisterPatch "string option"
  | Apply "string option"
  | Rollback "string option"
  | ApplyAll
  | RollbackAll

fun lp_exec :: "lp_call \<Rightarrow> livepatch \<Rightarrow> livepatch" where
  "lp_exec (RegisterPatch n t r) s = fst (register_patch (Some n) t r s)"
| "lp_exec (UnregisterPatch n) s = fst (unregister_patch n s)"
| "lp_exec (Apply n) s = fst (apply_patch n s)"
| "lp_exec (Rollback n) s = fst (rollback n s)"
| "lp_exec ApplyAll s = fst (apply_all s)"
| "lp_exec RollbackAll s = fst (rollback_all s)"

text \<open>
  Every function pointer holds what the registry says: the replacement of the patch applied to it,
  or else the pointer of before the first patch. \<open>owner\<close> names the patch that may target an address.
\<close>

definition consistent :: "(u64 \<Rightarrow> string) \<Rightarrow> (u64 \<Rightarrow> u64) \<Rightarrow> livepatch \<Rightarrow> bool" where
  "consistent owner m s \<longleftrightarrow> lp_inv s \<and>
     (\<forall>i < length (patches s). registered (patches s ! i) \<longrightarrow>
        patch_name (patches s ! i) = Some (owner (target (patches s ! i))) \<and>
        original (patches s ! i) = m (target (patches s ! i))) \<and>
     (\<forall>i < length (patches s). live (patches s ! i) \<longrightarrow>
        fptr s (target (patches s ! i)) = replacement (patches s ! i)) \<and>
     (\<forall>a. (\<forall>i < length (patches s). live (patches s ! i) \<longrightarrow> target (patches s ! i) \<noteq> a) \<longrightarrow> fptr s a = m a)"

lemma consistent_inv: "consistent owner m s \<Longrightarrow> lp_inv s"
  by (simp add: consistent_def)

lemma consistent_error [simp]: "consistent owner m (set_error e s) = consistent owner m s"
  by (simp add: consistent_def)

lemma consistent_targets:
  assumes "consistent owner m s" and "i < length (patches s)" "j < length (patches s)"
    and "registered (patches s ! i)" "registered (patches s ! j)" and "target (patches s ! i) = target (patches s ! j)"
  shows "i = j"
proof -
  have "patch_name (patches s ! i) = patch_name (patches s ! j)"
    using assms by (simp add: consistent_def)
  then show ?thesis
    using assms unfolding consistent_def lp_inv_def slot_uniq_def by blast
qed

lemma consistent_switch:
  assumes con: "consistent owner m s" and i: "i < length (patches s)" "registered (patches s ! i)"
  shows "consistent owner m (switch replacement True i s)" and "consistent owner m (switch original False i s)"
proof -
  note inv = lp_inv_switch [OF consistent_inv [OF con] i]
  have tg: "target (patches s ! j) \<noteq> target (patches s ! i)" if "j < length (patches s)" "live (patches s ! j)" "j \<noteq> i" for j
    using consistent_targets [OF con that(1) i(1)] that i by (auto simp: live_def)
  have reg: "\<And>j. \<lbrakk>j < length (patches s); registered (patches s ! j)\<rbrakk> \<Longrightarrow>
      patch_name (patches s ! j) = Some (owner (target (patches s ! j))) \<and> original (patches s ! j) = m (target (patches s ! j))"
    and on: "\<And>j. \<lbrakk>j < length (patches s); live (patches s ! j)\<rbrakk> \<Longrightarrow> fptr s (target (patches s ! j)) = replacement (patches s ! j)"
    and off: "\<And>a. (\<And>j. \<lbrakk>j < length (patches s); live (patches s ! j)\<rbrakk> \<Longrightarrow> target (patches s ! j) \<noteq> a) \<Longrightarrow> fptr s a = m a"
    using con by (auto simp: consistent_def)
  let ?t = "switch replacement True i s" and ?u = "switch original False i s"
  have "fptr ?t a = m a" if a: "\<And>j. \<lbrakk>j < length (patches s); live (patches ?t ! j)\<rbrakk> \<Longrightarrow> target (patches ?t ! j) \<noteq> a" for a
  proof -
    have "target (patches s ! i) \<noteq> a" using a [of i] i by (simp add: live_def)
    moreover have "fptr s a = m a"
    proof (rule off)
      show "target (patches s ! j) \<noteq> a" if "j < length (patches s)" "live (patches s ! j)" for j
        using a [of j] that i by (cases "j = i") (auto simp: live_def)
    qed
    ultimately show ?thesis by simp
  qed
  then show "consistent owner m ?t"
    unfolding consistent_def using inv reg on tg i by (auto simp: nth_update_if live_def split: if_splits)
  have "fptr ?u a = m a" if a: "\<And>j. \<lbrakk>j < length (patches s); live (patches ?u ! j)\<rbrakk> \<Longrightarrow> target (patches ?u ! j) \<noteq> a" for a
  proof (cases "a = target (patches s ! i)")
    case True
    then show ?thesis using reg [OF i] by simp
  next
    case False
    have "fptr s a = m a"
    proof (rule off)
      show "target (patches s ! j) \<noteq> a" if "j < length (patches s)" "live (patches s ! j)" for j
        using a [of j] that False by (cases "j = i") auto
    qed
    then show ?thesis using False by simp
  qed
  then show "consistent owner m ?u"
    unfolding consistent_def using inv reg on tg i by (auto simp: nth_update_if live_def split: if_splits)
qed

lemma consistent_register:
  assumes con: "consistent owner m s" and n: "n = owner t"
  shows "consistent owner m (fst (register_patch (Some n) t r s))"
  using consistent_inv [OF con]
proof (cases rule: register_patch_cases [of s "Some n" t r])
  case fail
  then show ?thesis using con by simp
next
  case (made i)
  have other: "target (patches s ! j) \<noteq> t" if "j < length (patches s)" "registered (patches s ! j)" for j
    using made(4) con n that by (auto simp: consistent_def find_mutable_eq find_idx_None_iff)
  then have "fptr s t = m t"
    using con by (auto simp: consistent_def live_def)
  moreover have "lp_inv (fst (register_patch (Some n) t r s))"
    by (rule lp_inv_register [OF consistent_inv [OF con]])
  moreover have "live (patches s ! i) = live (new_patch (Some n) t r s)"
    using made by (simp add: live_def new_patch_def)
  ultimately show ?thesis
    using con made(5-) n unfolding consistent_def made(7)
    by (auto simp: nth_update_if new_patch_def live_def split: if_splits)
qed

lemma consistent_unregister:
  assumes con: "consistent owner m s"
  shows "consistent owner m (fst (unregister_patch n s))"
proof (cases "find_mutable s n = None \<or> applied (patches s ! the (find_mutable s n))")
  case True
  then show ?thesis using con by (auto simp: unregister_patch_eq split: option.split)
next
  case False
  then obtain i where i: "find_mutable s n = Some i" "\<not> applied (patches s ! i)" by auto
  have eq: "fst (unregister_patch n s) = set_error NoError (s\<lparr>patches := (patches s)[i := no_patch]\<rparr>)"
    using i by (simp add: unregister_patch_eq)
  have "lp_inv (fst (unregister_patch n s))" by (rule lp_inv_single(1) [OF consistent_inv [OF con]])
  moreover have "live ((patches s)[i := no_patch] ! j) = live (patches s ! j)"
      "live (patches s ! j) \<Longrightarrow> (patches s)[i := no_patch] ! j = patches s ! j" for j
    using i find_mutableD(1) [OF i(1)] by (auto simp: nth_update_if live_def no_patch_def)
  ultimately show ?thesis
    using con unfolding consistent_def eq by (auto simp: nth_update_if no_patch_def split: if_splits)
qed

lemma consistent_single:
  assumes "consistent owner m s"
  shows "consistent owner m (fst (apply_patch n s))" and "consistent owner m (fst (rollback n s))"
  using assms consistent_switch [OF assms] find_mutableD(1,2) [of s n]
  by (auto simp: apply_patch_eq rollback_eq consistent_inv switch_def split: option.splits)

lemma consistent_all:
  assumes "consistent owner m s"
  shows "consistent owner m (fst (apply_all s))" and "consistent owner m (fst (rollback_all s))"
proof -
  have len: "length (patches s) = MAX_PATCHES" using assms by (simp add: consistent_def lp_inv_def)
  show "consistent owner m (fst (apply_all s))" unfolding apply_all_def
    by (rule apply_pass.pass_keeps [where R = "consistent owner m", OF assms])
      (auto simp: len due_def intro: consistent_inv consistent_switch)
  show "consistent owner m (fst (rollback_all s))" unfolding rollback_all_def
    by (rule rollback_pass.pass_keeps [where R = "consistent owner m", OF assms])
      (auto simp: len live_def intro: consistent_inv consistent_switch)
qed

lemma consistent_exec:
  assumes "consistent owner m s" and "\<And>n t r. c = RegisterPatch n t r \<Longrightarrow> n = owner t"
  shows "consistent owner m (lp_exec c s)"
  using assms consistent_register [OF assms(1)] consistent_unregister [OF assms(1)]
    consistent_single [OF assms(1)] consistent_all [OF assms(1)]
  by (cases c) auto

lemma consistent_fold:
  assumes "consistent owner m s" and "\<And>n t r. RegisterPatch n t r \<in> set cs \<Longrightarrow> n = owner t"
  shows "consistent owner m (fold lp_exec cs s)"
  using assms
proof (induction cs arbitrary: s)
  case (Cons c cs)
  have "consistent owner m (lp_exec c s)"
    by (rule consistent_exec [OF Cons.prems(1)]) (use Cons.prems(2) in auto)
  from Cons.IH [OF this] show ?case using Cons.prems(2) by auto
qed simp

lemma consistent_boot: "consistent owner (fptr s) (fst (livepatch_init s))"
  using lp_inv_init [of s]
  by (auto simp: consistent_def livepatch_init_def no_patch_def live_def)

lemma rollback_all_restores:
  assumes con: "consistent owner m s"
  shows "\<exists>s'. rollback_all s = (s', True) \<and> fptr s' = m"
proof -
  obtain s' where s': "rollback_all s = (s', True)" "length (patches s') = MAX_PATCHES"
    "\<And>j. patches s' ! j = (if j < MAX_PATCHES \<and> live (patches s ! j) then (patches s ! j)\<lparr>applied := False\<rparr> else patches s ! j)"
    using rollback_all_effect [OF consistent_inv [OF con]] by blast
  have "\<not> live (patches s' ! j)" if "j < length (patches s')" for j
    using that s'(2) by (simp add: s'(3) live_def)
  moreover have "consistent owner m s'" using consistent_all(2) [OF con] s'(1) by simp
  ultimately have "fptr s' a = m a" for a by (simp add: consistent_def)
  then show ?thesis using s'(1) by (auto simp: fun_eq_iff)
qed

text \<open>
  C8. When every function pointer is only ever patched under one name, then after any sequence of
  calls each pointer holds the replacement of the patch applied to it and the boot-time pointer
  otherwise, and \<open>rollback_all\<close> succeeds and restores all boot-time pointers.
\<close>

theorem livepatch_history:
  assumes "\<And>n t r. RegisterPatch n t r \<in> set cs \<Longrightarrow> n = owner t"
  shows "consistent owner (fptr s) (fold lp_exec cs (fst (livepatch_init s))) \<and>
    (\<exists>s'. rollback_all (fold lp_exec cs (fst (livepatch_init s))) = (s', True) \<and> fptr s' = fptr s)"
proof -
  have "consistent owner (fptr s) (fold lp_exec cs (fst (livepatch_init s)))"
    by (rule consistent_fold [OF consistent_boot]) (rule assms)
  then show ?thesis using rollback_all_restores by blast
qed

definition demo_history :: "lp_call list" where
  "demo_history = [RegisterPatch ''a'' 8 100, RegisterPatch ''b'' 16 200, ApplyAll, Rollback (Some ''a''),
     UnregisterPatch (Some ''a''), RegisterPatch ''a'' 8 300, Apply (Some ''a'')]"

theorem livepatch_history_witness:
  "\<exists>s'. rollback_all (fold lp_exec demo_history (fst (livepatch_init boot_lp))) = (s', True) \<and> fptr s' = fptr boot_lp"
proof -
  have "n = (if t = 8 then ''a'' else ''b'')" if "RegisterPatch n t r \<in> set demo_history" for n t r
    using that by (auto simp: demo_history_def)
  then show ?thesis using livepatch_history [of demo_history "\<lambda>t. if t = 8 then ''a'' else ''b''" boot_lp] by blast
qed

text \<open>
  \<open>rollback_all\<close> goes by slot and not by the order of application: when a slot freed by
  \<open>unregister_patch\<close> is taken by a second patch on a target that is patched already, the rollback of all
  patches succeeds, marks none applied and leaves the target at the other patch's replacement.
\<close>

lemma rollback_all_slot_order:
  "let cs = [RegisterPatch ''p'' 16 300, RegisterPatch ''a'' 8 100, Apply (Some ''a''), UnregisterPatch (Some ''p''),
             RegisterPatch ''b'' 8 200, Apply (Some ''b'')];
       (s, ok) = rollback_all (fold lp_exec cs (fst (livepatch_init boot_lp)))
   in ok \<and> applied_count s = 0 \<and> fptr s 8 = 100 \<and> fptr boot_lp 8 = 9"
  by code_simp

end
