(* ===== verification/Ring.thy ===== *)
theory Ring
  imports Prelude
begin

text \<open>
  Ring buffers with free-running 32-bit counters: slot \<open>counter mod depth\<close> of an array of \<open>depth\<close>
  elements, \<open>tail - head\<close> elements in use. The contract \<open>fifo\<close> is what the users of such a ring
  rely on; the rings provide it for every depth that divides the range of the counters.
\<close>

section \<open>The contract of a bounded queue\<close>

locale fifo =
  fixes inv :: "'q \<Rightarrow> bool" and items :: "'q \<Rightarrow> 'a list" and cap :: nat
    and put :: "'a \<Rightarrow> 'q \<Rightarrow> 'q" and front :: "'q \<Rightarrow> 'a" and get :: "'q \<Rightarrow> 'q"
  assumes put_inv: "\<lbrakk>inv q; length (items q) < cap\<rbrakk> \<Longrightarrow> inv (put x q)"
    and put_items: "\<lbrakk>inv q; length (items q) < cap\<rbrakk> \<Longrightarrow> items (put x q) = items q @ [x]"
    and get_inv: "\<lbrakk>inv q; items q \<noteq> []\<rbrakk> \<Longrightarrow> inv (get q)"
    and get_items: "\<lbrakk>inv q; items q \<noteq> []\<rbrakk> \<Longrightarrow> items q = front q # items (get q)"
begin

lemma put_all:
  assumes "inv q" and "length (items q) + length xs \<le> cap"
  shows "inv (fold put xs q) \<and> items (fold put xs q) = items q @ xs"
  using assms
proof (induction xs arbitrary: q)
  case (Cons x xs)
  then show ?case using put_inv [of q x] put_items [of q x] by simp
qed simp

lemma items_Nil_iff: "\<lbrakk>inv q; items q = x # xs\<rbrakk> \<Longrightarrow> front q = x \<and> items (get q) = xs \<and> inv (get q)"
  using get_items [of q] get_inv [of q] by simp

end

section \<open>Rings over 32-bit counters\<close>

type_synonym 'a ring_state = "'a list \<times> u32 \<times> u32"

definition ring_items :: "u32 \<Rightarrow> 'a ring_state \<Rightarrow> 'a list" where
  "ring_items d = (\<lambda>(buf, h, t). map (\<lambda>k. buf ! unat ((h + of_nat k) mod d)) [0..<unat (t - h)])"

definition ring_inv :: "u32 \<Rightarrow> 'a ring_state \<Rightarrow> bool" where
  "ring_inv d = (\<lambda>(buf, h, t). 0 < d \<and> unat d dvd 2 ^ 32 \<and> length buf = unat d \<and> t - h \<le> d)"

definition ring_put :: "u32 \<Rightarrow> 'a \<Rightarrow> 'a ring_state \<Rightarrow> 'a ring_state" where
  "ring_put d x = (\<lambda>(buf, h, t). (buf[unat (t mod d) := x], h, t + 1))"

definition ring_front :: "u32 \<Rightarrow> 'a ring_state \<Rightarrow> 'a" where
  "ring_front d = (\<lambda>(buf, h, t). buf ! unat (h mod d))"

definition ring_get :: "u32 \<Rightarrow> 'a ring_state \<Rightarrow> 'a ring_state" where
  "ring_get d = (\<lambda>(buf, h, t). (buf, h + 1, t))"

lemma ring_length: "length (ring_items d (buf, h, t)) = unat (t - h)"
  by (simp add: ring_items_def)

lemma ring_index:
  assumes "unat d dvd 2 ^ 32"
  shows "unat ((h + of_nat k :: u32) mod d) = (unat h + k) mod unat d"
proof -
  have "unat (h + of_nat k) = (unat h + k) mod 2 ^ 32"
    by (simp add: unat_word_ariths(1) unat_of_nat take_bit_eq_mod mod_add_right_eq)
  then show ?thesis using assms by (simp add: unat_mod mod_mod_cancel)
qed

lemma ring_index_inj:
  assumes "unat d dvd 2 ^ 32" and "j < unat d" and "k < unat d"
    and "unat ((h + of_nat j :: u32) mod d) = unat ((h + of_nat k) mod d)"
  shows "j = k"
proof -
  have eq: "(unat h + j) mod unat d = (unat h + k) mod unat d" using assms by (simp add: ring_index)
  show ?thesis
  proof (rule ccontr)
    assume "j \<noteq> k"
    then consider "j < k" | "k < j" by linarith
    then show False
    proof cases
      case 1
      then have "unat d dvd k - j" using eq mod_eq_dvd_iff_nat [of "unat h + j" "unat h + k" "unat d"] by simp
      then show False using 1 assms(3) by (auto dest: dvd_imp_le)
    next
      case 2
      then have "unat d dvd j - k" using eq mod_eq_dvd_iff_nat [of "unat h + k" "unat h + j" "unat d"] by simp
      then show False using 2 assms(2) by (auto dest: dvd_imp_le)
    qed
  qed
qed

lemma counter_succ:
  assumes "t - h < (d :: u32)"
  shows "unat (t + 1 - h) = Suc (unat (t - h))" and "t + 1 - h \<le> d"
proof -
  have "t - h + 1 \<noteq> 0"
  proof
    assume "t - h + 1 = 0"
    then have "t - h = - 1" by (simp add: eq_neg_iff_add_eq_0)
    then show False using assms by (simp add: leD [OF word_order.extremum])
  qed
  then have "unat (t - h + 1) = Suc (unat (t - h))" by (simp add: unatSuc add.commute)
  then show "unat (t + 1 - h) = Suc (unat (t - h))" by (simp add: algebra_simps)
  then show "t + 1 - h \<le> d" using assms by (simp add: word_le_nat_alt word_less_nat_alt)
qed

lemma ring_put_items:
  assumes inv: "ring_inv d q" and room: "length (ring_items d q) < unat d"
  shows "ring_inv d (ring_put d x q)" and "ring_items d (ring_put d x q) = ring_items d q @ [x]"
proof -
  obtain buf h t where q: "q = (buf, h, t)" by (cases q)
  have lt: "t - h < d" using room by (simp add: q ring_length word_less_nat_alt)
  note succ = counter_succ [OF lt]
  have d: "0 < unat d" "unat d dvd 2 ^ 32" "length buf = unat d"
    using inv by (auto simp: ring_inv_def q word_less_nat_alt)
  show "ring_inv d (ring_put d x q)"
    using inv succ(2) by (simp add: ring_inv_def ring_put_def q)
  have last: "t = h + of_nat (unat (t - h))" by simp
  have other: "unat (t mod d) \<noteq> unat ((h + of_nat k) mod d)" if "k < unat (t - h)" for k
    using ring_index_inj [OF d(2), of k "unat (t - h)" h] that lt last by (auto simp: word_less_nat_alt)
  have idx: "unat (t mod d) < length buf" using d by (simp add: unat_mod)
  show "ring_items d (ring_put d x q) = ring_items d q @ [x]"
    using other idx by (auto simp: ring_items_def ring_put_def q succ(1))
qed

lemma ring_get_items:
  assumes inv: "ring_inv d q" and ne: "ring_items d q \<noteq> []"
  shows "ring_inv d (ring_get d q)" and "ring_items d q = ring_front d q # ring_items d (ring_get d q)"
proof -
  obtain buf h t where q: "q = (buf, h, t)" by (cases q)
  have pos: "t - h \<noteq> 0" using ne by (auto simp: ring_items_def q)
  then have dec: "unat (t - h) = Suc (unat (t - (h + 1)))"
    using unat_minus_one [OF pos] by (simp add: algebra_simps unat_gt_0 Suc_pred)
  then show "ring_inv d (ring_get d q)"
    using inv by (auto simp: ring_inv_def ring_get_def q word_le_nat_alt)
  have cons: "map f [0..<Suc n] = f 0 # map (\<lambda>k. f (Suc k)) [0..<n]" for f :: "nat \<Rightarrow> 'a" and n
    by (simp add: upt_conv_Cons map_Suc_upt [symmetric] del: upt_Suc)
  show "ring_items d q = ring_front d q # ring_items d (ring_get d q)"
    unfolding ring_items_def ring_front_def ring_get_def q prod.case dec cons by (simp add: ac_simps)
qed

interpretation u32_ring: fifo "ring_inv d" "ring_items d" "unat d" "ring_put d" "ring_front d" "ring_get d" for d
  by unfold_locales (erule (1) ring_put_items ring_get_items)+

end
