(* ===== verification/IoUring.thy ===== *)
theory IoUring
  imports Ring "HOL-Library.Sublist"
begin

text \<open>
  The submission and completion rings of \<^verbatim>\<open>kernel/io_uring.cpp\<close>. A pointer that may be null is an
  option; the cells behind \<open>m_sq_head\<close> and its kin are the option's value. The kernel's \<open>operator new\<close>
  is the parameter \<open>new_ok\<close> (which of the constructor's allocations succeed) together with \<open>raw\<close>, the
  bytes found in fresh memory. An operation of this theory is one call that no other call overlaps in
  time: \<open>submit\<close> and \<open>get_completion\<close> take the spin lock but \<open>poll\<close> takes none, and theory
  \<open>IoUring_Concurrent\<close> has the same operations cut into their memory accesses.
\<close>

section \<open>Data\<close>

type_synonym s32 = "32 word"

record sqe =
  opcode :: u8
  fd :: s32
  addr :: u64
  len :: u32
  user_data :: u64

record cqe =
  cq_user_data :: u64
  res :: s32

definition zero_sqe :: sqe where
  "zero_sqe = \<lparr>opcode = 0, fd = 0, addr = 0, len = 0, user_data = 0\<rparr>"

definition zero_cqe :: cqe where
  "zero_cqe = \<lparr>cq_user_data = 0, res = 0\<rparr>"

record io_uring =
  m_lock :: bool
  m_sqes :: "sqe list option"
  m_cqes :: "cqe list option"
  m_queue_depth :: u32
  m_sq_head :: "u32 option"
  m_sq_tail :: "u32 option"
  m_cq_head :: "u32 option"
  m_cq_tail :: "u32 option"
  m_running :: bool

text \<open>The contents of fresh memory.\<close>

record raw_mem =
  raw_sqe :: sqe
  raw_cqe :: cqe
  raw_cell :: "nat \<Rightarrow> u32"

section \<open>Operations\<close>

definition alloc_if :: "bool \<Rightarrow> 'a \<Rightarrow> 'a option" where
  "alloc_if ok x = (if ok then Some x else None)"

text \<open>
  The constructor. Its allocations are numbered in program order, the lock being number 0; the lock's
  is not checked, so the constructor has no defined result when it fails.
\<close>

definition io_uring_new :: "(nat \<Rightarrow> bool) \<Rightarrow> raw_mem \<Rightarrow> u32 \<Rightarrow> io_uring option" where
  "io_uring_new new_ok raw depth =
     (let u = \<lparr>m_lock = False, m_sqes = None, m_cqes = None, m_queue_depth = depth, m_sq_head = None,
               m_sq_tail = None, m_cq_head = None, m_cq_tail = None, m_running = False\<rparr>
      in if depth = 0 then Some u
         else if \<not> new_ok 0 then None
         else
           let u = u\<lparr>m_lock := True,
                     m_sqes := alloc_if (new_ok 1) (replicate (unat depth) (raw_sqe raw)),
                     m_cqes := alloc_if (new_ok 2) (replicate (unat depth) (raw_cqe raw)),
                     m_sq_head := alloc_if (new_ok 3) (raw_cell raw 3),
                     m_sq_tail := alloc_if (new_ok 4) (raw_cell raw 4),
                     m_cq_head := alloc_if (new_ok 5) (raw_cell raw 5),
                     m_cq_tail := alloc_if (new_ok 6) (raw_cell raw 6)\<rparr>
           in if m_sqes u = None \<or> m_cqes u = None \<or> m_sq_head u = None \<or> m_sq_tail u = None \<or>
                 m_cq_head u = None \<or> m_cq_tail u = None
              then Some (u\<lparr>m_running := False\<rparr>)
              else Some (u\<lparr>m_sq_head := Some 0, m_sq_tail := Some 0, m_cq_head := Some 0, m_cq_tail := Some 0,
                          m_sqes := Some (replicate (unat depth) zero_sqe),
                          m_cqes := Some (replicate (unat depth) zero_cqe)\<rparr>))"

definition io_uring_delete :: "io_uring \<Rightarrow> io_uring" where
  "io_uring_delete u = u\<lparr>m_running := False, m_sqes := None, m_cqes := None, m_sq_head := None,
     m_sq_tail := None, m_cq_head := None, m_cq_tail := None, m_lock := False\<rparr>"

definition next_index :: "u32 \<Rightarrow> u32 \<Rightarrow> u32" where
  "next_index depth index = (if depth = 0 then 0 else index mod depth)"

definition process_sqe :: "sqe \<Rightarrow> s32" where
  "process_sqe e =
     (if opcode e = 0 then 0 else if opcode e = 1 then 0 else if opcode e = 2 then 0 else -1)"

definition start :: "io_uring \<Rightarrow> io_uring" where
  "start u =
     (if m_queue_depth u = 0 then u
      else if m_sqes u = None \<or> m_cqes u = None then u
      else u\<lparr>m_running := True\<rparr>)"

definition stop :: "io_uring \<Rightarrow> io_uring" where
  "stop u = u\<lparr>m_running := False\<rparr>"

definition running :: "io_uring \<Rightarrow> bool" where
  "running u = m_running u"

definition submit :: "sqe \<Rightarrow> io_uring \<Rightarrow> io_uring \<times> bool" where
  "submit e u =
     (if \<not> m_running u then (u, False)
      else case (m_sqes u, m_sq_head u, m_sq_tail u) of
        (Some sqes, Some head, Some tail) \<Rightarrow>
          if m_queue_depth u \<le> tail - head then (u, False)
          else
            let index = next_index (m_queue_depth u) tail
            in (u\<lparr>m_sqes := Some (sqes[unat index := e]), m_sq_tail := Some (tail + 1)\<rparr>, True)
      | _ \<Rightarrow> (u, False))"

text \<open>The loop of \<open>poll\<close>; the result is the completion array and the two counters it advances.\<close>

function poll_loop ::
  "u32 \<Rightarrow> sqe list \<Rightarrow> cqe list \<Rightarrow> u32 \<Rightarrow> u32 \<Rightarrow> u32 \<Rightarrow> u32 \<Rightarrow> cqe list \<times> u32 \<times> u32" where
  "poll_loop depth sqes cqes sq_head sq_tail cq_head cq_tail =
     (if sq_head = sq_tail then (cqes, sq_head, cq_tail)
      else
        let e = sqes ! unat (next_index depth sq_head);
            sq_head' = sq_head + 1;
            result = process_sqe e
        in if depth \<le> cq_tail - cq_head then (cqes, sq_head', cq_tail)
           else poll_loop depth sqes
                  (cqes[unat (next_index depth cq_tail) := \<lparr>cq_user_data = user_data e, res = result\<rparr>])
                  sq_head' sq_tail cq_head (cq_tail + 1))"
  by pat_completeness auto
termination
proof (relation "measure (\<lambda>(depth, sqes, cqes, sh, st, ch, ct). unat (st - sh))", goal_cases)
  case (2 depth sqes cqes sh st ch ct e sh' result)
  then have "st - sh \<noteq> 0" by simp
  then have "unat (st - sh - 1) < unat (st - sh)"
    using unat_minus_one [of "st - sh"] unat_gt_0 [of "st - sh"] by simp
  then show ?case using 2 by (simp add: algebra_simps)
qed simp

definition poll :: "io_uring \<Rightarrow> io_uring" where
  "poll u =
     (if \<not> m_running u then u
      else case (m_sqes u, m_cqes u, m_sq_head u, m_sq_tail u, m_cq_head u, m_cq_tail u) of
        (Some sqes, Some cqes, Some sh, Some st, Some ch, Some ct) \<Rightarrow>
          let (cqes', sh', ct') = poll_loop (m_queue_depth u) sqes cqes sh st ch ct
          in u\<lparr>m_cqes := Some cqes', m_sq_head := Some sh', m_cq_tail := Some ct'\<rparr>
      | _ \<Rightarrow> u)"

text \<open>\<open>get_completion\<close> fills its two reference parameters on success.\<close>

definition get_completion :: "io_uring \<Rightarrow> io_uring \<times> (u64 \<times> s32) option" where
  "get_completion u =
     (case (m_cqes u, m_cq_head u, m_cq_tail u) of
        (Some cqes, Some head, Some tail) \<Rightarrow>
          if head = tail then (u, None)
          else
            let c = cqes ! unat (next_index (m_queue_depth u) head)
            in (u\<lparr>m_cq_head := Some (head + 1)\<rparr>, Some (cq_user_data c, res c))
      | _ \<Rightarrow> (u, None))"

definition pending :: "io_uring \<Rightarrow> u32" where
  "pending u = (case (m_sq_head u, m_sq_tail u) of (Some h, Some t) \<Rightarrow> t - h | _ \<Rightarrow> 0)"

definition completions :: "io_uring \<Rightarrow> u32" where
  "completions u = (case (m_cq_head u, m_cq_tail u) of (Some h, Some t) \<Rightarrow> t - h | _ \<Rightarrow> 0)"

definition uring_depth :: "io_uring \<Rightarrow> u32" where
  "uring_depth u = m_queue_depth u"

section \<open>The abstract pair of queues\<close>

record uring_spec =
  subs :: "sqe list"
  comps :: "cqe list"
  on :: bool

definition complete :: "sqe \<Rightarrow> cqe" where
  "complete e = \<lparr>cq_user_data = user_data e, res = process_sqe e\<rparr>"

definition spec_submit :: "nat \<Rightarrow> sqe \<Rightarrow> uring_spec \<Rightarrow> uring_spec \<times> bool" where
  "spec_submit n e a = (if on a \<and> length (subs a) < n then (a\<lparr>subs := subs a @ [e]\<rparr>, True) else (a, False))"

text \<open>
  Polling moves the submissions to the completion queue. When there are more submissions than free
  completion slots, the first one that finds no slot is dropped and polling stops.
\<close>

definition spec_poll :: "nat \<Rightarrow> uring_spec \<Rightarrow> uring_spec" where
  "spec_poll n a =
     (if on a then
        let free = n - length (comps a)
        in a\<lparr>subs := drop (Suc free) (subs a), comps := comps a @ map complete (take free (subs a))\<rparr>
      else a)"

definition spec_get :: "uring_spec \<Rightarrow> uring_spec \<times> (u64 \<times> s32) option" where
  "spec_get a = (case comps a of [] \<Rightarrow> (a, None)
     | c # cs \<Rightarrow> (a\<lparr>comps := cs\<rparr>, Some (cq_user_data c, res c)))"

definition sq :: "io_uring \<Rightarrow> sqe ring_state" where
  "sq u = (the (m_sqes u), the (m_sq_head u), the (m_sq_tail u))"

definition cq :: "io_uring \<Rightarrow> cqe ring_state" where
  "cq u = (the (m_cqes u), the (m_cq_head u), the (m_cq_tail u))"

definition uring_abs :: "io_uring \<Rightarrow> uring_spec" where
  "uring_abs u = \<lparr>subs = ring_items (m_queue_depth u) (sq u), comps = ring_items (m_queue_depth u) (cq u), on = m_running u\<rparr>"

definition uring_inv :: "io_uring \<Rightarrow> bool" where
  "uring_inv u \<longleftrightarrow> m_sqes u \<noteq> None \<and> m_cqes u \<noteq> None \<and> m_sq_head u \<noteq> None \<and> m_sq_tail u \<noteq> None \<and>
     m_cq_head u \<noteq> None \<and> m_cq_tail u \<noteq> None \<and> m_lock u \<and>
     ring_inv (m_queue_depth u) (sq u) \<and> ring_inv (m_queue_depth u) (cq u)"

lemma uring_invE:
  assumes "uring_inv u"
  obtains sqes cqes sh st ch ct where
    "m_sqes u = Some sqes" "m_cqes u = Some cqes" "m_sq_head u = Some sh" "m_sq_tail u = Some st"
    "m_cq_head u = Some ch" "m_cq_tail u = Some ct" "m_queue_depth u \<noteq> 0"
    "ring_inv (m_queue_depth u) (sqes, sh, st)" "ring_inv (m_queue_depth u) (cqes, ch, ct)"
    "sq u = (sqes, sh, st)" "cq u = (cqes, ch, ct)"
  using assms by (auto simp: uring_inv_def sq_def cq_def ring_inv_def)

lemma ring_room: "unat (t - h) < unat d \<longleftrightarrow> \<not> d \<le> t - (h :: u32)"
  by (auto simp: word_le_nat_alt)

lemma submit_refines:
  assumes inv: "uring_inv u"
  shows "uring_inv (fst (submit e u))"
    and "spec_submit (unat (m_queue_depth u)) e (uring_abs u) = (uring_abs (fst (submit e u)), snd (submit e u))"
proof -
  obtain sqes cqes sh st ch ct where u: "m_sqes u = Some sqes" "m_cqes u = Some cqes" "m_sq_head u = Some sh"
    "m_sq_tail u = Some st" "m_cq_head u = Some ch" "m_cq_tail u = Some ct" "m_queue_depth u \<noteq> 0"
    and ring: "ring_inv (m_queue_depth u) (sqes, sh, st)" "ring_inv (m_queue_depth u) (cqes, ch, ct)"
    and sq: "sq u = (sqes, sh, st)" and cq: "cq u = (cqes, ch, ct)"
    using uring_invE [OF inv] by metis
  let ?d = "m_queue_depth u"
  have "uring_inv (fst (submit e u)) \<and>
    spec_submit (unat ?d) e (uring_abs u) = (uring_abs (fst (submit e u)), snd (submit e u))"
  proof (cases "m_running u \<and> \<not> ?d \<le> st - sh")
    case True
    let ?u = "u\<lparr>m_sqes := Some (sqes[unat (st mod ?d) := e]), m_sq_tail := Some (st + 1)\<rparr>"
    have eq: "submit e u = (?u, True)"
      using True u by (simp add: submit_def Let_def next_index_def)
    have put: "sq ?u = ring_put ?d e (sq u)" "cq ?u = cq u"
      using u by (simp_all add: sq_def cq_def ring_put_def)
    have room: "length (ring_items ?d (sq u)) < unat ?d"
      using True by (simp add: sq ring_length ring_room)
    have "ring_inv ?d (sq u)" using ring sq by simp
    note step = u32_ring.put_inv [OF this room, of e] u32_ring.put_items [OF this room, of e]
    have "uring_inv ?u" using inv step(1) put u by (simp add: uring_inv_def)
    moreover have "uring_abs ?u = (uring_abs u)\<lparr>subs := subs (uring_abs u) @ [e]\<rparr>"
      using step(2) put by (simp add: uring_abs_def)
    ultimately show ?thesis
      using True room by (simp add: eq spec_submit_def) (simp add: uring_abs_def)
  next
    case False
    then have "submit e u = (u, False)" using u by (auto simp: submit_def)
    moreover have "\<not> (on (uring_abs u) \<and> length (subs (uring_abs u)) < unat ?d)"
      using False by (simp add: uring_abs_def sq ring_length ring_room)
    ultimately show ?thesis using inv by (simp add: spec_submit_def)
  qed
  then show "uring_inv (fst (submit e u))"
    "spec_submit (unat ?d) e (uring_abs u) = (uring_abs (fst (submit e u)), snd (submit e u))" by simp_all
qed

declare poll_loop.simps [simp del]

lemma ring_items_empty: "ring_items d (buf, h, t) = [] \<longleftrightarrow> h = t"
  by (auto simp: ring_items_def unat_eq_0)

lemma poll_loop_refines:
  assumes "ring_inv d (sqes, sh, st)" and "ring_inv d (cqes, ch, ct)"
    and "poll_loop d sqes cqes sh st ch ct = (cqes', sh', ct')"
  defines "free \<equiv> unat d - length (ring_items d (cqes, ch, ct))"
  shows "ring_inv d (sqes, sh', st) \<and> ring_inv d (cqes', ch, ct') \<and>
    ring_items d (sqes, sh', st) = drop (Suc free) (ring_items d (sqes, sh, st)) \<and>
    ring_items d (cqes', ch, ct') = ring_items d (cqes, ch, ct) @ map complete (take free (ring_items d (sqes, sh, st)))"
  using assms(1-3) unfolding free_def
proof (induction d sqes cqes sh st ch ct rule: poll_loop.induct)
  case (1 d sqes cqes sh st ch ct)
  let ?S = "ring_items d (sqes, sh, st)" and ?C = "ring_items d (cqes, ch, ct)"
  have d: "d \<noteq> 0" using "1.prems"(1) by (auto simp: ring_inv_def)
  show ?case
  proof (cases "sh = st")
    case True
    have "poll_loop d sqes cqes sh st ch ct = (cqes, sh, ct)"
      by (subst poll_loop.simps) (simp add: True)
    then show ?thesis
      using True "1.prems" ring_items_empty [of d sqes sh st] by simp
  next
    case False
    let ?e = "ring_front d (sqes, sh, st)"
    have front: "?e = sqes ! unat (sh mod d)" by (simp add: ring_front_def)
    have ne: "?S \<noteq> []" using False by (simp add: ring_items_empty)
    note get = u32_ring.get_inv [OF "1.prems"(1) ne] u32_ring.get_items [OF "1.prems"(1) ne]
    have S: "ring_inv d (sqes, sh + 1, st)" "?S = ?e # ring_items d (sqes, sh + 1, st)"
      using get by (simp_all add: ring_get_def)
    show ?thesis
    proof (cases "d \<le> ct - ch")
      case True
      then have "unat d - length ?C = 0" by (simp add: ring_length word_le_nat_alt)
      then show ?thesis
        using True False "1.prems" S by (simp add: poll_loop.simps [of d sqes cqes sh st] Let_def)
    next
      case room: False
      let ?cq = "(cqes[unat (ct mod d) := complete ?e], ch, ct + 1)"
      have lt: "length ?C < unat d" using room by (simp add: ring_length ring_room)
      have put: "ring_inv d ?cq" "ring_items d ?cq = ?C @ [complete ?e]"
        using u32_ring.put_inv [OF "1.prems"(2) lt] u32_ring.put_items [OF "1.prems"(2) lt] by (simp_all add: ring_put_def)
      have rec: "poll_loop d sqes (cqes[unat (ct mod d) := complete ?e]) (sh + 1) st ch (ct + 1) = (cqes', sh', ct')"
        using room False "1.prems"(3) d
        by (simp add: poll_loop.simps [of d sqes cqes sh st] Let_def next_index_def complete_def front)
      have dec: "unat d - length ?C = Suc (unat d - length (ring_items d ?cq))" using lt put(2) by simp
      have "ring_inv d (sqes, sh', st) \<and> ring_inv d (cqes', ch, ct') \<and>
        ring_items d (sqes, sh', st) = drop (Suc (unat d - length (ring_items d ?cq))) (ring_items d (sqes, sh + 1, st)) \<and>
        ring_items d (cqes', ch, ct') =
          ring_items d ?cq @ map complete (take (unat d - length (ring_items d ?cq)) (ring_items d (sqes, sh + 1, st)))"
        using "1.IH" [OF False refl refl refl room] S(1) put(1) rec d
        by (simp add: next_index_def complete_def front)
      then show ?thesis unfolding dec S(2) put(2) by simp
    qed
  qed
qed

lemma poll_refines:
  assumes inv: "uring_inv u"
  shows "uring_inv (poll u)" and "uring_abs (poll u) = spec_poll (unat (m_queue_depth u)) (uring_abs u)"
    and "m_queue_depth (poll u) = m_queue_depth u"
proof -
  obtain sqes cqes sh st ch ct where u: "m_sqes u = Some sqes" "m_cqes u = Some cqes" "m_sq_head u = Some sh"
    "m_sq_tail u = Some st" "m_cq_head u = Some ch" "m_cq_tail u = Some ct"
    and ring: "ring_inv (m_queue_depth u) (sqes, sh, st)" "ring_inv (m_queue_depth u) (cqes, ch, ct)"
    and sq: "sq u = (sqes, sh, st)" and cq: "cq u = (cqes, ch, ct)"
    using uring_invE [OF inv] by metis
  obtain cqes' sh' ct' where loop: "poll_loop (m_queue_depth u) sqes cqes sh st ch ct = (cqes', sh', ct')"
    by (metis prod_cases3)
  note step = poll_loop_refines [OF ring loop]
  have run: "poll u = u\<lparr>m_cqes := Some cqes', m_sq_head := Some sh', m_cq_tail := Some ct'\<rparr>" if "m_running u"
    using that u loop by (simp add: poll_def)
  have off: "poll u = u" if "\<not> m_running u" using that by (simp add: poll_def)
  show "uring_inv (poll u)"
    using inv step u run off by (cases "m_running u") (auto simp: uring_inv_def sq_def cq_def)
  show "uring_abs (poll u) = spec_poll (unat (m_queue_depth u)) (uring_abs u)"
    using step u run off sq cq
    by (cases "m_running u") (auto simp: uring_abs_def spec_poll_def Let_def sq_def cq_def)
  show "m_queue_depth (poll u) = m_queue_depth u"
    using run off by (cases "m_running u") auto
qed

lemma get_refines:
  assumes inv: "uring_inv u"
  shows "uring_inv (fst (get_completion u))"
    and "spec_get (uring_abs u) = (uring_abs (fst (get_completion u)), snd (get_completion u))"
proof -
  obtain sqes cqes sh st ch ct where u: "m_sqes u = Some sqes" "m_cqes u = Some cqes" "m_sq_head u = Some sh"
    "m_sq_tail u = Some st" "m_cq_head u = Some ch" "m_cq_tail u = Some ct" "m_queue_depth u \<noteq> 0"
    and ring: "ring_inv (m_queue_depth u) (sqes, sh, st)" "ring_inv (m_queue_depth u) (cqes, ch, ct)"
    and sq: "sq u = (sqes, sh, st)" and cq: "cq u = (cqes, ch, ct)"
    using uring_invE [OF inv] by metis
  let ?d = "m_queue_depth u"
  have "uring_inv (fst (get_completion u)) \<and>
    spec_get (uring_abs u) = (uring_abs (fst (get_completion u)), snd (get_completion u))"
  proof (cases "ch = ct")
    case True
    then have "comps (uring_abs u) = []" by (simp add: uring_abs_def cq ring_items_empty)
    then show ?thesis using True u inv by (simp add: get_completion_def spec_get_def)
  next
    case False
    then have ne: "ring_items ?d (cqes, ch, ct) \<noteq> []" by (simp add: ring_items_empty)
    note get = u32_ring.get_inv [OF ring(2) ne] u32_ring.get_items [OF ring(2) ne]
    have "get_completion u = (u\<lparr>m_cq_head := Some (ch + 1)\<rparr>,
        Some (cq_user_data (ring_front ?d (cqes, ch, ct)), res (ring_front ?d (cqes, ch, ct))))"
      using u False by (simp add: get_completion_def next_index_def ring_front_def Let_def)
    moreover have "comps (uring_abs u) = ring_front ?d (cqes, ch, ct) # ring_items ?d (cqes, ch + 1, ct)"
      using get(2) by (simp add: uring_abs_def cq ring_get_def)
    ultimately show ?thesis
      using inv get(1) u by (simp add: spec_get_def uring_inv_def uring_abs_def sq_def cq_def ring_get_def)
  qed
  then show "uring_inv (fst (get_completion u))"
    "spec_get (uring_abs u) = (uring_abs (fst (get_completion u)), snd (get_completion u))" by simp_all
qed

lemma queue_lengths:
  assumes "uring_inv u"
  shows "length (subs (uring_abs u)) = unat (pending u)" and "length (comps (uring_abs u)) = unat (completions u)"
  using assms by (auto simp: uring_inv_def uring_abs_def pending_def completions_def sq_def cq_def ring_length)

lemma queue_bounds:
  assumes "uring_inv u"
  shows "pending u \<le> uring_depth u" and "completions u \<le> uring_depth u"
  using assms by (auto simp: uring_inv_def ring_inv_def sq_def cq_def pending_def completions_def uring_depth_def)

lemma depth_kept:
  "uring_depth (fst (submit e u)) = uring_depth u" "uring_depth (poll u) = uring_depth u"
  "uring_depth (fst (get_completion u)) = uring_depth u" "uring_depth (start u) = uring_depth u"
  "uring_depth (stop u) = uring_depth u"
  by (auto simp: uring_depth_def submit_def poll_def get_completion_def start_def stop_def Let_def
      split: option.splits prod.splits)

lemma start_stop_refine:
  assumes "uring_inv u"
  shows "uring_abs (start u) = (uring_abs u)\<lparr>on := True\<rparr>" and "uring_abs (stop u) = (uring_abs u)\<lparr>on := False\<rparr>"
    and "uring_inv (start u)" and "uring_inv (stop u)"
  using assms by (auto simp: start_def stop_def uring_inv_def uring_abs_def sq_def cq_def ring_inv_def)

lemma running_abs: "running u = on (uring_abs u)"
  by (simp add: running_def uring_abs_def)

text \<open>
  C9. Over every depth that divides \<open>2\<^sup>3\<^sup>2\<close>, that is every power of two, and for calls that do not overlap
  in time, the rings implement a pair of bounded first-in first-out queues, across the wrap-around of
  the 32-bit counters: \<open>submit\<close> appends exactly when the ring runs and has room; \<open>poll\<close> completes the
  submissions in order as far as the completion queue has room, and drops the next one when there is
  no more; \<open>get_completion\<close> takes the oldest completion; \<open>start\<close> and \<open>stop\<close> change only whether the ring
  runs; \<open>pending\<close>, \<open>completions\<close> and \<open>running\<close> report the lengths of the two queues, at most the depth,
  and whether the ring runs. Every operation keeps the depth and the representation invariant.
\<close>

theorem io_uring_refinement:
  assumes "uring_inv u"
  shows "spec_submit (unat (uring_depth u)) e (uring_abs u) = (uring_abs (fst (submit e u)), snd (submit e u)) \<and>
    spec_poll (unat (uring_depth u)) (uring_abs u) = uring_abs (poll u) \<and>
    spec_get (uring_abs u) = (uring_abs (fst (get_completion u)), snd (get_completion u)) \<and>
    uring_abs (start u) = (uring_abs u)\<lparr>on := True\<rparr> \<and> uring_abs (stop u) = (uring_abs u)\<lparr>on := False\<rparr> \<and>
    running u = on (uring_abs u) \<and>
    unat (pending u) = length (subs (uring_abs u)) \<and> pending u \<le> uring_depth u \<and>
    unat (completions u) = length (comps (uring_abs u)) \<and> completions u \<le> uring_depth u \<and>
    (\<forall>v \<in> {fst (submit e u), poll u, fst (get_completion u), start u, stop u}.
       uring_inv v \<and> uring_depth v = uring_depth u)"
  using submit_refines [OF assms, of e] poll_refines [OF assms] get_refines [OF assms] start_stop_refine [OF assms]
    queue_lengths [OF assms] queue_bounds [OF assms] depth_kept [where u = u]
  by (simp add: uring_depth_def running_abs)

section \<open>Histories\<close>

datatype uring_call = Submit sqe | Poll | Get

text \<open>A run keeps the accepted submissions and the delivered completions.\<close>

fun uring_run :: "uring_call list \<Rightarrow> io_uring \<Rightarrow> io_uring \<times> sqe list \<times> (u64 \<times> s32) list" where
  "uring_run [] u = (u, [], [])"
| "uring_run (Submit e # cs) u =
     (let (u, ok) = submit e u; (u, acc, del) = uring_run cs u in (u, (if ok then e # acc else acc), del))"
| "uring_run (Poll # cs) u = uring_run cs (poll u)"
| "uring_run (Get # cs) u =
     (let (u, r) = get_completion u; (u, acc, del) = uring_run cs u
      in (u, acc, (case r of None \<Rightarrow> del | Some x \<Rightarrow> x # del)))"

text \<open>Every \<open>poll\<close> of the run finds room for all pending submissions.\<close>

fun roomy :: "uring_call list \<Rightarrow> io_uring \<Rightarrow> bool" where
  "roomy [] u = True"
| "roomy (Submit e # cs) u = roomy cs (fst (submit e u))"
| "roomy (Poll # cs) u =
     (unat (pending u) + unat (completions u) \<le> unat (uring_depth u) \<and> roomy cs (poll u))"
| "roomy (Get # cs) u = roomy cs (fst (get_completion u))"

abbreviation delivered_as :: "cqe \<Rightarrow> u64 \<times> s32" where
  "delivered_as c \<equiv> (cq_user_data c, res c)"

abbreviation outcome :: "sqe \<Rightarrow> u64 \<times> s32" where
  "outcome e \<equiv> (user_data e, process_sqe e)"

definition in_flight :: "io_uring \<Rightarrow> (u64 \<times> s32) list" where
  "in_flight u = map delivered_as (comps (uring_abs u)) @ map outcome (subs (uring_abs u))"

lemma delivered_complete: "map delivered_as (map complete es) = map outcome es"
  by (simp add: complete_def)

lemma in_flight_submit:
  assumes "uring_inv u"
  shows "in_flight (fst (submit e u)) = in_flight u @ (if snd (submit e u) then [outcome e] else [])"
  using submit_refines(2) [OF assms, of e]
  by (auto simp: in_flight_def spec_submit_def split: if_splits dest!: sym [of _ "uring_abs _"])

lemma in_flight_get:
  assumes "uring_inv u"
  shows "in_flight u = (case snd (get_completion u) of None \<Rightarrow> [] | Some x \<Rightarrow> [x]) @ in_flight (fst (get_completion u))"
proof (cases "comps (uring_abs u)")
  case Nil
  then have "uring_abs (fst (get_completion u)) = uring_abs u" "snd (get_completion u) = None"
    using get_refines(2) [OF assms] by (simp_all add: spec_get_def)
  then show ?thesis by (simp add: in_flight_def)
next
  case (Cons c cs)
  then have "uring_abs (fst (get_completion u)) = (uring_abs u)\<lparr>comps := cs\<rparr>"
    "snd (get_completion u) = Some (delivered_as c)"
    using get_refines(2) [OF assms] by (simp_all add: spec_get_def)
  then show ?thesis using Cons by (simp add: in_flight_def)
qed

lemma subseq_skip_one: "subseq (take n xs @ drop (Suc n) xs) xs"
proof -
  have "subseq (drop 1 (drop n xs)) (drop n xs)" by (rule suffix_imp_subseq [OF suffix_drop])
  then have "subseq (take n xs @ drop (Suc n) xs) (take n xs @ drop n xs)"
    by (intro list_emb_append_mono subseq_order.refl) simp
  then show ?thesis by (simp only: append_take_drop_id)
qed

lemma in_flight_poll:
  assumes "uring_inv u"
  shows "subseq (in_flight (poll u)) (in_flight u)"
    and "unat (pending u) + unat (completions u) \<le> unat (uring_depth u) \<Longrightarrow> in_flight (poll u) = in_flight u"
proof -
  define n where "n = unat (m_queue_depth u) - length (comps (uring_abs u))"
  let ?S = "subs (uring_abs u)" and ?C = "comps (uring_abs u)"
  have eq: "in_flight (poll u) =
      (if on (uring_abs u) then map delivered_as ?C @ map outcome (take n ?S @ drop (Suc n) ?S) else in_flight u)"
    by (simp add: in_flight_def poll_refines(2) [OF assms] spec_poll_def Let_def delivered_complete n_def o_def complete_def)
  show "subseq (in_flight (poll u)) (in_flight u)"
    using subseq_map [OF subseq_skip_one, of outcome n ?S] unfolding eq in_flight_def [of u]
    by (auto intro!: list_emb_append_mono)
  show "in_flight (poll u) = in_flight u" if "unat (pending u) + unat (completions u) \<le> unat (uring_depth u)"
    using that queue_lengths [OF assms] unfolding eq in_flight_def [of u] by (simp add: n_def uring_depth_def)
qed

lemma uring_run_sound:
  assumes "uring_inv u" and "uring_run cs u = (u', acc, del)"
  shows "uring_inv u' \<and> subseq (del @ in_flight u') (in_flight u @ map outcome acc) \<and>
    (roomy cs u \<longrightarrow> del @ in_flight u' = in_flight u @ map outcome acc)"
  using assms
proof (induction cs u arbitrary: u' acc del rule: uring_run.induct)
  case (1 u)
  then show ?case by simp
next
  case (2 e cs u)
  obtain u1 ok where sub: "submit e u = (u1, ok)" by fastforce
  obtain acc1 where run: "uring_run cs u1 = (u', acc1, del)" "acc = (if ok then e # acc1 else acc1)"
    using "2.prems"(2) sub by (auto simp: Let_def split: prod.splits)
  have "uring_inv u1" using submit_refines(1) [OF "2.prems"(1), of e] sub by simp
  from "2.IH" [OF refl sub [symmetric] this run(1)] in_flight_submit [OF "2.prems"(1), of e]
  show ?case using sub run(2) by (cases ok) simp_all
next
  case (3 cs u)
  have "uring_inv (poll u)" by (rule poll_refines(1) [OF "3.prems"(1)])
  from "3.IH" [OF this] "3.prems"(2) have IH: "uring_inv u'" "subseq (del @ in_flight u') (in_flight (poll u) @ map outcome acc)"
    "roomy cs (poll u) \<Longrightarrow> del @ in_flight u' = in_flight (poll u) @ map outcome acc" by simp_all
  have "subseq (in_flight (poll u) @ map outcome acc) (in_flight u @ map outcome acc)"
    by (intro list_emb_append_mono in_flight_poll(1) [OF "3.prems"(1)] subseq_order.refl)
  note sub = subseq_order.trans [OF IH(2) this]
  show ?case
    using IH(1,3) sub in_flight_poll(2) [OF "3.prems"(1)] by simp
next
  case (4 cs u)
  obtain u1 r where got: "get_completion u = (u1, r)" by fastforce
  obtain del1 where run: "uring_run cs u1 = (u', acc, del1)" "del = (case r of None \<Rightarrow> del1 | Some x \<Rightarrow> x # del1)"
    using "4.prems"(2) got by (auto simp: Let_def split: prod.splits)
  have "uring_inv u1" using get_refines(1) [OF "4.prems"(1)] got by simp
  from "4.IH" [OF refl got [symmetric] this run(1)] in_flight_get [OF "4.prems"(1)]
  show ?case using got run(2) by (auto split: option.splits)
qed

lemma uring_new_inv:
  assumes "\<And>i. new_ok i" and "0 < d" and "unat d dvd 2 ^ 32"
  shows "\<exists>u. io_uring_new new_ok raw d = Some u \<and> uring_inv (start u) \<and> in_flight (start u) = [] \<and> m_queue_depth (start u) = d"
proof -
  let ?u = "\<lparr>m_lock = True, m_sqes = Some (replicate (unat d) zero_sqe), m_cqes = Some (replicate (unat d) zero_cqe),
    m_queue_depth = d, m_sq_head = Some 0, m_sq_tail = Some 0, m_cq_head = Some 0, m_cq_tail = Some 0, m_running = False\<rparr>"
  have "io_uring_new new_ok raw d = Some ?u"
    using assms by (simp add: io_uring_new_def alloc_if_def Let_def)
  moreover have "uring_inv (start ?u)" "in_flight (start ?u) = []" "m_queue_depth (start ?u) = d"
    using assms by (simp_all add: start_def uring_inv_def sq_def cq_def ring_inv_def in_flight_def uring_abs_def ring_items_def)
  ultimately show ?thesis by blast
qed

text \<open>
  From a fresh, started ring of power-of-two depth and under any sequence of submissions, polls and
  reads that do not overlap in time, the completions delivered and still in the ring are the outcomes of accepted
  submissions, each at most once and in submission order; and none is missing as long as every \<open>poll\<close>
  finds room for all pending submissions.
\<close>

lemma io_uring_delivery:
  assumes "\<And>i. new_ok i" and "0 < d" and "unat d dvd 2 ^ 32"
  shows "\<exists>u. io_uring_new new_ok raw d = Some u \<and>
    (case uring_run cs (start u) of (u', acc, del) \<Rightarrow>
       subseq (del @ in_flight u') (map outcome acc) \<and>
       (roomy cs (start u) \<longrightarrow> del @ in_flight u' = map outcome acc))"
proof -
  obtain u where u: "io_uring_new new_ok raw d = Some u" "uring_inv (start u)" "in_flight (start u) = []"
    using uring_new_inv [of new_ok d raw, OF assms] by blast
  obtain u' acc del where run: "uring_run cs (start u) = (u', acc, del)" by (metis prod_cases3)
  show ?thesis using uring_run_sound [OF u(2) run] u(1,3) run by simp
qed

definition demo_sqe :: "u64 \<Rightarrow> sqe" where
  "demo_sqe n = \<lparr>opcode = ucast n, fd = 3, addr = 4096, len = 512, user_data = n\<rparr>"

theorem io_uring_refinement_witness:
  "\<exists>u. io_uring_new (\<lambda>_. True) \<lparr>raw_sqe = demo_sqe 9, raw_cqe = zero_cqe, raw_cell = (\<lambda>i. of_nat i)\<rparr> 2 = Some u \<and>
     spec_submit 2 (demo_sqe 1) (uring_abs (start u)) =
       (uring_abs (fst (submit (demo_sqe 1) (start u))), snd (submit (demo_sqe 1) (start u))) \<and>
     pending (start u) \<le> 2 \<and> uring_inv (poll (start u))"
proof -
  obtain u where u: "io_uring_new (\<lambda>_. True) \<lparr>raw_sqe = demo_sqe 9, raw_cqe = zero_cqe, raw_cell = (\<lambda>i. of_nat i)\<rparr> 2 = Some u"
    "uring_inv (start u)" "m_queue_depth (start u) = 2"
    using uring_new_inv [of "\<lambda>_. True" 2] by auto
  then show ?thesis using io_uring_refinement [OF u(2), of "demo_sqe 1"] by (simp add: uring_depth_def)
qed

text \<open>
  A submission polled while the completion queue is full is taken off the submission queue and
  its completion is lost: with depth 1, the second of two accepted submissions is neither pending nor
  ever completed.
\<close>

lemma poll_drops_completion:
  "case io_uring_new (\<lambda>_. True) \<lparr>raw_sqe = zero_sqe, raw_cqe = zero_cqe, raw_cell = (\<lambda>i. 0)\<rparr> 1 of
     None \<Rightarrow> False
   | Some u \<Rightarrow>
       (case uring_run [Submit (demo_sqe 1), Poll, Submit (demo_sqe 2), Poll, Get, Poll, Get] (start u) of
          (u', acc, del) \<Rightarrow> length acc = 2 \<and> del = [outcome (demo_sqe 1)] \<and> pending u' = 0 \<and> completions u' = 0)"
  by code_simp

end
