(* ===== verification/IoUring_Concurrent.thy ===== *)
theory IoUring_Concurrent
  imports IoUring
begin

text \<open>
  The rings of theory \<open>IoUring\<close> under calls that overlap in time. Each call of \<open>submit\<close>,
  \<open>get_completion\<close> and \<open>poll\<close> is cut into its accesses to shared memory, with its local variables in
  the program point; \<open>submit\<close> and \<open>get_completion\<close> run with the ring's lock held, \<open>poll\<close> does not.
  Memory is sequentially consistent: accesses happen one after the other, in the order an arbitrary
  schedule gives. A slot of a ring is written and read by one access, which is justified by the
  absence of races on slots shown below.
\<close>

section \<open>Program points\<close>

text \<open>
  Inside the lock. \<open>SubHead\<close> to \<open>SubStore\<close> are the points of \<open>submit\<close> before it loads the head, loads
  the tail and tests for room, fills the slot, and publishes the tail; \<open>GetHead\<close> to \<open>GetStore\<close> are
  those of \<open>get_completion\<close>; at \<open>Leave\<close> the guard is about to release the lock.
\<close>

datatype holder =
    SubHead sqe
  | SubTail sqe u32
  | SubSlot sqe u32
  | SubStore sqe u32
  | GetHead
  | GetTail u32
  | GetSlot u32
  | GetStore u32 cqe
  | Leave

text \<open>
  In \<open>poll\<close>: before loading the submission head, loading the submission tail, copying the entry,
  advancing the head, loading the completion head, loading the completion tail, filling the
  completion slot, and publishing the completion tail.
\<close>

datatype poller =
    PIdle
  | PLoop
  | PSqTail u32
  | PSqe u32
  | PSqHead u32 sqe
  | PCqHead sqe
  | PCqTail sqe u32
  | PCqe sqe u32
  | PStore sqe u32

text \<open>
  The system: the ring, the submissions that have passed the test of \<open>m_running\<close> and wait for the
  lock, the call that holds the lock, and the pollers. The last three fields are histories: the
  accepted submissions, the completions handed out, and the submissions whose completion was dropped.
\<close>

record uring_sys =
  ring :: io_uring
  waiting :: "sqe list"
  holding :: "holder option"
  polling :: "nat \<Rightarrow> poller"
  accepted :: "sqe list"
  delivered :: "(u64 \<times> s32) list"
  dropped :: "sqe list"

definition boot :: "io_uring \<Rightarrow> uring_sys" where
  "boot u = \<lparr>ring = u, waiting = [], holding = None, polling = (\<lambda>_. PIdle), accepted = [],
     delivered = [], dropped = []\<rparr>"

section \<open>Steps\<close>

text \<open>Entering the calls. A call that returns at one of its first tests changes nothing.\<close>

definition enter_submit :: "sqe \<Rightarrow> uring_sys \<Rightarrow> uring_sys" where
  "enter_submit e s =
     (let u = ring s
      in if \<not> m_running u then s
         else if m_sqes u = None \<or> m_sq_head u = None \<or> m_sq_tail u = None then s
         else s\<lparr>waiting := e # waiting s\<rparr>)"

definition lock_submit :: "sqe \<Rightarrow> uring_sys \<Rightarrow> uring_sys option" where
  "lock_submit e s =
     (if holding s = None \<and> e \<in> set (waiting s)
      then Some (s\<lparr>waiting := remove1 e (waiting s), holding := Some (SubHead e)\<rparr>) else None)"

definition lock_get :: "uring_sys \<Rightarrow> uring_sys option" where
  "lock_get s =
     (let u = ring s
      in if m_cqes u = None \<or> m_cq_head u = None \<or> m_cq_tail u = None then Some s
         else if holding s = None then Some (s\<lparr>holding := Some GetHead\<rparr>) else None)"

definition enter_poll :: "nat \<Rightarrow> uring_sys \<Rightarrow> uring_sys option" where
  "enter_poll i s =
     (let u = ring s
      in if polling s i \<noteq> PIdle then None
         else if \<not> m_running u then Some s
         else if m_sqes u = None \<or> m_cqes u = None \<or> m_sq_head u = None \<or> m_sq_tail u = None \<or>
                 m_cq_head u = None \<or> m_cq_tail u = None then Some s
         else Some (s\<lparr>polling := (polling s)(i := PLoop)\<rparr>))"

text \<open>One access of the call that holds the lock.\<close>

definition hold :: "holder \<Rightarrow> uring_sys \<Rightarrow> uring_sys" where
  "hold h s = s\<lparr>holding := Some h\<rparr>"

fun holder_step :: "holder \<Rightarrow> uring_sys \<Rightarrow> uring_sys option" where
  "holder_step (SubHead e) s =
     (case m_sq_head (ring s) of None \<Rightarrow> None | Some head \<Rightarrow> Some (hold (SubTail e head) s))"
| "holder_step (SubTail e head) s =
     (case m_sq_tail (ring s) of None \<Rightarrow> None
      | Some tail \<Rightarrow>
          if m_queue_depth (ring s) \<le> tail - head then Some (hold Leave s) else Some (hold (SubSlot e tail) s))"
| "holder_step (SubSlot e tail) s =
     (case m_sqes (ring s) of None \<Rightarrow> None
      | Some sqes \<Rightarrow>
          let index = next_index (m_queue_depth (ring s)) tail
          in Some (hold (SubStore e tail) (s\<lparr>ring := (ring s)\<lparr>m_sqes := Some (sqes[unat index := e])\<rparr>\<rparr>)))"
| "holder_step (SubStore e tail) s =
     Some (hold Leave (s\<lparr>ring := (ring s)\<lparr>m_sq_tail := Some (tail + 1)\<rparr>, accepted := accepted s @ [e]\<rparr>))"
| "holder_step GetHead s =
     (case m_cq_head (ring s) of None \<Rightarrow> None | Some head \<Rightarrow> Some (hold (GetTail head) s))"
| "holder_step (GetTail head) s =
     (case m_cq_tail (ring s) of None \<Rightarrow> None
      | Some tail \<Rightarrow> if head = tail then Some (hold Leave s) else Some (hold (GetSlot head) s))"
| "holder_step (GetSlot head) s =
     (case m_cqes (ring s) of None \<Rightarrow> None
      | Some cqes \<Rightarrow>
          let index = next_index (m_queue_depth (ring s)) head
          in Some (hold (GetStore head (cqes ! unat index)) s))"
| "holder_step (GetStore head c) s =
     Some (hold Leave (s\<lparr>ring := (ring s)\<lparr>m_cq_head := Some (head + 1)\<rparr>,
                        delivered := delivered s @ [(cq_user_data c, res c)]\<rparr>))"
| "holder_step Leave s = Some (s\<lparr>holding := None\<rparr>)"

text \<open>One access of a poller.\<close>

definition at_poll :: "nat \<Rightarrow> poller \<Rightarrow> uring_sys \<Rightarrow> uring_sys" where
  "at_poll i p s = s\<lparr>polling := (polling s)(i := p)\<rparr>"

fun poller_step :: "nat \<Rightarrow> poller \<Rightarrow> uring_sys \<Rightarrow> uring_sys option" where
  "poller_step i PIdle s = None"
| "poller_step i PLoop s =
     (case m_sq_head (ring s) of None \<Rightarrow> None | Some sq_head \<Rightarrow> Some (at_poll i (PSqTail sq_head) s))"
| "poller_step i (PSqTail sq_head) s =
     (case m_sq_tail (ring s) of None \<Rightarrow> None
      | Some sq_tail \<Rightarrow>
          if sq_head = sq_tail then Some (at_poll i PIdle s) else Some (at_poll i (PSqe sq_head) s))"
| "poller_step i (PSqe sq_head) s =
     (case m_sqes (ring s) of None \<Rightarrow> None
      | Some sqes \<Rightarrow>
          let sq_index = next_index (m_queue_depth (ring s)) sq_head
          in Some (at_poll i (PSqHead sq_head (sqes ! unat sq_index)) s))"
| "poller_step i (PSqHead sq_head e) s =
     Some (at_poll i (PCqHead e) (s\<lparr>ring := (ring s)\<lparr>m_sq_head := Some (sq_head + 1)\<rparr>\<rparr>))"
| "poller_step i (PCqHead e) s =
     (case m_cq_head (ring s) of None \<Rightarrow> None | Some cq_head \<Rightarrow> Some (at_poll i (PCqTail e cq_head) s))"
| "poller_step i (PCqTail e cq_head) s =
     (case m_cq_tail (ring s) of None \<Rightarrow> None
      | Some cq_tail \<Rightarrow>
          if m_queue_depth (ring s) \<le> cq_tail - cq_head
          then Some (at_poll i PIdle (s\<lparr>dropped := dropped s @ [e]\<rparr>))
          else Some (at_poll i (PCqe e cq_tail) s))"
| "poller_step i (PCqe e cq_tail) s =
     (case m_cqes (ring s) of None \<Rightarrow> None
      | Some cqes \<Rightarrow>
          let cq_index = next_index (m_queue_depth (ring s)) cq_tail;
              c = \<lparr>cq_user_data = user_data e, res = process_sqe e\<rparr>
          in Some (at_poll i (PStore e cq_tail)
                     (s\<lparr>ring := (ring s)\<lparr>m_cqes := Some (cqes[unat cq_index := c])\<rparr>\<rparr>)))"
| "poller_step i (PStore e cq_tail) s =
     Some (at_poll i PLoop (s\<lparr>ring := (ring s)\<lparr>m_cq_tail := Some (cq_tail + 1)\<rparr>\<rparr>))"

text \<open>A schedule says which call enters, takes the lock or makes its next access.\<close>

datatype uring_act =
    DoStart
  | DoStop
  | EnterSubmit sqe
  | LockSubmit sqe
  | LockGet
  | HolderStep
  | EnterPoll nat
  | PollStep nat

fun uring_step :: "uring_act \<Rightarrow> uring_sys \<Rightarrow> uring_sys option" where
  "uring_step DoStart s = Some (s\<lparr>ring := start (ring s)\<rparr>)"
| "uring_step DoStop s = Some (s\<lparr>ring := stop (ring s)\<rparr>)"
| "uring_step (EnterSubmit e) s = Some (enter_submit e s)"
| "uring_step (LockSubmit e) s = lock_submit e s"
| "uring_step LockGet s = lock_get s"
| "uring_step HolderStep s = (case holding s of None \<Rightarrow> None | Some h \<Rightarrow> holder_step h s)"
| "uring_step (EnterPoll i) s = enter_poll i s"
| "uring_step (PollStep i) s = poller_step i (polling s i) s"

fun uring_exec :: "uring_act list \<Rightarrow> uring_sys \<Rightarrow> uring_sys option" where
  "uring_exec [] s = Some s"
| "uring_exec (a # as) s = (case uring_step a s of None \<Rightarrow> None | Some s' \<Rightarrow> uring_exec as s')"

section \<open>Calls that nothing overlaps\<close>

text \<open>Run on its own, the sequence of accesses of a call does what the operation of theory \<open>IoUring\<close> does.\<close>

lemma uring_exec_append:
  "uring_exec (as @ bs) s = (case uring_exec as s of None \<Rightarrow> None | Some s' \<Rightarrow> uring_exec bs s')"
  by (induction as arbitrary: s) (auto split: option.splits)

lemma replicate_simps: "replicate 5 x = [x, x, x, x, x]" "replicate 3 x = [x, x, x]"
  by (simp_all add: eval_nat_numeral)

lemma submit_alone:
  assumes inv: "uring_inv (ring s)" and free: "holding s = None" and on: "m_running (ring s)"
  shows "\<exists>n s'. uring_exec ([EnterSubmit e, LockSubmit e] @ replicate n HolderStep) s = Some s' \<and>
    ring s' = fst (submit e (ring s)) \<and> holding s' = None \<and> waiting s' = waiting s \<and>
    accepted s' = accepted s @ (if snd (submit e (ring s)) then [e] else [])"
proof -
  obtain sqes sh st where u: "m_sqes (ring s) = Some sqes" "m_sq_head (ring s) = Some sh" "m_sq_tail (ring s) = Some st"
    using inv by (rule uring_invE)
  show ?thesis
  proof (cases "m_queue_depth (ring s) \<le> st - sh")
    case True
    then show ?thesis
      using u free on
      by (intro exI [of _ 3]) (simp add: replicate_simps enter_submit_def lock_submit_def hold_def submit_def)
  next
    case False
    then show ?thesis
      using u free on
      by (intro exI [of _ 5]) (simp add: replicate_simps enter_submit_def lock_submit_def hold_def submit_def Let_def)
  qed
qed

lemma get_alone:
  assumes inv: "uring_inv (ring s)" and free: "holding s = None"
  shows "\<exists>n s'. uring_exec (LockGet # replicate n HolderStep) s = Some s' \<and>
    ring s' = fst (get_completion (ring s)) \<and> holding s' = None \<and>
    delivered s' = delivered s @ (case snd (get_completion (ring s)) of None \<Rightarrow> [] | Some r \<Rightarrow> [r])"
proof -
  obtain cqes ch ct where u: "m_cqes (ring s) = Some cqes" "m_cq_head (ring s) = Some ch" "m_cq_tail (ring s) = Some ct"
    using inv by (rule uring_invE)
  show ?thesis
  proof (cases "ch = ct")
    case True
    then show ?thesis
      using u free by (intro exI [of _ 3]) (simp add: replicate_simps lock_get_def hold_def get_completion_def)
  next
    case False
    then show ?thesis
      using u free
      by (intro exI [of _ 5]) (simp add: replicate_simps lock_get_def hold_def get_completion_def Let_def)
  qed
qed

lemma ring_rewrite:
  "\<lbrakk>m_cqes u = c; m_cq_tail u = t\<rbrakk> \<Longrightarrow> u\<lparr>m_cqes := c, m_sq_head := h, m_cq_tail := t\<rparr> = u\<lparr>m_sq_head := h\<rparr>"
  "m_sq_head u = h \<Longrightarrow> u\<lparr>m_sq_head := h\<rparr> = u"
  by (cases u; simp)+

lemma poll_loop_alone:
  assumes "m_sqes (ring s) = Some sqes" "m_cqes (ring s) = Some cqes" "m_sq_head (ring s) = Some sh"
    "m_sq_tail (ring s) = Some st" "m_cq_head (ring s) = Some ch" "m_cq_tail (ring s) = Some ct"
    and "m_queue_depth (ring s) = d" "polling s i = PLoop" "poll_loop d sqes cqes sh st ch ct = (cqes', sh', ct')"
  shows "\<exists>n s'. uring_exec (replicate n (PollStep i)) s = Some s' \<and> polling s' i = PIdle \<and>
    ring s' = (ring s)\<lparr>m_cqes := Some cqes', m_sq_head := Some sh', m_cq_tail := Some ct'\<rparr>"
  using assms
proof (induction d sqes cqes sh st ch ct arbitrary: s rule: poll_loop.induct)
  case (1 d sqes cqes sh st ch ct)
  note u = "1.prems"(1-7) and at = "1.prems"(8) and loop = "1.prems"(9)
  let ?e = "sqes ! unat (next_index d sh)"
  consider (empty) "sh = st" | (full) "sh \<noteq> st" "d \<le> ct - ch" | (room) "sh \<noteq> st" "\<not> d \<le> ct - ch" by blast
  then show ?case
  proof cases
    case empty
    then have "cqes' = cqes" "sh' = sh" "ct' = ct"
      using loop poll_loop.simps [of d sqes cqes sh st ch ct] by simp_all
    then show ?thesis
      using u at empty by (intro exI [of _ 2]) (simp add: eval_nat_numeral at_poll_def ring_rewrite)
  next
    case full
    then have "cqes' = cqes" "sh' = sh + 1" "ct' = ct"
      using loop poll_loop.simps [of d sqes cqes sh st ch ct] by (simp_all add: Let_def)
    then show ?thesis
      using u at full by (intro exI [of _ 6]) (simp add: eval_nat_numeral at_poll_def ring_rewrite Let_def)
  next
    case room
    let ?cqes = "cqes[unat (next_index d ct) := \<lparr>cq_user_data = user_data ?e, res = process_sqe ?e\<rparr>]"
    define s1 where "s1 = at_poll i PLoop
      (s\<lparr>ring := (ring s)\<lparr>m_sq_head := Some (sh + 1), m_cqes := Some ?cqes, m_cq_tail := Some (ct + 1)\<rparr>\<rparr>)"
    have run: "uring_exec (replicate 8 (PollStep i)) s = Some s1"
      using u at room by (simp add: eval_nat_numeral at_poll_def s1_def Let_def)
    have rec: "poll_loop d sqes ?cqes (sh + 1) st ch (ct + 1) = (cqes', sh', ct')"
      using loop room by (simp add: poll_loop.simps [of d sqes cqes sh st] Let_def)
    obtain n s' where s': "uring_exec (replicate n (PollStep i)) s1 = Some s'" "polling s' i = PIdle"
      "ring s' = (ring s1)\<lparr>m_cqes := Some cqes', m_sq_head := Some sh', m_cq_tail := Some ct'\<rparr>"
      using "1.IH" [OF room(1) refl refl refl room(2), of s1] u rec by (auto simp: s1_def at_poll_def)
    show ?thesis
      using run s' by (intro exI [of _ "8 + n"] exI [of _ s'])
        (simp add: replicate_add uring_exec_append s1_def at_poll_def)
  qed
qed

lemma poll_alone:
  assumes inv: "uring_inv (ring s)" and idle: "polling s i = PIdle"
  shows "\<exists>n s'. uring_exec (EnterPoll i # replicate n (PollStep i)) s = Some s' \<and> polling s' i = PIdle \<and>
    ring s' = poll (ring s)"
proof (cases "m_running (ring s)")
  case False
  then show ?thesis
    using idle by (intro exI [of _ 0]) (simp add: enter_poll_def poll_def)
next
  case True
  obtain sqes cqes sh st ch ct where u: "m_sqes (ring s) = Some sqes" "m_cqes (ring s) = Some cqes"
    "m_sq_head (ring s) = Some sh" "m_sq_tail (ring s) = Some st" "m_cq_head (ring s) = Some ch"
    "m_cq_tail (ring s) = Some ct"
    using inv by (rule uring_invE)
  obtain cqes' sh' ct' where loop: "poll_loop (m_queue_depth (ring s)) sqes cqes sh st ch ct = (cqes', sh', ct')"
    by (metis prod_cases3)
  let ?s = "s\<lparr>polling := (polling s)(i := PLoop)\<rparr>"
  have "enter_poll i s = Some ?s" using True u idle by (simp add: enter_poll_def)
  then show ?thesis
    using poll_loop_alone [of ?s sqes cqes sh st ch ct _ i cqes' sh' ct'] u loop True by (simp add: poll_def)
qed

section \<open>Accesses to a ring\<close>

lemma head_advance:
  assumes "h \<noteq> (t :: u32)"
  shows "t - (h + 1) < t - h"
proof -
  have "t - h \<noteq> 0" using assms by simp
  then have "unat (t - h - 1) < unat (t - h)" using unat_minus_one [of "t - h"] unat_gt_0 [of "t - h"] by simp
  then show ?thesis by (simp add: word_less_nat_alt algebra_simps)
qed

lemma tail_advance:
  assumes "t - h < (d :: u32)"
  shows "h \<noteq> t + 1"
  using counter_succ(1) [OF assms] by auto

lemma free_slot:
  assumes inv: "ring_inv d (buf, h, t)" and room: "t - h < d"
  shows "unat (t mod d) < length buf" and "k < unat (t - h) \<Longrightarrow> unat (t mod d) \<noteq> unat ((h + of_nat k) mod d)"
proof -
  have d: "0 < unat d" "unat d dvd 2 ^ 32" "length buf = unat d"
    using inv by (auto simp: ring_inv_def word_less_nat_alt)
  then show "unat (t mod d) < length buf" by (simp add: unat_mod)
  have last: "t = h + of_nat (unat (t - h))" by simp
  show "unat (t mod d) \<noteq> unat ((h + of_nat k) mod d)" if "k < unat (t - h)"
    using ring_index_inj [OF d(2), of k "unat (t - h)" h] that room last by (auto simp: word_less_nat_alt)
qed

lemma free_slot_front:
  assumes "ring_inv d (buf, h, t)" and "t - h < d" and "h \<noteq> t"
  shows "unat (t mod d) \<noteq> unat (h mod d)"
  using free_slot(2) [OF assms(1,2), of 0] assms(3) by (simp add: unat_gt_0)

lemma write_free_slot:
  assumes inv: "ring_inv d (buf, h, t)" and room: "t - h < d"
  shows "ring_items d (buf[unat (t mod d) := x], h, t) = ring_items d (buf, h, t)"
    and "ring_inv d (buf[unat (t mod d) := x], h, t)"
    and "buf[unat (t mod d) := x] ! unat (t mod d) = x"
  using free_slot [OF inv room] inv by (auto simp: ring_items_def ring_inv_def)

lemma publish_slot:
  assumes inv: "ring_inv d (buf, h, t)" and room: "t - h < d" and x: "buf ! unat (t mod d) = x"
  shows "ring_inv d (buf, h, t + 1)" and "ring_items d (buf, h, t + 1) = ring_items d (buf, h, t) @ [x]"
proof -
  have put: "ring_put d x (buf, h, t) = (buf, h, t + 1)"
    using x list_update_id [of buf "unat (t mod d)"] by (auto simp: ring_put_def)
  have len: "length (ring_items d (buf, h, t)) < unat d"
    using room by (simp add: ring_length word_less_nat_alt)
  show "ring_inv d (buf, h, t + 1)" and "ring_items d (buf, h, t + 1) = ring_items d (buf, h, t) @ [x]"
    using u32_ring.put_inv [OF inv len, of x] u32_ring.put_items [OF inv len, of x] put by simp_all
qed

lemma take_front:
  assumes inv: "ring_inv d (buf, h, t)" and ne: "h \<noteq> t"
  shows "ring_inv d (buf, h + 1, t)"
    and "ring_items d (buf, h, t) = buf ! unat (h mod d) # ring_items d (buf, h + 1, t)"
proof -
  have "ring_items d (buf, h, t) \<noteq> []" using ne by (simp add: ring_items_empty)
  from u32_ring.get_inv [OF inv this] u32_ring.get_items [OF inv this]
  show "ring_inv d (buf, h + 1, t)" "ring_items d (buf, h, t) = buf ! unat (h mod d) # ring_items d (buf, h + 1, t)"
    by (simp_all add: ring_get_def ring_front_def)
qed

section \<open>What the local variables mean\<close>

text \<open>
  A head read earlier by the other side may have moved on since; it only makes the ring look fuller
  than it is.
\<close>

fun holder_ok :: "u32 \<Rightarrow> sqe ring_state \<Rightarrow> cqe ring_state \<Rightarrow> holder \<Rightarrow> bool" where
  "holder_ok d (sqes, sh, st) (cqes, ch, ct) (SubHead e) = True"
| "holder_ok d (sqes, sh, st) (cqes, ch, ct) (SubTail e head) = (st - sh \<le> st - head)"
| "holder_ok d (sqes, sh, st) (cqes, ch, ct) (SubSlot e tail) = (tail = st \<and> st - sh < d)"
| "holder_ok d (sqes, sh, st) (cqes, ch, ct) (SubStore e tail) =
     (tail = st \<and> st - sh < d \<and> sqes ! unat (st mod d) = e)"
| "holder_ok d (sqes, sh, st) (cqes, ch, ct) GetHead = True"
| "holder_ok d (sqes, sh, st) (cqes, ch, ct) (GetTail head) = (head = ch)"
| "holder_ok d (sqes, sh, st) (cqes, ch, ct) (GetSlot head) = (head = ch \<and> ch \<noteq> ct)"
| "holder_ok d (sqes, sh, st) (cqes, ch, ct) (GetStore head c) =
     (head = ch \<and> ch \<noteq> ct \<and> cqes ! unat (ch mod d) = c)"
| "holder_ok d (sqes, sh, st) (cqes, ch, ct) Leave = True"

fun poller_ok :: "u32 \<Rightarrow> sqe ring_state \<Rightarrow> cqe ring_state \<Rightarrow> poller \<Rightarrow> bool" where
  "poller_ok d (sqes, sh, st) (cqes, ch, ct) PIdle = True"
| "poller_ok d (sqes, sh, st) (cqes, ch, ct) PLoop = True"
| "poller_ok d (sqes, sh, st) (cqes, ch, ct) (PSqTail head) = (head = sh)"
| "poller_ok d (sqes, sh, st) (cqes, ch, ct) (PSqe head) = (head = sh \<and> sh \<noteq> st)"
| "poller_ok d (sqes, sh, st) (cqes, ch, ct) (PSqHead head e) =
     (head = sh \<and> sh \<noteq> st \<and> sqes ! unat (sh mod d) = e)"
| "poller_ok d (sqes, sh, st) (cqes, ch, ct) (PCqHead e) = True"
| "poller_ok d (sqes, sh, st) (cqes, ch, ct) (PCqTail e head) = (ct - ch \<le> ct - head)"
| "poller_ok d (sqes, sh, st) (cqes, ch, ct) (PCqe e tail) = (tail = ct \<and> ct - ch < d)"
| "poller_ok d (sqes, sh, st) (cqes, ch, ct) (PStore e tail) =
     (tail = ct \<and> ct - ch < d \<and> cqes ! unat (ct mod d) = complete e)"

text \<open>An access of the call in the lock keeps what a poller knows.\<close>

lemma poller_ok_holder:
  assumes ok: "poller_ok d (sqes, sh, st) (cqes, ch, ct) p"
    and inv: "ring_inv d (sqes, sh, st)" "ring_inv d (cqes, ch, ct)"
  shows "st - sh < d \<Longrightarrow> poller_ok d (sqes[unat (st mod d) := e], sh, st) (cqes, ch, ct) p"
    and "st - sh < d \<Longrightarrow> poller_ok d (sqes, sh, st + 1) (cqes, ch, ct) p"
    and "ch \<noteq> ct \<Longrightarrow> poller_ok d (sqes, sh, st) (cqes, ch + 1, ct) p"
proof -
  show "poller_ok d (sqes[unat (st mod d) := e], sh, st) (cqes, ch, ct) p" if "st - sh < d"
    using ok free_slot_front [OF inv(1) that] by (cases p) simp_all
  show "poller_ok d (sqes, sh, st + 1) (cqes, ch, ct) p" if "st - sh < d"
    using ok tail_advance [OF that] by (cases p) simp_all
  show "poller_ok d (sqes, sh, st) (cqes, ch + 1, ct) p" if "ch \<noteq> ct"
    using ok head_advance [OF that] by (cases p) auto
qed

text \<open>An access of a poller keeps what the call in the lock knows.\<close>

lemma holder_ok_poller:
  assumes ok: "holder_ok d (sqes, sh, st) (cqes, ch, ct) h"
    and inv: "ring_inv d (sqes, sh, st)" "ring_inv d (cqes, ch, ct)"
  shows "sh \<noteq> st \<Longrightarrow> holder_ok d (sqes, sh + 1, st) (cqes, ch, ct) h"
    and "ct - ch < d \<Longrightarrow> holder_ok d (sqes, sh, st) (cqes[unat (ct mod d) := c], ch, ct) h"
    and "ct - ch < d \<Longrightarrow> holder_ok d (sqes, sh, st) (cqes, ch, ct + 1) h"
proof -
  show "holder_ok d (sqes, sh + 1, st) (cqes, ch, ct) h" if "sh \<noteq> st"
    using ok head_advance [OF that] by (cases h) auto
  show "holder_ok d (sqes, sh, st) (cqes[unat (ct mod d) := c], ch, ct) h" if "ct - ch < d"
    using ok free_slot_front [OF inv(2) that] by (cases h) simp_all
  show "holder_ok d (sqes, sh, st) (cqes, ch, ct + 1) h" if "ct - ch < d"
    using ok tail_advance [OF that] by (cases h) simp_all
qed

section \<open>The invariant with one poll at a time\<close>

text \<open>The submission a poller has taken off its ring and not yet completed.\<close>

fun in_hand :: "poller \<Rightarrow> sqe list" where
  "in_hand (PCqHead e) = [e]"
| "in_hand (PCqTail e head) = [e]"
| "in_hand (PCqe e tail) = [e]"
| "in_hand (PStore e tail) = [e]"
| "in_hand PIdle = []"
| "in_hand PLoop = []"
| "in_hand (PSqTail head) = []"
| "in_hand (PSqe head) = []"
| "in_hand (PSqHead head e) = []"

text \<open>
  Everything on its way from \<open>submit\<close> to \<open>get_completion\<close>, oldest first: what was handed out, the
  completion ring, the submission in the poller's hands, the submission ring.
\<close>

definition pipeline :: "uring_sys \<Rightarrow> (u64 \<times> s32) list" where
  "pipeline s = delivered s @ map delivered_as (comps (uring_abs (ring s))) @
     map outcome (in_hand (polling s 0) @ subs (uring_abs (ring s)))"

definition history_ok :: "uring_sys \<Rightarrow> bool" where
  "history_ok s \<longleftrightarrow> subseq (pipeline s) (map outcome (accepted s)) \<and>
     length (pipeline s) + length (dropped s) = length (accepted s)"

definition sys_inv :: "uring_sys \<Rightarrow> bool" where
  "sys_inv s \<longleftrightarrow> uring_inv (ring s) \<and>
     (\<forall>h. holding s = Some h \<longrightarrow> holder_ok (m_queue_depth (ring s)) (sq (ring s)) (cq (ring s)) h) \<and>
     poller_ok (m_queue_depth (ring s)) (sq (ring s)) (cq (ring s)) (polling s 0) \<and>
     (\<forall>i. i \<noteq> 0 \<longrightarrow> polling s i = PIdle) \<and> history_ok s"

lemma history_accept:
  assumes "history_ok s" and "pipeline s' = pipeline s @ [outcome e]"
    and "accepted s' = accepted s @ [e]" and "dropped s' = dropped s"
  shows "history_ok s'"
  using assms by (auto simp: history_ok_def intro!: list_emb_append_mono)

lemma history_drop:
  assumes "history_ok s" and "pipeline s = xs @ x # ys" and "pipeline s' = xs @ ys"
    and "accepted s' = accepted s" and "dropped s' = dropped s @ [e]"
  shows "history_ok s'"
proof -
  have "subseq (xs @ ys) (xs @ x # ys)" by (auto intro!: list_emb_append_mono list_emb_Cons)
  then show ?thesis
    using assms by (auto simp: history_ok_def dest: subseq_order.trans)
qed

lemmas sys_defs = sys_inv_def uring_inv_def history_ok_def pipeline_def uring_abs_def sq_def cq_def hold_def at_poll_def

lemma sys_invE:
  assumes "sys_inv s"
  obtains sqes cqes sh st ch ct where
    "m_sqes (ring s) = Some sqes" "m_cqes (ring s) = Some cqes" "m_sq_head (ring s) = Some sh"
    "m_sq_tail (ring s) = Some st" "m_cq_head (ring s) = Some ch" "m_cq_tail (ring s) = Some ct"
    "m_queue_depth (ring s) \<noteq> 0" "m_lock (ring s)"
    "ring_inv (m_queue_depth (ring s)) (sqes, sh, st)" "ring_inv (m_queue_depth (ring s)) (cqes, ch, ct)"
    "\<forall>h. holding s = Some h \<longrightarrow> holder_ok (m_queue_depth (ring s)) (sqes, sh, st) (cqes, ch, ct) h"
    "poller_ok (m_queue_depth (ring s)) (sqes, sh, st) (cqes, ch, ct) (polling s 0)"
    "\<forall>i. i \<noteq> 0 \<longrightarrow> polling s i = PIdle" "history_ok s"
proof -
  have inv: "uring_inv (ring s)" using assms by (simp add: sys_inv_def)
  show ?thesis
    by (rule uring_invE [OF inv], rule that) (use assms in \<open>auto simp: sys_inv_def uring_inv_def\<close>)
qed

text \<open>Accesses that only read.\<close>

lemma sys_inv_hold:
  "\<lbrakk>sys_inv s; holder_ok (m_queue_depth (ring s)) (sq (ring s)) (cq (ring s)) h\<rbrakk> \<Longrightarrow> sys_inv (hold h s)"
  by (simp add: sys_inv_def hold_def history_ok_def pipeline_def)

lemma sys_inv_unlock: "sys_inv s \<Longrightarrow> sys_inv (s\<lparr>holding := None\<rparr>)"
  by (simp add: sys_inv_def history_ok_def pipeline_def)

lemma sys_inv_at_poll:
  "\<lbrakk>sys_inv s; poller_ok (m_queue_depth (ring s)) (sq (ring s)) (cq (ring s)) p; in_hand p = in_hand (polling s 0)\<rbrakk>
     \<Longrightarrow> sys_inv (at_poll 0 p s)"
  by (simp add: sys_inv_def at_poll_def history_ok_def pipeline_def)

lemma holder_step_inv:
  assumes inv: "sys_inv s" and h: "holding s = Some h" and step: "holder_step h s = Some s'"
  shows "sys_inv s'"
proof -
  obtain sqes cqes sh st ch ct where u: "m_sqes (ring s) = Some sqes" "m_cqes (ring s) = Some cqes"
    "m_sq_head (ring s) = Some sh" "m_sq_tail (ring s) = Some st" "m_cq_head (ring s) = Some ch"
    "m_cq_tail (ring s) = Some ct" "m_queue_depth (ring s) \<noteq> 0" "m_lock (ring s)"
    and rings: "ring_inv (m_queue_depth (ring s)) (sqes, sh, st)" "ring_inv (m_queue_depth (ring s)) (cqes, ch, ct)"
    and hk: "\<forall>h. holding s = Some h \<longrightarrow> holder_ok (m_queue_depth (ring s)) (sqes, sh, st) (cqes, ch, ct) h"
    and pk: "poller_ok (m_queue_depth (ring s)) (sqes, sh, st) (cqes, ch, ct) (polling s 0)"
    and rest: "\<forall>i. i \<noteq> 0 \<longrightarrow> polling s i = PIdle" "history_ok s"
    by (rule sys_invE [OF inv])
  note ok = hk [rule_format, OF h] and keep = poller_ok_holder [OF pk rings]
  show ?thesis
  proof (cases h)
    case (SubSlot e tail)
    then have room: "tail = st" "st - sh < m_queue_depth (ring s)" using ok by auto
    show ?thesis
      using step SubSlot u rings pk rest keep(1) [OF room(2)] write_free_slot [OF rings(1) room(2)] room
      by (auto simp: sys_defs next_index_def Let_def)
  next
    case (SubStore e tail)
    then have room: "tail = st" "st - sh < m_queue_depth (ring s)" "sqes ! unat (st mod m_queue_depth (ring s)) = e"
      using ok by auto
    have "history_ok s'"
      by (rule history_accept [OF rest(2)])
        (use step SubStore u publish_slot [OF rings(1) room(2,3)] room(1) in \<open>auto simp: sys_defs\<close>)
    then show ?thesis
      using step SubStore u rings pk rest(1) keep(2) [OF room(2)] publish_slot(1) [OF rings(1) room(2,3)] room(1)
      by (auto simp: sys_inv_def uring_inv_def sq_def cq_def hold_def)
  next
    case (GetStore head c)
    then have ne: "head = ch" "ch \<noteq> ct" "cqes ! unat (ch mod m_queue_depth (ring s)) = c" using ok by auto
    show ?thesis
      using step GetStore u rings pk rest keep(3) [OF ne(2)] take_front [OF rings(2) ne(2)] ne
      by (auto simp: sys_defs)
  qed (use step u ok sys_inv_hold [OF inv] sys_inv_unlock [OF inv]
    in \<open>auto simp: sq_def cq_def next_index_def Let_def split: if_splits\<close>)
qed

lemma poller_step_inv:
  assumes inv: "sys_inv s" and step: "poller_step 0 (polling s 0) s = Some s'"
  shows "sys_inv s'"
proof -
  obtain sqes cqes sh st ch ct where u: "m_sqes (ring s) = Some sqes" "m_cqes (ring s) = Some cqes"
    "m_sq_head (ring s) = Some sh" "m_sq_tail (ring s) = Some st" "m_cq_head (ring s) = Some ch"
    "m_cq_tail (ring s) = Some ct" "m_queue_depth (ring s) \<noteq> 0" "m_lock (ring s)"
    and rings: "ring_inv (m_queue_depth (ring s)) (sqes, sh, st)" "ring_inv (m_queue_depth (ring s)) (cqes, ch, ct)"
    and hk: "\<forall>h. holding s = Some h \<longrightarrow> holder_ok (m_queue_depth (ring s)) (sqes, sh, st) (cqes, ch, ct) h"
    and ok: "poller_ok (m_queue_depth (ring s)) (sqes, sh, st) (cqes, ch, ct) (polling s 0)"
    and rest: "\<forall>i. i \<noteq> 0 \<longrightarrow> polling s i = PIdle" "history_ok s"
    by (rule sys_invE [OF inv])
  note keep = holder_ok_poller [OF hk [rule_format] rings]
  show ?thesis
  proof (cases "polling s 0")
    case (PSqHead head e)
    then have ne: "head = sh" "sh \<noteq> st" "sqes ! unat (sh mod m_queue_depth (ring s)) = e" using ok by auto
    show ?thesis
      using step PSqHead u rings rest keep(1) [OF _ ne(2)] take_front [OF rings(1) ne(2)] ne
      by (auto simp: sys_defs)
  next
    case (PCqTail e head)
    show ?thesis
    proof (cases "m_queue_depth (ring s) \<le> ct - head")
      case True
      have "history_ok s'"
        by (rule history_drop [OF rest(2), of "delivered s @ map delivered_as (comps (uring_abs (ring s)))"
              "outcome e" "map outcome (subs (uring_abs (ring s)))"])
          (use step PCqTail True u in \<open>auto simp: sys_defs\<close>)
      then show ?thesis
        using step PCqTail True u rings hk rest(1)
        by (auto simp: sys_inv_def uring_inv_def sq_def cq_def at_poll_def)
    next
      case False
      then show ?thesis using step PCqTail u ok sys_inv_at_poll [OF inv, of "PCqe e ct"] by (simp add: sq_def cq_def)
    qed
  next
    case (PCqe e tail)
    then have room: "tail = ct" "ct - ch < m_queue_depth (ring s)" using ok by auto
    show ?thesis
      using step PCqe u rings rest keep(2) [OF _ room(2)] write_free_slot [OF rings(2) room(2)] room
      by (auto simp: sys_defs next_index_def Let_def complete_def)
  next
    case (PStore e tail)
    then have room: "tail = ct" "ct - ch < m_queue_depth (ring s)"
      "cqes ! unat (ct mod m_queue_depth (ring s)) = complete e" using ok by auto
    show ?thesis
      using step PStore u rings rest keep(3) [OF _ room(2)] publish_slot [OF rings(2) room(2,3)] room(1)
      by (auto simp: sys_defs complete_def)
  qed (use step u ok sys_inv_at_poll [OF inv]
    in \<open>auto simp: sq_def cq_def next_index_def Let_def split: if_splits\<close>)
qed

text \<open>The schedules in which one poll runs at a time, here the poller number 0.\<close>

fun one_poller :: "uring_act \<Rightarrow> bool" where
  "one_poller (EnterPoll i) = (i = 0)"
| "one_poller (PollStep i) = (i = 0)"
| "one_poller a = True"

lemma sys_inv_ring_on:
  assumes "sys_inv s" and "u = (ring s)\<lparr>m_running := b\<rparr>"
  shows "sys_inv (s\<lparr>ring := u\<rparr>)"
  using assms by (auto simp: sys_defs)

lemma start_eq: "uring_inv u \<Longrightarrow> start u = u\<lparr>m_running := True\<rparr>"
  by (erule uring_invE) (simp add: start_def)

lemma uring_step_inv:
  assumes inv: "sys_inv s" and one: "one_poller a" and step: "uring_step a s = Some s'"
  shows "sys_inv s'"
proof (cases a)
  case DoStart
  have "uring_inv (ring s)" using inv by (simp add: sys_inv_def)
  then show ?thesis using sys_inv_ring_on [OF inv start_eq] step DoStart by simp
next
  case DoStop
  then show ?thesis using sys_inv_ring_on [OF inv stop_def] step by simp
next
  case HolderStep
  then show ?thesis using holder_step_inv [OF inv] step by (auto split: option.splits)
next
  case (PollStep i)
  then show ?thesis using poller_step_inv [OF inv] step one by simp
qed (use inv one step in \<open>auto simp: sys_inv_def history_ok_def pipeline_def enter_submit_def lock_submit_def
  lock_get_def enter_poll_def Let_def sq_def cq_def split: if_splits\<close>)

lemma uring_exec_inv:
  "\<lbrakk>sys_inv s; list_all one_poller as; uring_exec as s = Some s'\<rbrakk> \<Longrightarrow> sys_inv s'"
  by (induction as arbitrary: s) (auto split: option.splits intro: uring_step_inv)

section \<open>No completion is dropped while few are outstanding\<close>

text \<open>
  At every point of the schedule at most as many accepted submissions as the ring is deep have not
  been handed out yet.
\<close>

definition few_outstanding :: "uring_sys \<Rightarrow> bool" where
  "few_outstanding s \<longleftrightarrow> length (accepted s) \<le> length (delivered s) + unat (uring_depth (ring s))"

fun within_depth :: "uring_act list \<Rightarrow> uring_sys \<Rightarrow> bool" where
  "within_depth [] s = few_outstanding s"
| "within_depth (a # as) s =
     (few_outstanding s \<and> (case uring_step a s of None \<Rightarrow> True | Some s' \<Rightarrow> within_depth as s'))"

definition no_drop :: "uring_sys \<Rightarrow> bool" where
  "no_drop s \<longleftrightarrow> dropped s = [] \<and>
     (\<forall>e h. polling s 0 = PCqTail e h \<longrightarrow> the (m_cq_tail (ring s)) - h < m_queue_depth (ring s))"

lemma holder_step_frame:
  "holder_step h s = Some s' \<Longrightarrow> polling s' = polling s \<and> dropped s' = dropped s \<and>
     m_cq_tail (ring s') = m_cq_tail (ring s) \<and> m_queue_depth (ring s') = m_queue_depth (ring s)"
  by (cases h) (auto simp: hold_def Let_def split: option.splits if_splits)

lemma completion_room:
  assumes inv: "sys_inv s" and few: "few_outstanding s" and none: "dropped s = []"
    and at: "polling s 0 = PCqHead e" and ch: "m_cq_head (ring s) = Some ch"
  shows "the (m_cq_tail (ring s)) - ch < m_queue_depth (ring s)"
proof -
  have "length (comps (uring_abs (ring s))) < unat (m_queue_depth (ring s))"
    using inv few none at by (simp add: sys_inv_def history_ok_def pipeline_def few_outstanding_def uring_depth_def)
  then show ?thesis using ch by (simp add: uring_abs_def cq_def ring_length word_less_nat_alt)
qed

lemma poller_no_drop:
  assumes inv: "sys_inv s" and few: "few_outstanding s" and none: "no_drop s"
    and step: "poller_step 0 (polling s 0) s = Some s'"
  shows "no_drop s'"
proof (cases "polling s 0")
  case (PCqHead e)
  obtain ch where ch: "m_cq_head (ring s) = Some ch" using step PCqHead by (auto split: option.splits)
  have "dropped s = []" using none by (simp add: no_drop_def)
  from completion_room [OF inv few this PCqHead ch] show ?thesis
    using none step PCqHead ch by (auto simp: no_drop_def at_poll_def)
next
  case (PCqTail e h)
  then have "the (m_cq_tail (ring s)) - h < m_queue_depth (ring s)" "dropped s = []"
    using none by (simp_all add: no_drop_def)
  then show ?thesis using step PCqTail by (auto simp: no_drop_def at_poll_def split: option.splits if_splits)
qed (use none step in \<open>auto simp: no_drop_def at_poll_def Let_def split: option.splits if_splits\<close>)

lemma uring_step_no_drop:
  assumes inv: "sys_inv s" and few: "few_outstanding s" and none: "no_drop s"
    and one: "one_poller a" and step: "uring_step a s = Some s'"
  shows "no_drop s'"
proof (cases a)
  case HolderStep
  then show ?thesis
    using step holder_step_frame [of _ s s'] none by (auto simp: no_drop_def split: option.splits)
next
  case (PollStep i)
  then show ?thesis using poller_no_drop [OF inv few none] step one by simp
qed (use none one step in \<open>auto simp: no_drop_def start_def stop_def enter_submit_def lock_submit_def
  lock_get_def enter_poll_def Let_def split: if_splits\<close>)

lemma uring_exec_no_drop:
  "\<lbrakk>sys_inv s; no_drop s; list_all one_poller as; within_depth as s; uring_exec as s = Some s'\<rbrakk> \<Longrightarrow> no_drop s'"
proof (induction as arbitrary: s)
  case (Cons a as)
  then obtain s1 where s1: "uring_step a s = Some s1" by (auto split: option.splits)
  show ?case
    using Cons.prems s1 uring_step_inv [OF Cons.prems(1) _ s1] uring_step_no_drop [OF Cons.prems(1) _ Cons.prems(2) _ s1]
    by (intro Cons.IH [of s1]) auto
qed simp

section \<open>Races and progress\<close>

text \<open>Two calls about to access one slot, one of them to write it.\<close>

definition slot_race :: "uring_sys \<Rightarrow> bool" where
  "slot_race s =
     (case (holding s, polling s 0) of
        (Some (SubSlot e tail), PSqe head) \<Rightarrow>
          next_index (m_queue_depth (ring s)) tail = next_index (m_queue_depth (ring s)) head
      | (Some (GetSlot head), PCqe e tail) \<Rightarrow>
          next_index (m_queue_depth (ring s)) tail = next_index (m_queue_depth (ring s)) head
      | _ \<Rightarrow> False)"

lemma no_slot_race:
  assumes "sys_inv s"
  shows "\<not> slot_race s"
proof -
  obtain sqes cqes sh st ch ct where u: "m_queue_depth (ring s) \<noteq> 0"
    and rings: "ring_inv (m_queue_depth (ring s)) (sqes, sh, st)" "ring_inv (m_queue_depth (ring s)) (cqes, ch, ct)"
    and ok: "\<forall>h. holding s = Some h \<longrightarrow> holder_ok (m_queue_depth (ring s)) (sqes, sh, st) (cqes, ch, ct) h"
    "poller_ok (m_queue_depth (ring s)) (sqes, sh, st) (cqes, ch, ct) (polling s 0)"
    by (rule sys_invE [OF assms])
  show ?thesis
    using ok u free_slot_front [OF rings(1)] free_slot_front [OF rings(2)]
    by (auto simp: slot_race_def next_index_def split: option.splits holder.splits poller.splits)
qed

lemma uring_progress:
  assumes "sys_inv s"
  shows "holding s \<noteq> None \<Longrightarrow> uring_step HolderStep s \<noteq> None"
    and "polling s 0 \<noteq> PIdle \<Longrightarrow> uring_step (PollStep 0) s \<noteq> None"
proof -
  obtain sqes cqes sh st ch ct where u: "m_sqes (ring s) = Some sqes" "m_cqes (ring s) = Some cqes"
    "m_sq_head (ring s) = Some sh" "m_sq_tail (ring s) = Some st" "m_cq_head (ring s) = Some ch"
    "m_cq_tail (ring s) = Some ct"
    by (rule sys_invE [OF assms])
  show "uring_step HolderStep s \<noteq> None" if held: "holding s \<noteq> None"
  proof -
    obtain h where "holding s = Some h" using held by blast
    then show ?thesis using u by (cases h) (simp_all add: Let_def)
  qed
  show "uring_step (PollStep 0) s \<noteq> None" if "polling s 0 \<noteq> PIdle"
    using that u by (cases "polling s 0") (simp_all add: Let_def)
qed

section \<open>Delivery\<close>

lemma boot_inv:
  assumes "\<And>i. new_ok i" and "0 < d" and "unat d dvd 2 ^ 32"
  shows "\<exists>u. io_uring_new new_ok raw d = Some u \<and> sys_inv (boot u) \<and> no_drop (boot u)"
proof -
  let ?u = "\<lparr>m_lock = True, m_sqes = Some (replicate (unat d) zero_sqe), m_cqes = Some (replicate (unat d) zero_cqe),
    m_queue_depth = d, m_sq_head = Some 0, m_sq_tail = Some 0, m_cq_head = Some 0, m_cq_tail = Some 0, m_running = False\<rparr>"
  have "io_uring_new new_ok raw d = Some ?u"
    using assms by (simp add: io_uring_new_def alloc_if_def Let_def)
  moreover have "sys_inv (boot ?u)" "no_drop (boot ?u)"
    using assms by (simp_all add: sys_defs boot_def ring_inv_def ring_items_def no_drop_def)
  ultimately show ?thesis by blast
qed

text \<open>
  C10. Take a fresh ring of power-of-two depth and any schedule of \<open>submit\<close>, \<open>get_completion\<close>,
  \<open>poll\<close>, \<open>start\<close> and \<open>stop\<close> calls that interleaves their memory accesses (sequentially consistent), with
  the lock held in \<open>submit\<close> and \<open>get_completion\<close> only, and with at most one \<open>poll\<close> at a time. The completions
  handed out, then those in the completion ring, the submission in \<open>poll\<close>'s hands and the submission
  ring are, in this order, outcomes of accepted submissions, each at most once and in the order of
  acceptance; as many are missing as completions were dropped; and none is missing when at no point
  of the schedule more submissions than the ring is deep are accepted but not handed out. No slot is
  read and written at once, and no access of a started call ever blocks.
\<close>

theorem io_uring_concurrent_delivery:
  assumes "\<And>i. new_ok i" and "0 < d" and "unat d dvd 2 ^ 32" and "list_all one_poller as"
  shows "\<exists>u. io_uring_new new_ok raw d = Some u \<and>
    (\<forall>s. uring_exec as (boot u) = Some s \<longrightarrow>
       subseq (pipeline s) (map outcome (accepted s)) \<and>
       length (pipeline s) + length (dropped s) = length (accepted s) \<and>
       (within_depth as (boot u) \<longrightarrow> pipeline s = map outcome (accepted s)) \<and>
       \<not> slot_race s \<and>
       (holding s \<noteq> None \<longrightarrow> uring_step HolderStep s \<noteq> None) \<and>
       (polling s 0 \<noteq> PIdle \<longrightarrow> uring_step (PollStep 0) s \<noteq> None))"
proof -
  obtain u where u: "io_uring_new new_ok raw d = Some u" "sys_inv (boot u)" "no_drop (boot u)"
    using boot_inv [of new_ok d raw, OF assms(1-3)] by blast
  have end_ok: "subseq (pipeline s) (map outcome (accepted s)) \<and>
       length (pipeline s) + length (dropped s) = length (accepted s) \<and>
       (within_depth as (boot u) \<longrightarrow> pipeline s = map outcome (accepted s)) \<and> \<not> slot_race s \<and>
       (holding s \<noteq> None \<longrightarrow> uring_step HolderStep s \<noteq> None) \<and>
       (polling s 0 \<noteq> PIdle \<longrightarrow> uring_step (PollStep 0) s \<noteq> None)"
    if run: "uring_exec as (boot u) = Some s" for s
  proof -
    note inv = uring_exec_inv [OF u(2) assms(4) run]
    then have hist: "subseq (pipeline s) (map outcome (accepted s))"
      "length (pipeline s) + length (dropped s) = length (accepted s)"
      by (simp_all add: sys_inv_def history_ok_def)
    have "pipeline s = map outcome (accepted s)" if "within_depth as (boot u)"
      using uring_exec_no_drop [OF u(2,3) assms(4) that run] hist
      by (intro subseq_same_length) (simp_all add: no_drop_def)
    then show ?thesis using hist no_slot_race [OF inv] uring_progress [OF inv] by blast
  qed
  then show ?thesis using u(1) by blast
qed

text \<open>
  A poll that starts between the two submissions and is overtaken by the second one, then both
  completions are read.
\<close>

definition demo_schedule :: "uring_act list" where
  "demo_schedule = [DoStart, EnterSubmit (demo_sqe 1), EnterSubmit (demo_sqe 7), LockSubmit (demo_sqe 1)] @
     replicate 5 HolderStep @ [EnterPoll 0, PollStep 0, LockSubmit (demo_sqe 7), HolderStep, PollStep 0, PollStep 0] @
     replicate 4 HolderStep @ replicate 15 (PollStep 0) @ [LockGet] @ replicate 5 HolderStep @ [LockGet] @
     replicate 5 HolderStep"

lemma demo_schedule_runs:
  "case io_uring_new (\<lambda>_. True) \<lparr>raw_sqe = zero_sqe, raw_cqe = zero_cqe, raw_cell = (\<lambda>i. 0)\<rparr> 2 of
     None \<Rightarrow> False
   | Some u \<Rightarrow> (case uring_exec demo_schedule (boot u) of None \<Rightarrow> False
       | Some s \<Rightarrow> delivered s = [outcome (demo_sqe 1), outcome (demo_sqe 7)] \<and> within_depth demo_schedule (boot u))"
  by code_simp

theorem io_uring_concurrent_delivery_witness:
  "\<exists>u s. io_uring_new (\<lambda>_. True) \<lparr>raw_sqe = zero_sqe, raw_cqe = zero_cqe, raw_cell = (\<lambda>i. 0)\<rparr> 2 = Some u \<and>
     uring_exec demo_schedule (boot u) = Some s \<and> pipeline s = map outcome (accepted s) \<and>
     delivered s = [outcome (demo_sqe 1), outcome (demo_sqe 7)]"
proof -
  have "list_all one_poller demo_schedule" by (simp add: demo_schedule_def list_all_iff)
  from io_uring_concurrent_delivery [of "\<lambda>_. True" 2 demo_schedule "\<lparr>raw_sqe = zero_sqe, raw_cqe = zero_cqe, raw_cell = (\<lambda>i. 0)\<rparr>", OF _ _ _ this]
  show ?thesis using demo_schedule_runs by (auto split: option.splits)
qed

text \<open>
  Two polls at once complete one submission twice: both copy the entry before either advances the
  head.
\<close>

lemma two_polls_duplicate:
  "case io_uring_new (\<lambda>_. True) \<lparr>raw_sqe = zero_sqe, raw_cqe = zero_cqe, raw_cell = (\<lambda>i. 0)\<rparr> 2 of
     None \<Rightarrow> False
   | Some u \<Rightarrow>
       (case uring_exec ([DoStart, EnterSubmit (demo_sqe 1), LockSubmit (demo_sqe 1)] @ replicate 5 HolderStep @
            [EnterPoll 0, EnterPoll 1, PollStep 0, PollStep 1, PollStep 0, PollStep 1, PollStep 0, PollStep 1] @
            replicate 5 (PollStep 0) @ replicate 5 (PollStep 1)) (boot u) of
          None \<Rightarrow> False
        | Some s \<Rightarrow> accepted s = [demo_sqe 1] \<and>
            map delivered_as (comps (uring_abs (ring s))) = [outcome (demo_sqe 1), outcome (demo_sqe 1)])"
  by code_simp

end
