(* ===== verification/Allocator.thy ===== *)
theory Allocator
  imports Prelude
begin

unbundle bit_operations_syntax

text \<open>
  The kernel heap of \<^verbatim>\<open>kernel/allocator.cpp\<close>: an arena of blocks laid end to end from its base up to
  \<open>heap_off\<close>, each starting with a 16-byte header, allocated first-fit with splitting and freed with
  coalescing. Addresses and sizes are 64-bit words. The memory the allocator reads and writes is the
  function \<open>hdr\<close> from the address of a header to its contents: headers lie at multiples of 16 from the
  arena's base, so two of them never overlap partly, and the payload bytes are not represented.
  \<^const>\<open>None\<close> is a run that does not return, which only a damaged chain of headers can cause.
\<close>

section \<open>Data\<close>

record header =
  hsize :: u64
  isFree :: bool

record alloc_record =
  total :: u64
  used :: u64
  offset :: u64
  peak :: u64
  alloc_count :: u64
  free_count :: u64
  alloc_failed :: u64
  free_rejected :: u64
  reset_count :: u64

definition zero_record :: alloc_record where
  "zero_record = \<lparr>total = 0, used = 0, offset = 0, peak = 0, alloc_count = 0, free_count = 0,
     alloc_failed = 0, free_rejected = 0, reset_count = 0\<rparr>"

record heap =
  heap_base :: u64
  heap_size :: u64
  heap_off :: u64
  hdr :: "u64 \<Rightarrow> header"
  arec :: alloc_record

definition sizeof_header :: u64 where "sizeof_header = 16"
definition alignof_header :: u64 where "alignof_header = 8"
definition GRANULARITY :: u64 where "GRANULARITY = sizeof_header"
definition ARENA_ALIGNMENT :: u64 where "ARENA_ALIGNMENT = 4 * 1024"

section \<open>Operations\<close>

definition record_alloc :: "u64 \<Rightarrow> heap \<Rightarrow> heap" where
  "record_alloc bytes s =
     (let r = arec s; r = r\<lparr>alloc_count := alloc_count r + 1\<rparr>; r = r\<lparr>used := used r + bytes\<rparr>
      in s\<lparr>arec := (if peak r < used r then r\<lparr>peak := used r\<rparr> else r)\<rparr>)"

definition is_power_of_2 :: "u64 \<Rightarrow> bool" where
  "is_power_of_2 x \<longleftrightarrow> x \<noteq> 0 \<and> x AND (x - 1) = 0"

definition align_up :: "u64 \<Rightarrow> u64 \<Rightarrow> u64" where
  "align_up v a = (if \<not> is_power_of_2 a then 0 else (v + (a - 1)) AND NOT (a - 1))"

definition heap_init :: "u64 \<Rightarrow> u64 \<Rightarrow> heap \<Rightarrow> heap" where
  "heap_init base sz s =
     (let aligned_addr = align_up base ARENA_ALIGNMENT;
          lost = aligned_addr - base
      in if sz \<le> lost then s\<lparr>heap_base := 0, arec := zero_record\<rparr>
         else s\<lparr>heap_base := aligned_addr, heap_size := sz - lost, heap_off := 0,
                arec := zero_record\<lparr>total := sz - lost\<rparr>\<rparr>)"

definition set_hdr :: "u64 \<Rightarrow> u64 \<Rightarrow> bool \<Rightarrow> heap \<Rightarrow> heap" where
  "set_hdr a n f s = s\<lparr>hdr := (hdr s)(a := \<lparr>hsize = n, isFree = f\<rparr>)\<rparr>"

definition fail_alloc :: "heap \<Rightarrow> heap \<times> u64" where
  "fail_alloc s = (s\<lparr>arec := (arec s)\<lparr>alloc_failed := alloc_failed (arec s) + 1\<rparr>\<rparr>, 0)"

text \<open>Carving a block out of the free block at \<open>scan\<close>, \<open>difference\<close> bytes into it.\<close>

definition carve :: "u64 \<Rightarrow> u64 \<Rightarrow> u64 \<Rightarrow> heap \<Rightarrow> heap \<times> u64" where
  "carve scan difference block_length s =
     (let h = hdr s (heap_base s + scan);
          lead_in_offset = difference + scan;
          remainder = hsize h - difference - block_length;
          s = (if 0 < difference then set_hdr (heap_base s + scan) difference True s else s);
          (s, new_block_size) =
            (if sizeof_header \<le> remainder
             then (set_hdr (heap_base s + lead_in_offset + block_length) remainder True s, block_length)
             else (s, block_length + remainder));
          s = set_hdr (heap_base s + lead_in_offset) new_block_size False s
      in (record_alloc new_block_size s, heap_base s + lead_in_offset + sizeof_header))"

text \<open>The first-fit scan; the inner \<^const>\<open>None\<close> is the loop that finds no block.\<close>

partial_function (option) alloc_scan :: "u64 \<Rightarrow> u64 \<Rightarrow> heap \<Rightarrow> u64 \<Rightarrow> (heap \<times> u64) option option" where
  "alloc_scan align block_length s scan =
     (if \<not> scan < heap_off s then Some None
      else
        let h = hdr s (heap_base s + scan);
            payload = heap_base s + scan + sizeof_header;
            difference = align_up payload align - payload
        in if isFree h \<and> difference + block_length \<le> hsize h then
             if 0 < difference \<and> difference < sizeof_header
             then alloc_scan align block_length s (scan + hsize h)
             else Some (Some (carve scan difference block_length s))
           else if hsize h \<noteq> 0 then alloc_scan align block_length s (scan + hsize h)
           else Some None)"

text \<open>Taking the block from the untouched end of the arena.\<close>

definition alloc_end :: "u64 \<Rightarrow> u64 \<Rightarrow> heap \<Rightarrow> heap \<times> u64" where
  "alloc_end align block_length s =
     (let base = heap_base s;
          payload = align_up (base + heap_off s + sizeof_header) align;
          off = payload - base - sizeof_header
      in if heap_size s < block_length \<or> heap_size s - block_length < off then fail_alloc s
         else
           let s = (if heap_off s < off then set_hdr (base + heap_off s) (off - heap_off s) True s else s);
               s = set_hdr (base + off) block_length False s;
               s = s\<lparr>heap_off := off + block_length\<rparr>
           in (record_alloc block_length s, base + off + sizeof_header))"

definition alloc :: "u64 \<Rightarrow> u64 \<Rightarrow> heap \<Rightarrow> (heap \<times> u64) option" where
  "alloc sz align s =
     (let align = (if align < GRANULARITY then GRANULARITY else align)
      in if heap_base s = 0 \<or> heap_size s < sz \<or> \<not> is_power_of_2 align then Some (fail_alloc s)
         else
           let block_length = align_up (sizeof_header + sz) GRANULARITY
           in (case alloc_scan align block_length s 0 of
                 None \<Rightarrow> None
               | Some (Some r) \<Rightarrow> Some r
               | Some None \<Rightarrow> Some (alloc_end align block_length s)))"

definition reject :: "heap \<Rightarrow> heap" where
  "reject s = s\<lparr>arec := (arec s)\<lparr>free_rejected := free_rejected (arec s) + 1\<rparr>\<rparr>"

text \<open>The loop of \<open>free\<close> that absorbs the free blocks after the block at \<open>off\<close>.\<close>

partial_function (option) absorb :: "u64 \<Rightarrow> heap \<Rightarrow> heap option" where
  "absorb off s =
     (let h = hdr s (heap_base s + off);
          total_off = off + hsize h
      in if heap_off s \<le> total_off then Some s
         else
           let next = hdr s (heap_base s + total_off)
           in if \<not> isFree next then Some s
              else absorb off (set_hdr (heap_base s + off) (hsize h + hsize next) (isFree h) s))"

text \<open>The loop of \<open>free\<close> that looks for the block before the block at \<open>off\<close>: the final \<open>scan\<close> and \<open>prev_off\<close>.\<close>

partial_function (option) find_prev :: "heap \<Rightarrow> u64 \<Rightarrow> u64 \<Rightarrow> u64 \<Rightarrow> (u64 \<times> u64) option" where
  "find_prev s off scan prev_off =
     (if \<not> scan < off then Some (scan, prev_off)
      else
        let b = hdr s (heap_base s + scan)
        in if hsize b = 0 \<or> off < scan + hsize b then Some (scan, prev_off)
           else find_prev s off (scan + hsize b) scan)"

text \<open>The end of \<open>free\<close>: merging the block before, and giving the arena's last block back.\<close>

definition merge_prev :: "u64 \<Rightarrow> u64 \<Rightarrow> u64 \<Rightarrow> u64 \<Rightarrow> heap \<Rightarrow> heap" where
  "merge_prev a header_offset scan prev_off s =
     (let prev = hdr s (heap_base s + prev_off);
          (s, header_offset) =
            (if scan = header_offset \<and> prev_off \<noteq> header_offset \<and> isFree prev
             then (set_hdr (heap_base s + prev_off) (hsize prev + hsize (hdr s a)) True s, prev_off)
             else (s, header_offset))
      in if header_offset + hsize (hdr s (heap_base s + header_offset)) = heap_off s
         then s\<lparr>heap_off := header_offset\<rparr> else s)"

text \<open>The part of \<open>free\<close> after the checks: \<open>a\<close> is the address of the header at \<open>header_offset\<close>.\<close>

definition release :: "u64 \<Rightarrow> u64 \<Rightarrow> heap \<Rightarrow> heap option" where
  "release a header_offset s = do {
     let h = hdr s a;
     let s = set_hdr a (hsize h) True s;
     let r = arec s;
     let s = s\<lparr>arec := r\<lparr>free_count := free_count r + 1,
                 used := (if hsize h \<le> used r then used r - hsize h else 0)\<rparr>\<rparr>;
     s \<leftarrow> absorb header_offset s;
     (scan, prev_off) \<leftarrow> find_prev s header_offset 0 header_offset;
     Some (merge_prev a header_offset scan prev_off s)
   }"

text \<open>
  \<open>free\<close>. A header offset that is a multiple of 8 and not of 16 passes the source's check; it would
  read bytes of two neighbouring headers, which this memory does not represent: no result.
\<close>

definition free :: "u64 \<Rightarrow> heap \<Rightarrow> heap option" where
  "free ptr s =
     (if ptr = 0 then Some s
      else if heap_base s = 0 then Some (reject s)
      else
        let a = ptr - sizeof_header;
            header_offset = a - heap_base s;
            h = hdr s a
        in if heap_off s \<le> header_offset \<or> header_offset mod alignof_header \<noteq> 0 then Some (reject s)
           else if header_offset mod sizeof_header \<noteq> 0 then None
           else if hsize h = 0 \<or> heap_off s - header_offset < hsize h \<or> isFree h then Some (reject s)
           else release a header_offset s)"

definition heap_reset :: "heap \<Rightarrow> heap" where
  "heap_reset s = s\<lparr>heap_off := 0, arec := (arec s)\<lparr>used := 0, reset_count := reset_count (arec s) + 1\<rparr>\<rparr>"

definition get_record :: "heap \<Rightarrow> heap \<times> alloc_record" where
  "get_record s = (let s = s\<lparr>arec := (arec s)\<lparr>offset := heap_off s\<rparr>\<rparr> in (s, arec s))"

definition operator_new :: "u64 \<Rightarrow> heap \<Rightarrow> (heap \<times> u64) option" where
  "operator_new sz s = alloc sz 16 s"

definition operator_delete :: "u64 \<Rightarrow> heap \<Rightarrow> heap option" where
  "operator_delete ptr s = free ptr s"

section \<open>Alignment\<close>

text \<open>
  \<open>align_up v a\<close> adds the slack \<open>(a - v mod a) mod a\<close> to \<open>v\<close>, for every power of two \<open>a\<close> and also
  when the sum wraps around.
\<close>

lemma nat_power_of_2:
  fixes n :: nat
  assumes "0 < n" and "n AND (n - 1) = 0"
  shows "\<exists>k. n = 2 ^ k"
  using assms
proof (induction n rule: less_induct)
  case (less n)
  show ?case
  proof (cases "even n")
    case True
    then obtain m where m: "n = 2 * m" by blast
    then have pos: "0 < m" using less.prems by simp
    have "n - 1 = 2 * (m - 1) + 1" using m pos by simp
    then have "n AND (n - 1) = 2 * (m AND (m - 1))"
      using m by (simp add: and_nat_rec [of "2 * m"])
    then have "m AND (m - 1) = 0" using less.prems by simp
    then obtain k where "m = 2 ^ k" using less.IH [of m] pos m by auto
    then have "n = 2 ^ Suc k" using m by simp
    then show ?thesis by blast
  next
    case False
    then obtain m where m: "n = 2 * m + 1" by (auto elim: oddE)
    then have "n AND (n - 1) = 2 * m" by (simp add: and_nat_rec [of "Suc (2 * m)"])
    then have "n = 2 ^ 0" using less.prems m by simp
    then show ?thesis by blast
  qed
qed

lemma is_power_of_2E:
  assumes "is_power_of_2 a"
  obtains k where "k < 64" "a = 2 ^ k" "unat a = 2 ^ k"
proof -
  have pos: "0 < unat a" using assms by (simp add: is_power_of_2_def unat_gt_0)
  have "unat a AND unat (a - 1) = unat (a AND (a - 1))" by (simp only: unsigned_and_eq)
  moreover have "unat (a - 1) = unat a - 1" using assms by (intro unat_minus_one) (simp add: is_power_of_2_def)
  ultimately have "unat a AND (unat a - 1) = 0" using assms by (simp add: is_power_of_2_def)
  then obtain k where k: "unat a = 2 ^ k" using nat_power_of_2 [OF pos] by blast
  have "(2 :: nat) ^ k < 2 ^ 64" using unsigned_less [of a, where ?'a = nat] by (simp add: k)
  then have "k < 64" by (rule power_less_imp_less_exp [rotated]) simp
  moreover have "a = 2 ^ k" using arg_cong [OF k, of "of_nat :: nat \<Rightarrow> u64"] by simp
  ultimately show ?thesis using that k by blast
qed

lemma power_dvd_range:
  assumes "is_power_of_2 a"
  shows "unat a dvd 2 ^ 64" and "unat a \<le> 2 ^ 63" and "0 < unat a"
proof -
  obtain k where k: "k < 64" "unat a = 2 ^ k" using is_power_of_2E [OF assms] by blast
  show "unat a dvd 2 ^ 64" unfolding k(2) by (rule le_imp_power_dvd) (use k in simp)
  show "unat a \<le> 2 ^ 63" unfolding k(2) by (rule power_increasing) (use k in simp_all)
  show "0 < unat a" by (simp add: k(2))
qed

definition slack :: "nat \<Rightarrow> nat \<Rightarrow> nat" where
  "slack a v = (a - v mod a) mod a"

lemma mask_split: "(x :: u64) AND NOT (mask k) = x - take_bit k x"
proof -
  have "take_bit k x + (x AND NOT (mask k)) = take_bit k x OR (x AND NOT (mask k))"
    by (rule disjunctive_add) (simp add: bit_simps)
  also have "\<dots> = x" by (rule bit_eqI) (auto simp: bit_simps)
  finally show ?thesis by (simp add: algebra_simps)
qed

lemma slack_eq:
  assumes "0 < a"
  shows "(a - 1) - (v + (a - 1)) mod a = slack a v"
proof (cases "v mod a = 0")
  case True
  then have "(v + (a - 1)) mod a = (a - 1) mod a" by (metis mod_add_left_eq add_0)
  then show ?thesis using True assms by (simp add: slack_def)
next
  case False
  have lt: "v mod a < a" using assms by simp
  have "(v + (a - 1)) mod a = (v mod a + (a - 1)) mod a" by (simp add: mod_add_left_eq)
  also have "v mod a + (a - 1) = (v mod a - 1) + a" using False assms by simp
  also have "\<dots> mod a = v mod a - 1" using lt by (simp only: mod_add_self2 mod_less less_imp_diff_less)
  finally show ?thesis using False lt by (simp add: slack_def)
qed

lemma align_up_slack:
  assumes "is_power_of_2 a"
  shows "unat (align_up v a - v) = slack (unat a) (unat v)"
proof -
  obtain k where k: "k < 64" "a = 2 ^ k" and ua: "unat a = 2 ^ k" using is_power_of_2E [OF assms] by blast
  have m: "a - 1 = mask k" by (simp add: k mask_eq_exp_minus_1)
  let ?w = "v + mask k"
  have mask: "unat (mask k :: u64) = 2 ^ k - 1"
    using ua unat_minus_one [of a] assms by (simp add: m [symmetric] is_power_of_2_def)
  have low: "unat (take_bit k ?w) = (unat v + (2 ^ k - 1)) mod 2 ^ k"
  proof -
    have "unat ?w = (unat v + (2 ^ k - 1)) mod 2 ^ 64"
      using mask by (simp add: unat_word_ariths(1))
    moreover have "(2 :: nat) ^ k dvd 2 ^ 64" using k by (intro le_imp_power_dvd) simp
    moreover have "unat (take_bit k ?w) = unat ?w mod 2 ^ k"
      by (simp only: unsigned_take_bit_eq) (simp only: take_bit_eq_mod)
    ultimately show ?thesis by (simp only: mod_mod_cancel)
  qed
  have "align_up v a - v = mask k - take_bit k ?w"
    using assms by (simp add: align_up_def m mask_split)
  moreover have "take_bit k ?w \<le> mask k"
    unfolding word_le_nat_alt mask low by (simp add: less_Suc_eq_le [symmetric])
  ultimately have "unat (align_up v a - v) = unat (mask k :: u64) - unat (take_bit k ?w)"
    by (simp add: unat_sub)
  then show ?thesis unfolding mask low ua using slack_eq [of "2 ^ k" "unat v"] by simp
qed

lemma slack_less: "0 < a \<Longrightarrow> slack a v < a"
  by (simp add: slack_def)

lemma slack_aligns:
  assumes "0 < a"
  shows "a dvd v + slack a v"
proof (cases "v mod a = 0")
  case True
  then show ?thesis using assms by (simp add: slack_def mod_eq_0_iff_dvd)
next
  case False
  have "slack a v = a - v mod a" using False assms by (simp add: slack_def)
  moreover have "v = v div a * a + v mod a" by simp
  ultimately have "v + slack a v = v div a * a + a"
    using mod_less_divisor [OF assms, of v] by linarith
  then show ?thesis by simp
qed

lemma slack_dvd: "\<lbrakk>d dvd a; d dvd v; 0 < a\<rbrakk> \<Longrightarrow> d dvd slack a v"
  by (meson slack_aligns dvd_trans dvd_add_right_iff)

lemma slack_zero: "\<lbrakk>0 < a; a dvd v\<rbrakk> \<Longrightarrow> slack a v = 0"
  by (simp add: slack_def)

lemma align_up_eq: "is_power_of_2 a \<Longrightarrow> align_up v a = v + of_nat (slack (unat a) (unat v))"
  by (simp add: align_up_slack [symmetric])

lemma power_16:
  assumes "is_power_of_2 a" and "16 \<le> unat a"
  shows "16 dvd unat a"
proof -
  obtain k where k: "unat a = 2 ^ k" using is_power_of_2E [OF assms(1)] by blast
  have "(2 :: nat) ^ 4 \<le> 2 ^ k" using assms(2) k by simp
  then have "4 \<le> k" by (rule power_le_imp_le_exp [rotated]) simp
  then have "(2 :: nat) ^ 4 dvd 2 ^ k" by (rule le_imp_power_dvd)
  then show ?thesis by (simp add: k)
qed

end
