(* ===== verification/Heap_Blocks.thy ===== *)
theory Heap_Blocks
  imports Allocator
begin

text \<open>
  The heap of theory \<open>Allocator\<close> as a list of blocks: the abstract first-fit allocator on such lists,
  the invariant that ties a list to the chain of headers, and the proof that \<open>alloc\<close> and \<open>free\<close>
  implement the list operations without ever leaving a damaged chain.
\<close>

section \<open>Lists of blocks\<close>

text \<open>A block is its length, header included, and whether it is free.\<close>

type_synonym block = "nat \<times> bool"

definition tot :: "block list \<Rightarrow> nat" where
  "tot bs = sum_list (map fst bs)"

lemma tot_simps [simp]: "tot [] = 0" "tot (b # bs) = fst b + tot bs" "tot (xs @ ys) = tot xs + tot ys"
  by (simp_all add: tot_def)

definition sizes_ok :: "block list \<Rightarrow> bool" where
  "sizes_ok bs \<longleftrightarrow> (\<forall>b \<in> set bs. 0 < fst b \<and> 16 dvd fst b)"

lemma sizes_ok_simps [simp]:
  "sizes_ok []" "sizes_ok (b # bs) \<longleftrightarrow> 0 < fst b \<and> 16 dvd fst b \<and> sizes_ok bs"
  "sizes_ok (xs @ ys) \<longleftrightarrow> sizes_ok xs \<and> sizes_ok ys"
  by (auto simp: sizes_ok_def)

lemma sizes_ok_dvd: "sizes_ok bs \<Longrightarrow> 16 dvd tot bs"
  by (induction bs) auto

text \<open>No two free blocks are adjacent and the last block is in use.\<close>

fun canon :: "block list \<Rightarrow> bool" where
  "canon [] = True"
| "canon [b] = (\<not> snd b)"
| "canon (b # c # bs) = (\<not> (snd b \<and> snd c) \<and> canon (c # bs))"

text \<open>The blocks in use, with their offsets.\<close>

fun live_from :: "nat \<Rightarrow> block list \<Rightarrow> (nat \<times> nat) list" where
  "live_from k [] = []"
| "live_from k ((n, f) # bs) = (if f then [] else [(k, n)]) @ live_from (k + n) bs"

lemma live_from_append [simp]: "live_from k (xs @ ys) = live_from k xs @ live_from (k + tot xs) ys"
  by (induction k xs rule: live_from.induct) (auto simp: ac_simps)

lemma live_range: "(p, n) \<in> set (live_from k bs) \<Longrightarrow> k \<le> p \<and> p + n \<le> k + tot bs"
  by (induction k bs rule: live_from.induct) (auto split: if_splits)

lemma live_split:
  "(p, n) \<in> set (live_from k bs) \<Longrightarrow> \<exists>xs ys. bs = xs @ (n, False) # ys \<and> p = k + tot xs"
proof (induction k bs rule: live_from.induct)
  case (2 k m f bs)
  show ?case
  proof (cases "\<not> f \<and> (p, n) = (k, m)")
    case True
    then show ?thesis by (intro exI [of _ "[]"] exI [of _ bs]) auto
  next
    case False
    then obtain xs ys where "bs = xs @ (n, False) # ys" "p = k + m + tot xs"
      using 2 by (auto split: if_splits)
    then show ?thesis by (intro exI [of _ "(m, f) # xs"] exI [of _ ys]) auto
  qed
qed simp

lemma live_disjoint:
  assumes "(p, n) \<in> set (live_from k bs)" and "(q, m) \<in> set (live_from k bs)" and "(p, n) \<noteq> (q, m)"
  shows "p + n \<le> q \<or> q + m \<le> p"
  using assms
proof (induction k bs rule: live_from.induct)
  case (2 k j f bs)
  then show ?case
    using live_range [of p n "k + j" bs] live_range [of q m "k + j" bs] by (auto split: if_splits)
qed simp

definition in_use :: "block list \<Rightarrow> nat" where
  "in_use bs = sum_list (map snd (live_from 0 bs))"

lemma sum_live: "sum_list (map snd (live_from k bs)) = sum_list (map fst (filter (\<lambda>b. \<not> snd b) bs))"
  by (induction k bs rule: live_from.induct) auto

lemma in_use_simps [simp]:
  "in_use [] = 0" "in_use (b # bs) = (if snd b then 0 else fst b) + in_use bs" "in_use (xs @ ys) = in_use xs + in_use ys"
  by (simp_all add: in_use_def sum_live)

lemma in_use_le: "in_use bs \<le> tot bs"
  by (induction bs) auto

section \<open>The abstract allocator\<close>

text \<open>Cutting \<open>d\<close> free bytes and a used block of \<open>l\<close> bytes off a free block of \<open>n\<close> bytes.\<close>

definition cut :: "nat \<Rightarrow> nat \<Rightarrow> nat \<Rightarrow> block list" where
  "cut d l n = (if 0 < d then [(d, True)] else []) @ (l, False) # (if d + l < n then [(n - d - l, True)] else [])"

fun a_scan :: "nat \<Rightarrow> nat \<Rightarrow> nat \<Rightarrow> nat \<Rightarrow> block list \<Rightarrow> (nat \<times> block list) option" where
  "a_scan b al l k [] = None"
| "a_scan b al l k ((n, f) # bs) =
     (let d = slack al (b + k + 16)
      in if f \<and> d + l \<le> n then Some (k + d, cut d l n @ bs)
         else map_option (\<lambda>(p, cs). (p, (n, f) # cs)) (a_scan b al l (k + n) bs))"

definition a_end :: "nat \<Rightarrow> nat \<Rightarrow> nat \<Rightarrow> nat \<Rightarrow> block list \<Rightarrow> (nat \<times> block list) option" where
  "a_end b al l hs bs =
     (let d = slack al (b + tot bs + 16)
      in if tot bs + d + l \<le> hs
         then Some (tot bs + d, bs @ (if 0 < d then [(d, True)] else []) @ [(l, False)]) else None)"

definition a_alloc :: "nat \<Rightarrow> nat \<Rightarrow> nat \<Rightarrow> nat \<Rightarrow> block list \<Rightarrow> (nat \<times> block list) option" where
  "a_alloc b al l hs bs = (case a_scan b al l 0 bs of Some r \<Rightarrow> Some r | None \<Rightarrow> a_end b al l hs bs)"

lemma cut_facts:
  assumes "d + l \<le> n" and "0 < l"
  shows "tot (cut d l n) = n" and "in_use (cut d l n) = l"
    and "live_from k (cut d l n) = [(k + d, l)]"
    and "\<lbrakk>16 dvd d; 16 dvd l; 16 dvd n\<rbrakk> \<Longrightarrow> sizes_ok (cut d l n)"
  using assms by (auto simp: cut_def)

lemma canon_Cons: "canon (b # bs) \<longleftrightarrow> (if bs = [] then \<not> snd b else \<not> (snd b \<and> snd (hd bs)) \<and> canon bs)"
  by (cases bs) auto

lemma canon_cut:
  assumes "canon ((n, True) # bs)" and "0 < l"
  shows "canon (cut d l n @ bs)"
  using assms by (auto simp: cut_def canon_Cons split: if_splits)

lemma cut_hd: "cut d l n @ bs \<noteq> []"
  by (simp add: cut_def)

lemma a_scan_facts:
  assumes "a_scan b al l k bs = Some (p, cs)" and "sizes_ok bs" and "0 < l" "16 dvd l" and "0 < al" "16 dvd al"
    and "16 dvd b + k"
  shows "sizes_ok cs \<and> tot cs = tot bs \<and> in_use cs = in_use bs + l \<and> al dvd b + p + 16 \<and> k \<le> p \<and> p + l \<le> k + tot bs \<and>
    cs \<noteq> [] \<and> (snd (hd cs) \<longrightarrow> snd (hd bs)) \<and> bs \<noteq> []"
  using assms
proof (induction b al l k bs arbitrary: cs rule: a_scan.induct)
  case (2 b al l k n f bs)
  let ?d = "slack al (b + k + 16)"
  have d: "16 dvd ?d" using "2.prems" by (intro slack_dvd) (simp_all add: dvd_add)
  have al: "al dvd b + k + 16 + ?d" by (rule slack_aligns) (use "2.prems" in simp)
  show ?case
  proof (cases "f \<and> ?d + l \<le> n")
    case True
    then have eq: "p = k + ?d" "cs = cut ?d l n @ bs" using "2.prems"(1) by (auto simp: Let_def)
    note cut = cut_facts [of ?d l n]
    have "al dvd b + p + 16" using al by (simp add: eq ac_simps)
    then show ?thesis using True cut d "2.prems" eq by (auto simp: cut_hd)
  next
    case False
    then obtain cs' where cs': "a_scan b al l (k + n) bs = Some (p, cs')" "cs = (n, f) # cs'"
      using "2.prems"(1) by (auto simp: Let_def)
    have "16 dvd b + (k + n)" using "2.prems" by (simp add: add.assoc [symmetric] dvd_add)
    then show ?thesis using "2.IH" [OF refl False cs'(1)] "2.prems" cs'(2) by auto
  qed
qed simp

lemma a_scan_canon:
  assumes "a_scan b al l k bs = Some (p, cs)" and "canon bs" and "sizes_ok bs" and "0 < l" "16 dvd l" and "0 < al" "16 dvd al"
    and "16 dvd b + k"
  shows "canon cs"
  using assms
proof (induction b al l k bs arbitrary: cs rule: a_scan.induct)
  case (2 b al l k n f bs)
  let ?d = "slack al (b + k + 16)"
  show ?case
  proof (cases "f \<and> ?d + l \<le> n")
    case True
    then show ?thesis using 2 canon_cut [of n bs l ?d] by (auto simp: Let_def)
  next
    case False
    then obtain cs' where cs': "a_scan b al l (k + n) bs = Some (p, cs')" "cs = (n, f) # cs'"
      using "2.prems"(1) by (auto simp: Let_def)
    have dvd: "16 dvd b + (k + n)" using "2.prems" by (simp add: add.assoc [symmetric] dvd_add)
    have facts: "cs' \<noteq> []" "snd (hd cs') \<longrightarrow> snd (hd bs)" "bs \<noteq> []"
      using a_scan_facts [OF cs'(1)] "2.prems" dvd by auto
    have "canon cs'"
      using "2.IH" [OF refl False cs'(1)] "2.prems" dvd facts by (auto simp: canon_Cons split: if_splits)
    then show ?thesis using facts "2.prems"(2) cs'(2) by (auto simp: canon_Cons)
  qed
qed simp

lemma a_scan_live:
  assumes "a_scan b al l k bs = Some (p, cs)" and "0 < l"
  shows "set (live_from k cs) = insert (p, l) (set (live_from k bs)) \<and> (p, l) \<notin> set (live_from k bs)"
  using assms
proof (induction b al l k bs arbitrary: cs rule: a_scan.induct)
  case (2 b al l k n f bs)
  let ?d = "slack al (b + k + 16)"
  show ?case
  proof (cases "f \<and> ?d + l \<le> n")
    case True
    then have eq: "p = k + ?d" "cs = cut ?d l n @ bs" using "2.prems"(1) by (auto simp: Let_def)
    have "(p, l) \<notin> set (live_from (k + n) bs)"
      using live_range [of p l "k + n" bs] True "2.prems"(2) by (auto simp: eq)
    then show ?thesis using True cut_facts(1,3) [of ?d l n] "2.prems"(2) by (simp add: eq)
  next
    case False
    then obtain cs' where cs': "a_scan b al l (k + n) bs = Some (p, cs')" "cs = (n, f) # cs'"
      using "2.prems"(1) by (auto simp: Let_def)
    from "2.IH" [OF refl False cs'(1) "2.prems"(2)]
    have IH: "set (live_from (k + n) cs') = insert (p, l) (set (live_from (k + n) bs))" "(p, l) \<notin> set (live_from (k + n) bs)" by auto
    have "(p, l) \<in> set (live_from (k + n) cs')" using IH by simp
    then have "k + n \<le> p" using live_range by blast
    then show ?thesis using IH cs'(2) "2.prems"(2) by (cases "n = 0") auto
  qed
qed simp

lemma canon_extend: "canon bs \<Longrightarrow> canon (bs @ (if 0 < d then [(d, True)] else []) @ [(l, False)])"
  by (induction bs rule: canon.induct) auto

lemma a_end_facts:
  assumes "a_end b al l hs bs = Some (p, cs)" and "sizes_ok bs" "canon bs" and "0 < l" "16 dvd l" and "0 < al" "16 dvd al"
    and "16 dvd b"
  shows "sizes_ok cs \<and> canon cs \<and> tot cs = p + l \<and> tot bs \<le> p \<and> p + l \<le> hs \<and> in_use cs = in_use bs + l \<and>
    al dvd b + p + 16 \<and> set (live_from 0 cs) = insert (p, l) (set (live_from 0 bs)) \<and> (p, l) \<notin> set (live_from 0 bs)"
proof -
  let ?d = "slack al (b + tot bs + 16)"
  have eq: "p = tot bs + ?d" "cs = bs @ (if 0 < ?d then [(?d, True)] else []) @ [(l, False)]" "p + l \<le> hs"
    using assms(1) by (auto simp: a_end_def Let_def split: if_splits)
  have d: "16 dvd ?d"
    using assms sizes_ok_dvd [OF assms(2)] by (intro slack_dvd) (simp_all add: dvd_add)
  have "al dvd b + tot bs + 16 + ?d" by (rule slack_aligns) (use assms in simp)
  then have al: "al dvd b + p + 16" by (simp add: eq(1) ac_simps)
  have "(p, l) \<notin> set (live_from 0 bs)"
    using live_range [of p l 0 bs] assms(4) by (auto simp: eq(1))
  then show ?thesis
    using eq d al assms canon_extend [OF assms(3), of ?d l] by auto
qed

lemma a_alloc_facts:
  assumes "a_alloc b al l hs bs = Some (p, cs)" and "sizes_ok bs" "canon bs" "tot bs \<le> hs" and "0 < l" "16 dvd l"
    and "0 < al" "16 dvd al" and "16 dvd b"
  shows "sizes_ok cs" "canon cs" "tot cs \<le> hs" "p + l \<le> hs" "in_use cs = in_use bs + l" "al dvd b + p + 16"
    "set (live_from 0 cs) = insert (p, l) (set (live_from 0 bs))" "(p, l) \<notin> set (live_from 0 bs)"
proof -
  have "sizes_ok cs \<and> canon cs \<and> tot cs \<le> hs \<and> p + l \<le> hs \<and> in_use cs = in_use bs + l \<and> al dvd b + p + 16 \<and>
    set (live_from 0 cs) = insert (p, l) (set (live_from 0 bs)) \<and> (p, l) \<notin> set (live_from 0 bs)"
  proof (cases "a_scan b al l 0 bs")
    case None
    then show ?thesis using assms a_end_facts [of b al l hs bs p cs] by (auto simp: a_alloc_def)
  next
    case (Some r)
    then have scan: "a_scan b al l 0 bs = Some (p, cs)" using assms(1) by (simp add: a_alloc_def)
    show ?thesis
      using a_scan_facts [OF scan] a_scan_canon [OF scan] a_scan_live [OF scan] assms by auto
  qed
  then show "sizes_ok cs" "canon cs" "tot cs \<le> hs" "p + l \<le> hs" "in_use cs = in_use bs + l" "al dvd b + p + 16"
    "set (live_from 0 cs) = insert (p, l) (set (live_from 0 bs))" "(p, l) \<notin> set (live_from 0 bs)" by auto
qed

text \<open>Freeing the block between \<open>pre\<close> and \<open>post\<close>: the free neighbours are merged into it.\<close>

definition merge_back :: "block list \<Rightarrow> block list \<times> nat" where
  "merge_back pre = (if pre \<noteq> [] \<and> snd (last pre) then (butlast pre, fst (last pre)) else (pre, 0))"

definition merge_forth :: "block list \<Rightarrow> block list \<times> nat" where
  "merge_forth post = (if post \<noteq> [] \<and> snd (hd post) then (tl post, fst (hd post)) else (post, 0))"

definition a_free :: "block list \<Rightarrow> nat \<Rightarrow> block list \<Rightarrow> block list" where
  "a_free pre n post =
     (let (pre1, q) = merge_back pre; (post1, m) = merge_forth post
      in if post1 = [] then pre1 else pre1 @ (q + n + m, True) # post1)"

lemma merge_backE:
  obtains "merge_back pre = (pre, 0)" "pre = [] \<or> \<not> snd (last pre)"
  | xs q where "pre = xs @ [(q, True)]" "merge_back pre = (xs, q)"
proof (cases pre rule: rev_cases)
  case Nil
  then show ?thesis using that(1) by (simp add: merge_back_def)
next
  case (snoc xs b)
  then show ?thesis using that by (cases b; cases "snd b") (auto simp: merge_back_def)
qed

lemma merge_forthE:
  obtains "merge_forth post = (post, 0)" "post = [] \<or> \<not> snd (hd post)"
  | m ys where "post = (m, True) # ys" "merge_forth post = (ys, m)"
proof (cases post)
  case Nil
  then show ?thesis using that(1) by (simp add: merge_forth_def)
next
  case (Cons b ys)
  then show ?thesis using that by (cases b; cases "snd b") (auto simp: merge_forth_def)
qed

lemma canon_iff:
  "canon bs \<longleftrightarrow> successively (\<lambda>b c. \<not> (snd b \<and> snd c)) bs \<and> (bs = [] \<or> \<not> snd (last bs))"
  by (induction bs rule: canon.induct) auto

lemma a_free_facts:
  assumes "canon (pre @ (n, False) # post)" and "sizes_ok (pre @ (n, False) # post)"
  shows "canon (a_free pre n post)" and "sizes_ok (a_free pre n post)"
    and "in_use (a_free pre n post) + n = in_use (pre @ (n, False) # post)"
proof -
  have "canon (a_free pre n post) \<and> sizes_ok (a_free pre n post) \<and> in_use (a_free pre n post) + n = in_use (pre @ (n, False) # post)"
  proof (cases rule: merge_backE [of pre]; cases rule: merge_forthE [of post])
  qed (use assms in \<open>auto simp: a_free_def canon_iff successively_append_iff successively_Cons\<close>)
  then show "canon (a_free pre n post)" "sizes_ok (a_free pre n post)"
    "in_use (a_free pre n post) + n = in_use (pre @ (n, False) # post)" by auto
qed

lemma live_a_free:
  assumes "0 < n"
  shows "set (live_from 0 (a_free pre n post)) = set (live_from 0 (pre @ (n, False) # post)) - {(tot pre, n)}"
proof -
  have out: "(tot pre, n) \<notin> set (live_from 0 pre)" "(tot pre, n) \<notin> set (live_from (tot pre + n) post)"
    using live_range [of "tot pre" n 0 pre] live_range [of "tot pre" n "tot pre + n" post] assms by auto
  have "set (live_from 0 (a_free pre n post)) = set (live_from 0 pre) \<union> set (live_from (tot pre + n) post)"
  proof (cases rule: merge_backE [of pre]; cases rule: merge_forthE [of post])
  qed (auto simp: a_free_def ac_simps)
  then show ?thesis using out by auto
qed

section \<open>The chain of headers\<close>

definition hat :: "heap \<Rightarrow> nat \<Rightarrow> header" where
  "hat s k = hdr s (heap_base s + of_nat k)"

fun chain :: "(nat \<Rightarrow> header) \<Rightarrow> nat \<Rightarrow> block list \<Rightarrow> bool" where
  "chain g k [] = True"
| "chain g k ((n, f) # bs) = (g k = \<lparr>hsize = of_nat n, isFree = f\<rparr> \<and> chain g (k + n) bs)"

lemma chain_append [simp]: "chain g k (xs @ ys) \<longleftrightarrow> chain g k xs \<and> chain g (k + tot xs) ys"
  by (induction g k xs rule: chain.induct) (auto simp: ac_simps)

lemma chain_cong:
  assumes "sizes_ok bs" and "\<And>j. \<lbrakk>k \<le> j; j < k + tot bs\<rbrakk> \<Longrightarrow> g j = g' j"
  shows "chain g k bs = chain g' k bs"
  using assms by (induction g k bs rule: chain.induct) auto

lemma base_plus_inj: "\<lbrakk>i < 2 ^ 64; j < 2 ^ 64; (b :: u64) + of_nat i = b + of_nat j\<rbrakk> \<Longrightarrow> i = j"
  using of_nat_eq_64 by simp

lemma hat_set_hdr:
  assumes "j < 2 ^ 64" and "k < 2 ^ 64"
  shows "hat (set_hdr (heap_base s + of_nat k) n f s) j = (if j = k then \<lparr>hsize = n, isFree = f\<rparr> else hat s j)"
  using base_plus_inj [OF assms, of "heap_base s"] by (auto simp: hat_def set_hdr_def)

lemma set_hdr_simps [simp]:
  "heap_base (set_hdr a n f s) = heap_base s" "heap_size (set_hdr a n f s) = heap_size s"
  "heap_off (set_hdr a n f s) = heap_off s" "arec (set_hdr a n f s) = arec s"
  by (simp_all add: set_hdr_def)

lemma record_alloc_simps [simp]:
  "heap_base (record_alloc n s) = heap_base s" "heap_size (record_alloc n s) = heap_size s"
  "heap_off (record_alloc n s) = heap_off s" "hdr (record_alloc n s) = hdr s" "hat (record_alloc n s) = hat s"
  "used (arec (record_alloc n s)) = used (arec s) + n"
  by (simp_all add: record_alloc_def Let_def hat_def fun_eq_iff)

text \<open>An arena whose addresses and sizes leave the 64-bit arithmetic of the allocator without wrap-around.\<close>

definition arena_ok :: "heap \<Rightarrow> bool" where
  "arena_ok s \<longleftrightarrow> heap_base s \<noteq> 0 \<and> 4096 dvd unat (heap_base s) \<and>
     unat (heap_base s) + unat (heap_size s) < 2 ^ 64 \<and> unat (heap_size s) \<le> 2 ^ 62"

definition heap_inv :: "heap \<Rightarrow> block list \<Rightarrow> bool" where
  "heap_inv s bs \<longleftrightarrow> arena_ok s \<and> sizes_ok bs \<and> canon bs \<and> tot bs = unat (heap_off s) \<and>
     heap_off s \<le> heap_size s \<and> chain (hat s) 0 bs \<and> used (arec s) = of_nat (in_use bs)"

end
