(* ===== verification/Heap_Refine.thy ===== *)
theory Heap_Refine
  imports Heap_Blocks
begin

text \<open>
  \<open>alloc\<close> and \<open>free\<close> of theory \<open>Allocator\<close> implement the operations on lists of blocks: they
  terminate on every heap that satisfies the invariant and keep it.
\<close>

section \<open>Word arithmetic on offsets\<close>

lemma slack_mod: "a dvd m \<Longrightarrow> slack a (x mod m) = slack a x"
  by (simp add: slack_def mod_mod_cancel)

lemma payload_slack:
  assumes "is_power_of_2 al"
  shows "align_up (b + of_nat k + sizeof_header) al - (b + of_nat k + sizeof_header) =
    of_nat (slack (unat al) (unat b + k + 16))"
proof -
  have "unat (b + of_nat k + 16) = (unat b + k + 16) mod 2 ^ 64"
    by (simp add: unat_word_ariths(1) unat_of_nat take_bit_eq_mod mod_simps)
  then have "unat (align_up (b + of_nat k + 16) al - (b + of_nat k + 16)) = slack (unat al) (unat b + k + 16)"
    using align_up_slack [OF assms, of "b + of_nat k + 16"] slack_mod [OF power_dvd_range(1) [OF assms]] by simp
  from arg_cong [OF this, of "of_nat :: nat \<Rightarrow> u64"] show ?thesis by (simp add: sizeof_header_def)
qed

lemma slack_bound: "is_power_of_2 al \<Longrightarrow> slack (unat al) v < 2 ^ 63"
  using slack_less [of "unat al" v] power_dvd_range(2,3) [of al] by linarith

section \<open>Carving a free block\<close>

lemma same_chain:
  assumes "chain (hat s) k bs" and "sizes_ok bs" and "\<And>j. \<lbrakk>k \<le> j; j < k + tot bs\<rbrakk> \<Longrightarrow> hat s' j = hat s j"
  shows "chain (hat s') k bs"
  using chain_cong [OF assms(2), of k "hat s'" "hat s"] assms(1,3) by simp

lemma mult_16_cases: "\<lbrakk>16 dvd (r :: nat)\<rbrakk> \<Longrightarrow> r = 0 \<or> 16 \<le> r"
  by (auto dest: dvd_imp_le)

lemma of_nat_minus_64: "b \<le> a \<Longrightarrow> (of_nat a :: u64) - of_nat b = of_nat (a - b)"
  by (simp add: of_nat_diff)

lemma carve_effect:
  assumes chain: "chain (hat s) 0 (pre @ (n, True) # post)" and ok: "sizes_ok (pre @ (n, True) # post)"
    and fits: "d + l \<le> n" "0 < l" "16 dvd d" "16 dvd l" and small: "tot (pre @ (n, True) # post) < 2 ^ 63"
  shows "\<exists>s'. carve (of_nat (tot pre)) (of_nat d) (of_nat l) s = (s', heap_base s + of_nat (tot pre + d) + sizeof_header) \<and>
    heap_base s' = heap_base s \<and> heap_size s' = heap_size s \<and> heap_off s' = heap_off s \<and>
    used (arec s') = used (arec s) + of_nat l \<and> chain (hat s') 0 (pre @ cut d l n @ post)"
proof -
  define k where "k = tot pre"
  define r where "r = n - d - l"
  let ?b = "heap_base s"
  have bnd: "k + n < 2 ^ 63" using small by (simp add: k_def)
  have h: "hdr s (?b + of_nat k) = \<lparr>hsize = of_nat n, isFree = True\<rparr>"
    using chain by (simp add: k_def hat_def)
  have rem: "(of_nat n :: u64) - of_nat d - of_nat l = of_nat r"
    using fits(1) by (simp add: r_def of_nat_diff)
  have dpos: "(0 :: u64) < of_nat d \<longleftrightarrow> 0 < d"
    using bnd fits(1) of_nat_less_64 [of 0 d] by simp
  have "16 dvd r" using fits ok by (simp add: r_def dvd_diff_nat)
  then have r16: "r = 0 \<or> 16 \<le> r" by (rule mult_16_cases)
  have rle: "sizeof_header \<le> (of_nat r :: u64) \<longleftrightarrow> 0 < r"
    using of_nat_le_64 [of 16 r] bnd r16 by (auto simp: sizeof_header_def r_def)
  define s1 where "s1 = (if 0 < d then set_hdr (?b + of_nat k) (of_nat d) True s else s)"
  define s2 where "s2 = (if 0 < r then set_hdr (?b + of_nat (k + d + l)) (of_nat r) True s1 else s1)"
  define s3 where "s3 = set_hdr (?b + of_nat (k + d)) (of_nat l) False s2"
  have frame: "heap_base s1 = ?b" "heap_base s2 = ?b" "heap_base s3 = ?b" "heap_size s3 = heap_size s"
    "heap_off s3 = heap_off s" "arec s3 = arec s"
    by (simp_all add: s1_def s2_def s3_def)
  have eq: "carve (of_nat k) (of_nat d) (of_nat l) s =
      (record_alloc (of_nat l) s3, ?b + of_nat (k + d) + sizeof_header)"
    using r16 unfolding carve_def Let_def h header.simps rem dpos rle s1_def [symmetric]
    by (auto simp: s3_def s2_def frame ac_simps)
  have hat3: "hat s3 j = (if j = k + d then \<lparr>hsize = of_nat l, isFree = False\<rparr>
      else if j = k + d + l \<and> 0 < r then \<lparr>hsize = of_nat r, isFree = True\<rparr>
      else if j = k \<and> 0 < d then \<lparr>hsize = of_nat d, isFree = True\<rparr> else hat s j)" if "j < 2 ^ 63" for j
  proof -
    have w: "j < 2 ^ 64" "k < 2 ^ 64" "k + d < 2 ^ 64" "k + d + l < 2 ^ 64" using that bnd fits(1) by simp_all
    have h1: "hat s1 j = (if j = k \<and> 0 < d then \<lparr>hsize = of_nat d, isFree = True\<rparr> else hat s j)"
      using hat_set_hdr [OF w(1,2), of s "of_nat d" True] by (auto simp: s1_def)
    have h2: "hat s2 j = (if j = k + d + l \<and> 0 < r then \<lparr>hsize = of_nat r, isFree = True\<rparr> else hat s1 j)"
      using hat_set_hdr [OF w(1,4), of s1 "of_nat r" True] by (auto simp: s2_def frame)
    have h3: "hat s3 j = (if j = k + d then \<lparr>hsize = of_nat l, isFree = False\<rparr> else hat s2 j)"
      using hat_set_hdr [OF w(1,3), of s2 "of_nat l" False] by (simp add: s3_def frame)
    show ?thesis unfolding h3 h2 h1 by (rule refl)
  qed
  have below: "hat s3 j = hat s j" if "j < k" for j
    using hat3 [of j] that bnd by simp
  have above: "hat s3 j = hat s j" if "k + n \<le> j" "j < 2 ^ 63" for j
  proof -
    have "j \<noteq> k + d" "j = k + d + l \<Longrightarrow> r = 0" "j = k \<Longrightarrow> d = 0" using that(1) fits(1,2) by (auto simp: r_def)
    then show ?thesis using hat3 [OF that(2)] by auto
  qed
  have pieces: "chain (hat s) 0 pre" "chain (hat s) (k + n) post" "sizes_ok pre" "sizes_ok post" "k + n + tot post < 2 ^ 63"
    using chain ok small by (simp_all add: k_def)
  have "chain (hat s3) 0 pre"
    by (rule same_chain [OF pieces(1,3)]) (rule below, simp add: k_def)
  moreover have "chain (hat s3) (k + n) post"
    by (rule same_chain [OF pieces(2,4)]) (rule above, use pieces(5) in simp_all)
  moreover have "chain (hat s3) k (cut d l n)"
  proof -
    have "cut d l n = (if 0 < d then [(d, True)] else []) @ (l, False) # (if 0 < r then [(r, True)] else [])"
      using fits(1) by (auto simp: cut_def r_def)
    moreover have "0 < d \<Longrightarrow> hat s3 k = \<lparr>hsize = of_nat d, isFree = True\<rparr>"
      "hat s3 (k + d) = \<lparr>hsize = of_nat l, isFree = False\<rparr>"
      "0 < r \<Longrightarrow> hat s3 (k + d + l) = \<lparr>hsize = of_nat r, isFree = True\<rparr>"
      using hat3 [of k] hat3 [of "k + d"] hat3 [of "k + d + l"] bnd fits(1,2) by auto
    ultimately show ?thesis by auto
  qed
  ultimately have "chain (hat s3) 0 (pre @ cut d l n @ post)"
    using cut_facts(1) [OF fits(1,2)] by (simp add: k_def)
  then show ?thesis using eq frame by (auto simp: k_def)
qed

section \<open>Allocation\<close>

definition scan_result :: "heap \<Rightarrow> nat \<Rightarrow> block list \<Rightarrow> (nat \<times> block list) option \<Rightarrow> (heap \<times> u64) option \<Rightarrow> bool" where
  "scan_result s l pre a r \<longleftrightarrow>
     (case a of None \<Rightarrow> r = None
      | Some (p, cs) \<Rightarrow> \<exists>s'. r = Some (s', heap_base s + of_nat p + sizeof_header) \<and>
          heap_base s' = heap_base s \<and> heap_size s' = heap_size s \<and> heap_off s' = heap_off s \<and>
          used (arec s') = used (arec s) + of_nat l \<and> chain (hat s') 0 (pre @ cs))"

lemma alloc_scan_step:
  assumes at: "hdr s (heap_base s + of_nat k) = \<lparr>hsize = of_nat n, isFree = f\<rparr>"
    and k: "k + n \<le> unat (heap_off s)" "unat (heap_off s) < 2 ^ 63" and n: "0 < n" "16 dvd n"
    and al: "is_power_of_2 al" "16 \<le> unat al" and l: "l \<le> 2 ^ 62 + 64" and d: "d = slack (unat al) (unat (heap_base s) + k + 16)"
    and d16: "16 dvd d"
  shows "alloc_scan al (of_nat l) s (of_nat k) =
    (if f \<and> d + l \<le> n then Some (Some (carve (of_nat k) (of_nat d) (of_nat l) s))
     else alloc_scan al (of_nat l) s (of_nat (k + n)))"
proof -
  have diff: "align_up (heap_base s + of_nat k + sizeof_header) al - (heap_base s + of_nat k + sizeof_header) = of_nat d"
    using payload_slack [OF al(1)] d by simp
  have dl: "d < 2 ^ 63" using slack_bound [OF al(1)] d by simp
  have "(of_nat k :: u64) < of_nat (unat (heap_off s))"
    using k n by (subst of_nat_less_64) simp_all
  then have lt: "(of_nat k :: u64) < heap_off s" by simp
  have le: "(of_nat d + of_nat l :: u64) \<le> of_nat n \<longleftrightarrow> d + l \<le> n"
    using of_nat_le_64 [of "d + l" n] dl l k by simp
  have no_gap: "\<not> ((0 :: u64) < of_nat d \<and> (of_nat d :: u64) < sizeof_header)"
    using of_nat_less_64 [of 0 d] of_nat_less_64 [of d 16] dl mult_16_cases [OF d16] by (auto simp: sizeof_header_def)
  have "(of_nat n :: u64) \<noteq> 0" using of_nat_eq_64 [of n 0] n k by simp
  then show ?thesis
    by (subst alloc_scan.simps) (use lt no_gap in \<open>auto simp: Let_def at diff le\<close>)
qed

lemma alloc_scan_refines:
  assumes "chain (hat s) 0 (pre @ suf)" and "sizes_ok (pre @ suf)" and "tot (pre @ suf) = unat (heap_off s)"
    and "unat (heap_off s) < 2 ^ 63" and "16 dvd unat (heap_base s)"
    and al: "is_power_of_2 al" "16 \<le> unat al" and l: "0 < l" "16 dvd l" "l \<le> 2 ^ 62 + 64"
  shows "\<exists>r. alloc_scan al (of_nat l) s (of_nat (tot pre)) = Some r \<and>
    scan_result s l pre (a_scan (unat (heap_base s)) (unat al) l (tot pre) suf) r"
  using assms(1-5)
proof (induction suf arbitrary: pre)
  case Nil
  then have "\<not> of_nat (tot pre) < heap_off s" by simp
  then have "alloc_scan al (of_nat l) s (of_nat (tot pre)) = Some None"
    by (subst alloc_scan.simps) simp
  then show ?case by (simp add: scan_result_def)
next
  case (Cons b suf)
  obtain n f where b: "b = (n, f)" by fastforce
  define d where "d = slack (unat al) (unat (heap_base s) + tot pre + 16)"
  have d16: "16 dvd d"
    unfolding d_def using Cons.prems al power_16 [OF al] power_dvd_range(3) [OF al(1)] sizes_ok_dvd [of pre]
    by (intro slack_dvd) (simp_all add: dvd_add)
  have at: "hdr s (heap_base s + of_nat (tot pre)) = \<lparr>hsize = of_nat n, isFree = f\<rparr>"
    using Cons.prems(1) by (simp add: b hat_def)
  have n: "0 < n" "16 dvd n" "tot pre + n \<le> unat (heap_off s)" using Cons.prems by (simp_all add: b)
  note step = alloc_scan_step [OF at n(3) Cons.prems(4) n(1,2) al l(3) d_def d16]
  show ?case
  proof (cases "f \<and> d + l \<le> n")
    case True
    have "tot (pre @ (n, True) # suf) < 2 ^ 63" using Cons.prems(3,4) b by simp
    then show ?thesis
      using carve_effect [of s pre n suf d l] Cons.prems True l d16 b step
      by (auto simp: scan_result_def d_def [symmetric])
  next
    case False
    obtain r where r: "alloc_scan al (of_nat l) s (of_nat (tot (pre @ [(n, f)]))) = Some r"
      "scan_result s l (pre @ [(n, f)]) (a_scan (unat (heap_base s)) (unat al) l (tot (pre @ [(n, f)])) suf) r"
      using Cons.IH [of "pre @ [(n, f)]"] Cons.prems b by auto
    then show ?thesis
      using step False by (auto simp: b scan_result_def d_def [symmetric] Let_def split: option.splits)
  qed
qed

lemma alloc_end_refines:
  assumes inv: "heap_inv s bs" and al: "is_power_of_2 al" "16 \<le> unat al" and l: "0 < l" "l \<le> 2 ^ 62 + 64"
  shows "case a_end (unat (heap_base s)) (unat al) l (unat (heap_size s)) bs of
      None \<Rightarrow> alloc_end al (of_nat l) s = fail_alloc s
    | Some (p, cs) \<Rightarrow> \<exists>s'. alloc_end al (of_nat l) s = (s', heap_base s + of_nat p + sizeof_header) \<and>
        heap_base s' = heap_base s \<and> heap_size s' = heap_size s \<and> heap_off s' = of_nat (p + l) \<and>
        used (arec s') = used (arec s) + of_nat l \<and> chain (hat s') 0 cs"
proof -
  define k where "k = tot bs"
  define d where "d = slack (unat al) (unat (heap_base s) + k + 16)"
  define hs where "hs = unat (heap_size s)"
  let ?b = "heap_base s"
  have hs: "heap_size s = of_nat hs" "hs \<le> 2 ^ 62" and off: "heap_off s = of_nat k" and k: "k \<le> hs"
    using inv by (simp_all add: hs_def k_def heap_inv_def arena_ok_def word_le_nat_alt)
  have d: "d < 2 ^ 63" using slack_bound [OF al(1)] by (simp add: d_def)
  have pay: "align_up (?b + heap_off s + sizeof_header) al - ?b - sizeof_header = of_nat (k + d)"
  proof -
    have "align_up (?b + heap_off s + sizeof_header) al = of_nat d + (?b + heap_off s + sizeof_header)"
      using payload_slack [OF al(1), of ?b k] unfolding d_def [symmetric] off by (simp only: diff_eq_eq)
    then show ?thesis by (simp add: off)
  qed
  have fits: "heap_size s < of_nat l \<or> heap_size s - of_nat l < (of_nat (k + d) :: u64) \<longleftrightarrow> \<not> k + d + l \<le> hs"
  proof (cases "l \<le> hs")
    case True
    then have "heap_size s - of_nat l = (of_nat (hs - l) :: u64)" by (simp add: hs of_nat_diff)
    moreover have "(of_nat (hs - l) :: u64) < of_nat (k + d) \<longleftrightarrow> hs - l < k + d"
      by (rule of_nat_less_64) (use hs(2) d k in simp_all)
    moreover have "\<not> heap_size s < of_nat l"
      using of_nat_less_64 [of hs l] True hs l by simp
    ultimately show ?thesis using True by auto
  next
    case False
    then show ?thesis using of_nat_less_64 [of hs l] hs l(2) by simp
  qed
  define s1 where "s1 = (if 0 < d then set_hdr (?b + of_nat k) (of_nat d) True s else s)"
  define s2 where "s2 = set_hdr (?b + of_nat (k + d)) (of_nat l) False s1"
  show ?thesis
  proof (cases "k + d + l \<le> hs")
    case False
    then have "alloc_end al (of_nat l) s = fail_alloc s"
      unfolding alloc_end_def Let_def pay fits by simp
    then show ?thesis using False by (simp add: a_end_def Let_def k_def [symmetric] d_def [symmetric] hs_def [symmetric])
  next
    case True
    have w: "k < 2 ^ 64" "k + d < 2 ^ 64" using True hs(2) by simp_all
    have gap: "heap_off s < of_nat (k + d) \<longleftrightarrow> 0 < d" unfolding off by (subst of_nat_less_64 [OF w]) simp
    have len: "(of_nat (k + d) - heap_off s :: u64) = of_nat d" by (simp add: off)
    have frame: "heap_base s1 = ?b" "heap_base s2 = ?b" "heap_size s2 = heap_size s" "arec s2 = arec s"
      by (simp_all add: s1_def s2_def)
    have eq: "alloc_end al (of_nat l) s =
        (record_alloc (of_nat l) (s2\<lparr>heap_off := of_nat (k + d + l)\<rparr>), ?b + of_nat (k + d) + sizeof_header)"
      unfolding alloc_end_def Let_def pay fits gap len using True by (simp add: s2_def s1_def off ac_simps)
    have hat2: "hat s2 j = (if j = k + d then \<lparr>hsize = of_nat l, isFree = False\<rparr>
        else if j = k \<and> 0 < d then \<lparr>hsize = of_nat d, isFree = True\<rparr> else hat s j)" if "j < 2 ^ 64" for j
      using hat_set_hdr [OF that w(2), of s1 "of_nat l" False] hat_set_hdr [OF that w(1), of s "of_nat d" True]
      by (auto simp: s2_def s1_def frame(1) [unfolded s1_def])
    have "chain (hat s2) 0 bs"
      by (rule same_chain [of s]) (use inv hat2 w(1) in \<open>auto simp: heap_inv_def k_def\<close>)
    moreover have "0 < d \<Longrightarrow> hat s2 k = \<lparr>hsize = of_nat d, isFree = True\<rparr>"
      "hat s2 (k + d) = \<lparr>hsize = of_nat l, isFree = False\<rparr>"
      using hat2 w by auto
    ultimately have "chain (hat s2) 0 (bs @ (if 0 < d then [(d, True)] else []) @ [(l, False)])"
      by (auto simp: k_def [symmetric])
    moreover have "hat (s2\<lparr>heap_off := x\<rparr>) = hat s2" for x by (simp add: hat_def fun_eq_iff)
    ultimately show ?thesis
      using True eq frame by (simp add: a_end_def Let_def k_def [symmetric] d_def [symmetric] hs_def [symmetric])
  qed
qed

text \<open>The length of the block for a request, and the alignment the allocator uses for it.\<close>

definition blen :: "u64 \<Rightarrow> nat" where
  "blen sz = 16 + unat sz + slack 16 (16 + unat sz)"

definition real_align :: "u64 \<Rightarrow> u64" where
  "real_align al = (if al < GRANULARITY then GRANULARITY else al)"

lemma alloc_eq:
  "alloc sz al s =
     (if heap_base s = 0 \<or> heap_size s < sz \<or> \<not> is_power_of_2 (real_align al) then Some (fail_alloc s)
      else case alloc_scan (real_align al) (align_up (sizeof_header + sz) GRANULARITY) s 0 of
             None \<Rightarrow> None
           | Some (Some r) \<Rightarrow> Some r
           | Some None \<Rightarrow> Some (alloc_end (real_align al) (align_up (sizeof_header + sz) GRANULARITY) s))"
  unfolding alloc_def Let_def real_align_def by (rule refl)

lemma blen_facts: "16 + unat sz \<le> blen sz" "16 dvd blen sz" "blen sz < 32 + unat sz"
  using slack_less [of 16 "16 + unat sz"] slack_aligns [of 16 "16 + unat sz"] by (simp_all add: blen_def)

lemma pow2_16: "is_power_of_2 16"
  by (simp add: is_power_of_2_def)

lemma block_length_eq:
  assumes "unat sz \<le> 2 ^ 62"
  shows "align_up (sizeof_header + sz) GRANULARITY = of_nat (blen sz)"
proof -
  have "unat (16 + sz) = 16 + unat sz"
    using assms by (simp add: unat_word_ariths(1))
  then have "align_up (16 + sz) 16 = 16 + sz + of_nat (slack 16 (16 + unat sz))"
    using align_up_eq [OF pow2_16, of "16 + sz"] by simp
  then show ?thesis by (simp add: GRANULARITY_def sizeof_header_def blen_def)
qed

lemma alloc_cases:
  assumes inv: "heap_inv s bs"
  obtains (fail) "alloc sz al s = Some (fail_alloc s)"
      "\<not> is_power_of_2 (real_align al) \<or> unat (heap_size s) < unat (heap_off s) + unat (real_align al) + blen sz"
  | (made) p cs s' where "a_alloc (unat (heap_base s)) (unat (real_align al)) (blen sz) (unat (heap_size s)) bs = Some (p, cs)"
      "is_power_of_2 (real_align al)" "alloc sz al s = Some (s', heap_base s + of_nat p + sizeof_header)"
      "heap_inv s' cs" "heap_base s' = heap_base s" "heap_size s' = heap_size s"
      "unat (heap_off s') \<le> unat (heap_off s) + unat (real_align al) + blen sz"
proof (cases "heap_size s < sz \<or> \<not> is_power_of_2 (real_align al)")
  case True
  then have "alloc sz al s = Some (fail_alloc s)"
    by (auto simp: alloc_eq)
  moreover have "heap_size s < sz \<longrightarrow> unat (heap_size s) < blen sz"
    using blen_facts(1) [of sz] by (simp add: word_less_nat_alt)
  ultimately show ?thesis using True by (intro fail) auto
next
  case False
  let ?al = "real_align al" and ?l = "blen sz" and ?b = "unat (heap_base s)" and ?hs = "unat (heap_size s)"
  have arena: "arena_ok s" using inv by (simp add: heap_inv_def)
  have sz: "unat sz \<le> 2 ^ 62" using False arena by (simp add: arena_ok_def word_less_nat_alt)
  have al: "is_power_of_2 ?al" "16 \<le> unat ?al"
    using False by (auto simp: real_align_def GRANULARITY_def sizeof_header_def word_less_nat_alt)
  have l: "0 < ?l" "16 dvd ?l" "?l \<le> 2 ^ 62 + 64" using blen_facts [of sz] sz by auto
  have b16: "16 dvd ?b" using arena dvd_trans [of 16 4096 ?b] by (simp add: arena_ok_def)
  have tot: "tot ([] @ bs) = unat (heap_off s)" "unat (heap_off s) \<le> ?hs" "?hs \<le> 2 ^ 62"
    using inv by (simp_all add: heap_inv_def arena_ok_def word_le_nat_alt)
  have "\<exists>r. alloc_scan ?al (of_nat ?l) s (of_nat (tot [])) = Some r \<and> scan_result s ?l [] (a_scan ?b (unat ?al) ?l (tot []) bs) r"
    by (rule alloc_scan_refines) (use inv tot b16 al l in \<open>simp_all add: heap_inv_def\<close>)
  then obtain r where r: "alloc_scan ?al (of_nat ?l) s 0 = Some r" "scan_result s ?l [] (a_scan ?b (unat ?al) ?l 0 bs) r"
    by auto
  have eq: "alloc sz al s = (case r of Some x \<Rightarrow> Some x | None \<Rightarrow> Some (alloc_end ?al (of_nat ?l) s))"
    using False arena r(1) block_length_eq [OF sz]
    by (simp add: alloc_eq arena_ok_def split: option.split)
  have keep: "heap_inv s' cs" if "a_alloc ?b (unat ?al) ?l ?hs bs = Some (p, cs)" "heap_base s' = heap_base s"
    "heap_size s' = heap_size s" "used (arec s') = used (arec s) + of_nat ?l" "chain (hat s') 0 cs" "unat (heap_off s') = tot cs"
    for s' p cs
    using a_alloc_facts [OF that(1)] that inv tot l al power_16 [OF al] power_dvd_range(3) [OF al(1)] b16
    by (simp add: heap_inv_def arena_ok_def word_le_nat_alt)
  show ?thesis
  proof (cases "a_scan ?b (unat ?al) ?l 0 bs")
    case None
    then have r_None: "r = None" using r(2) by (simp add: scan_result_def)
    note last = alloc_end_refines [OF inv al l(1,3)]
    show ?thesis
    proof (cases "a_end ?b (unat ?al) ?l ?hs bs")
      case None
      have "?hs < tot bs + slack (unat ?al) (?b + tot bs + 16) + ?l"
        using None by (simp add: a_end_def Let_def split: if_splits)
      then have "?hs < unat (heap_off s) + unat ?al + ?l"
        using slack_less [of "unat ?al" "?b + tot bs + 16"] power_dvd_range(3) [OF al(1)] tot(1) by simp
      then show ?thesis using last eq r_None None by (intro fail) simp_all
    next
      case (Some x)
      obtain p cs where x: "x = (p, cs)" by fastforce
      have a: "a_alloc ?b (unat ?al) ?l ?hs bs = Some (p, cs)" using None Some x by (simp add: a_alloc_def)
      have "tot cs = p + ?l" "p + ?l \<le> ?hs" using Some x by (auto simp: a_end_def Let_def split: if_splits)
      moreover obtain s' where s': "alloc_end ?al (of_nat ?l) s = (s', heap_base s + of_nat p + sizeof_header)"
        "heap_base s' = heap_base s" "heap_size s' = heap_size s" "heap_off s' = of_nat (p + ?l)"
        "used (arec s') = used (arec s) + of_nat ?l" "chain (hat s') 0 cs"
        using last Some x by auto
      ultimately have "unat (heap_off s') = tot cs" using tot(3) unat_of_nat_64 [of "p + ?l"] by simp
      moreover have "tot cs \<le> unat (heap_off s) + unat ?al + ?l"
        using Some x tot(1) slack_less [of "unat ?al" "?b + tot bs + 16"] power_dvd_range(3) [OF al(1)]
        by (auto simp: a_end_def Let_def split: if_splits)
      ultimately show ?thesis using made [OF a al(1) _ keep [OF a s'(2,3,5,6)] s'(2,3)] eq r_None s'(1) by simp
    qed
  next
    case (Some x)
    obtain p cs where x: "x = (p, cs)" by fastforce
    have a: "a_alloc ?b (unat ?al) ?l ?hs bs = Some (p, cs)" using Some x by (simp add: a_alloc_def)
    obtain s' where s': "r = Some (s', heap_base s + of_nat p + sizeof_header)"
      "heap_base s' = heap_base s" "heap_size s' = heap_size s" "heap_off s' = heap_off s"
      "used (arec s') = used (arec s) + of_nat ?l" "chain (hat s') 0 cs"
      using r(2) Some x by (auto simp: scan_result_def)
    have "unat (heap_off s') = tot cs"
      using a_scan_facts [of ?b "unat ?al" ?l 0 bs p cs] Some x inv l al power_16 [OF al] power_dvd_range(3) [OF al(1)] b16 s'(4) tot(1)
      by (simp add: heap_inv_def)
    then show ?thesis using made [OF a al(1) _ keep [OF a s'(2,3,5,6)] s'(2,3)] eq s'(1,4) by simp
  qed
qed

lemma a_alloc_live:
  assumes "heap_inv s bs"
    and "a_alloc (unat (heap_base s)) (unat (real_align al)) (blen sz) (unat (heap_size s)) bs = Some (p, cs)"
    and "is_power_of_2 (real_align al)"
  shows "unat (real_align al) dvd unat (heap_base s) + p + 16"
    and "set (live_from 0 cs) = insert (p, blen sz) (set (live_from 0 bs))" and "(p, blen sz) \<notin> set (live_from 0 bs)"
    and "p + blen sz \<le> unat (heap_size s)" and "in_use cs = in_use bs + blen sz"
proof -
  have al: "16 \<le> unat (real_align al)"
    by (simp add: real_align_def GRANULARITY_def sizeof_header_def word_less_nat_alt)
  have "16 dvd unat (heap_base s)"
    using assms(1) dvd_trans [of 16 4096 "unat (heap_base s)"] by (simp add: heap_inv_def arena_ok_def)
  note facts = a_alloc_facts [OF assms(2) _ _ _ _ blen_facts(2) power_dvd_range(3) [OF assms(3)] power_16 [OF assms(3) al] this]
  have "sizes_ok bs" "canon bs" "tot bs \<le> unat (heap_size s)" "0 < blen sz"
    using assms(1) blen_facts(1) [of sz] by (simp_all add: heap_inv_def word_le_nat_alt)
  note facts = facts [OF this]
  show "unat (real_align al) dvd unat (heap_base s) + p + 16" by (rule facts)
  show "set (live_from 0 cs) = insert (p, blen sz) (set (live_from 0 bs))" by (rule facts)
  show "(p, blen sz) \<notin> set (live_from 0 bs)" by (rule facts)
  show "p + blen sz \<le> unat (heap_size s)" by (rule facts)
  show "in_use cs = in_use bs + blen sz" by (rule facts)
qed

section \<open>Freeing\<close>

lemma off_less: "\<lbrakk>heap_off s = of_nat t; k < 2 ^ 64; t < 2 ^ 64\<rbrakk> \<Longrightarrow> heap_off s \<le> of_nat k \<longleftrightarrow> t \<le> k"
  by (simp add: of_nat_le_64)

text \<open>The forward loop takes in at most the one free block after the freed one.\<close>

lemma absorb_stop:
  assumes "hat s k = \<lparr>hsize = of_nat n, isFree = True\<rparr>" and "chain (hat s) (k + n) post" and "post = [] \<or> \<not> snd (hd post)"
    and "heap_off s = of_nat (k + n + tot post)" and "k + n + tot post < 2 ^ 63" and "sizes_ok post"
  shows "absorb (of_nat k) s = Some s"
proof (cases post)
  case Nil
  then have "heap_off s \<le> of_nat k + of_nat n" using assms(4) by simp
  then show ?thesis using assms(1) by (subst absorb.simps) (simp add: Let_def hat_def)
next
  case (Cons c cs)
  have "hat s (k + n) = \<lparr>hsize = of_nat (fst c), isFree = False\<rparr>"
    using assms(2,3) Cons by (cases c) simp
  then show ?thesis using assms(1) by (subst absorb.simps) (simp add: Let_def hat_def add.assoc)
qed

lemma absorb_refines:
  assumes at: "hat s k = \<lparr>hsize = of_nat n, isFree = True\<rparr>" and chain: "chain (hat s) (k + n) post"
    and canon: "canon post \<or> post = []" and ok: "sizes_ok post" and off: "heap_off s = of_nat (k + n + tot post)"
    and small: "k + n + tot post < 2 ^ 63" and post: "merge_forth post = (ps, m)" and n: "0 < n"
  shows "\<exists>s'. absorb (of_nat k) s = Some s' \<and> heap_base s' = heap_base s \<and> heap_size s' = heap_size s \<and>
    heap_off s' = heap_off s \<and> arec s' = arec s \<and>
    (\<forall>j < 2 ^ 63. hat s' j = (if j = k then \<lparr>hsize = of_nat (n + m), isFree = True\<rparr> else hat s j))"
proof (cases rule: merge_forthE [of post])
  case 1
  then show ?thesis
    using absorb_stop [OF at chain] off small ok at post by auto
next
  case (2 m' ys)
  then have m: "m' = m" "ys = ps" using post by auto
  let ?s = "set_hdr (heap_base s + of_nat k) (of_nat (n + m)) True s"
  have next_hd: "hat s (k + n) = \<lparr>hsize = of_nat m, isFree = True\<rparr>" using chain 2 m by simp
  have pos: "0 < m" using ok 2 m by simp
  have lt: "\<not> heap_off s \<le> of_nat (k + n)"
    using off_less [OF off, of "k + n"] small 2 m pos by simp
  have step: "absorb (of_nat k) s = absorb (of_nat k) ?s"
    using at next_hd lt by (subst absorb.simps) (simp add: Let_def hat_def add.assoc)
  have hat': "hat ?s j = (if j = k then \<lparr>hsize = of_nat (n + m), isFree = True\<rparr> else hat s j)" if "j < 2 ^ 63" for j
    using hat_set_hdr [of j k s] that small by simp
  have "absorb (of_nat k) ?s = Some ?s"
  proof (rule absorb_stop [where post = ps])
    show "hat ?s k = \<lparr>hsize = of_nat (n + m), isFree = True\<rparr>" using hat' [of k] small by simp
    show "chain (hat ?s) (k + (n + m)) ps"
      by (rule same_chain [of s]) (use chain ok 2 m hat' small n in \<open>auto simp: ac_simps\<close>)
    show "ps = [] \<or> \<not> snd (hd ps)" using canon 2 m by (auto simp: canon_Cons split: if_splits)
  qed (use off small ok 2 m in \<open>simp_all add: ac_simps\<close>)
  then show ?thesis using step hat' by (intro exI [of _ ?s]) simp
qed

text \<open>The backward scan arrives at the freed block and remembers the block before it.\<close>

lemma find_prev_refines:
  assumes "chain (hat s) 0 (xs @ ys)" and "sizes_ok (xs @ ys)" and "tot (xs @ ys) < 2 ^ 63"
  shows "find_prev s (of_nat (tot (xs @ ys))) (of_nat (tot xs)) p =
    Some (of_nat (tot (xs @ ys)), if ys = [] then p else of_nat (tot (xs @ butlast ys)))"
  using assms
proof (induction ys arbitrary: xs p)
  case Nil
  show ?case by (subst find_prev.simps) simp
next
  case (Cons y ys)
  obtain n f where y: "y = (n, f)" by fastforce
  let ?t = "tot (xs @ y # ys)"
  have n: "0 < n" and at: "hdr s (heap_base s + of_nat (tot xs)) = \<lparr>hsize = of_nat n, isFree = f\<rparr>"
    using Cons.prems by (simp_all add: y hat_def)
  have lt: "(of_nat (tot xs) :: u64) < of_nat ?t"
    using Cons.prems(3) n by (subst of_nat_less_64) (simp_all add: y)
  have le: "\<not> (of_nat ?t :: u64) < of_nat (tot xs) + of_nat n"
    using Cons.prems(3) of_nat_less_64 [of ?t "tot xs + n"] by (simp add: y)
  have nz: "(of_nat n :: u64) \<noteq> 0" using of_nat_eq_64 [of n 0] n Cons.prems(3) by (simp add: y)
  have "find_prev s (of_nat ?t) (of_nat (tot xs)) p = find_prev s (of_nat ?t) (of_nat (tot (xs @ [y]))) (of_nat (tot xs))"
    using lt le nz by (subst find_prev.simps) (simp add: Let_def at y)
  also have "\<dots> = Some (of_nat ?t, if ys = [] then of_nat (tot xs) else of_nat (tot ((xs @ [y]) @ butlast ys)))"
    using Cons.IH [of "xs @ [y]"] Cons.prems by simp
  finally show ?case by simp
qed

lemma word_mod_dvd:
  assumes "k < 2 ^ 64" and "16 dvd k"
  shows "(of_nat k :: u64) mod 16 = 0" and "(of_nat k :: u64) mod 8 = 0"
proof -
  have "8 dvd k" using assms(2) by (rule dvd_trans [rotated]) simp
  then show "(of_nat k :: u64) mod 16 = 0" "(of_nat k :: u64) mod 8 = 0"
    using assms by (simp_all add: word_arith_nat_mod unat_of_nat_64 dvd_eq_mod_eq_0)
qed

lemma free_live:
  assumes inv: "heap_inv s (pre @ (n, False) # post)"
  shows "free (heap_base s + of_nat (tot pre) + sizeof_header) s = release (heap_base s + of_nat (tot pre)) (of_nat (tot pre)) s"
proof -
  let ?k = "tot pre"
  have t: "?k + n + tot post = unat (heap_off s)" "unat (heap_off s) \<le> unat (heap_size s)" "16 \<le> n" "16 dvd ?k" "unat (heap_size s) \<le> 2 ^ 62"
    "unat (heap_base s) + unat (heap_size s) < 2 ^ 64"
    using inv mult_16_cases [of n] sizes_ok_dvd [of pre] by (auto simp: heap_inv_def arena_ok_def word_le_nat_alt)
  have w: "?k < 2 ^ 64" "n < 2 ^ 64" using t by simp_all
  have "unat (heap_base s + of_nat ?k + 16) = unat (heap_base s) + ?k + 16"
    using t by (simp add: unat_word_ariths(1) unat_of_nat_64)
  then have nz: "heap_base s + of_nat ?k + 16 \<noteq> 0" by (metis add_is_0 unat_0 zero_neq_numeral)
  have off: "heap_off s = of_nat (?k + n + tot post)" using t(1) by simp
  have lt: "\<not> heap_off s \<le> of_nat ?k" using off_less [OF off w(1)] t by simp
  have room: "\<not> heap_off s - of_nat ?k < of_nat n"
  proof -
    have "heap_off s - of_nat ?k = of_nat (n + tot post)" by (simp add: off)
    then show ?thesis using of_nat_less_64 [of "n + tot post" n] t by simp
  qed
  have at: "hdr s (heap_base s + of_nat ?k) = \<lparr>hsize = of_nat n, isFree = False\<rparr>"
    using inv by (simp add: heap_inv_def hat_def)
  have "(of_nat n :: u64) \<noteq> 0" using of_nat_eq_64 [of n 0] w t by simp
  then show ?thesis
    using nz lt room word_mod_dvd [OF w(1) t(4)] inv
    by (simp add: free_def Let_def sizeof_header_def alignof_header_def at heap_inv_def arena_ok_def)
qed

text \<open>The state after the forward loop and the backward scan.\<close>

lemma release_scan:
  assumes inv: "heap_inv s (pre @ (n, False) # post)" and post: "merge_forth post = (ps, m)"
  shows "\<exists>t. heap_base t = heap_base s \<and> heap_size t = heap_size s \<and> heap_off t = heap_off s \<and>
    used (arec t) = of_nat (in_use pre + in_use post) \<and>
    (\<forall>j < 2 ^ 63. hat t j = (if j = tot pre then \<lparr>hsize = of_nat (n + m), isFree = True\<rparr> else hat s j)) \<and>
    release (heap_base s + of_nat (tot pre)) (of_nat (tot pre)) s =
      Some (merge_prev (heap_base s + of_nat (tot pre)) (of_nat (tot pre)) (of_nat (tot pre))
        (if pre = [] then of_nat (tot pre) else of_nat (tot (butlast pre))) t)"
proof -
  define k where "k = tot pre"
  have t: "k + n + tot post = unat (heap_off s)" "unat (heap_off s) < 2 ^ 63" "0 < n"
    using inv by (auto simp: heap_inv_def arena_ok_def word_le_nat_alt k_def)
  have pieces: "chain (hat s) 0 pre" "chain (hat s) (k + n) post" "sizes_ok pre" "sizes_ok post" "hat s k = \<lparr>hsize = of_nat n, isFree = False\<rparr>"
    "canon post \<or> post = []"
    using inv by (auto simp: heap_inv_def k_def canon_iff successively_append_iff successively_Cons)
  define r where "r = (arec s)\<lparr>free_count := free_count (arec s) + 1, used := (if of_nat n \<le> used (arec s) then used (arec s) - of_nat n else 0)\<rparr>"
  define s1 where "s1 = (set_hdr (heap_base s + of_nat k) (of_nat n) True s)\<lparr>arec := r\<rparr>"
  have "(of_nat n :: u64) \<le> of_nat (in_use pre + n + in_use post)"
    using in_use_le [of pre] in_use_le [of post] t by (subst of_nat_le_64) (simp_all add: k_def)
  then have used: "used r = of_nat (in_use pre + in_use post)"
    using inv by (simp add: r_def heap_inv_def add.assoc)
  have hat1: "hat s1 j = (if j = k then \<lparr>hsize = of_nat n, isFree = True\<rparr> else hat s j)" if "j < 2 ^ 63" for j
    using hat_set_hdr [of j k s "of_nat n" True] that t by (simp add: s1_def hat_def)
  have "hat s1 k = \<lparr>hsize = of_nat n, isFree = True\<rparr>" using hat1 [of k] t by simp
  moreover have "chain (hat s1) (k + n) post"
    by (rule same_chain [OF pieces(2,4)]) (use hat1 t in simp)
  moreover have "heap_off s1 = of_nat (k + n + tot post)" using t by (simp add: s1_def)
  ultimately obtain u where u: "absorb (of_nat k) s1 = Some u" "heap_base u = heap_base s1" "heap_size u = heap_size s1"
    "heap_off u = heap_off s1" "arec u = arec s1"
    and hatu: "\<And>j. j < 2 ^ 63 \<Longrightarrow> hat u j = (if j = k then \<lparr>hsize = of_nat (n + m), isFree = True\<rparr> else hat s1 j)"
    using absorb_refines [of s1 k n post ps m] pieces post t by auto
  have base: "heap_base s1 = heap_base s" by (simp add: s1_def)
  have "chain (hat u) 0 ([] @ pre)"
    using same_chain [OF pieces(1,3), of u] hatu hat1 t by (simp add: k_def)
  then have prev: "find_prev u (of_nat k) 0 (of_nat k) = Some (of_nat k, if pre = [] then of_nat k else of_nat (tot (butlast pre)))"
    using find_prev_refines [of u "[]" pre "of_nat k"] pieces(3) t by (simp add: k_def)
  have "hdr s (heap_base s + of_nat k) = \<lparr>hsize = of_nat n, isFree = False\<rparr>" using pieces(5) by (simp add: hat_def)
  then have "release (heap_base s + of_nat k) (of_nat k) s = do {
      u \<leftarrow> absorb (of_nat k) s1;
      (scan, prev_off) \<leftarrow> find_prev u (of_nat k) 0 (of_nat k);
      Some (merge_prev (heap_base s + of_nat k) (of_nat k) scan prev_off u) }"
    by (simp add: release_def Let_def s1_def r_def)
  then have "release (heap_base s + of_nat k) (of_nat k) s = Some (merge_prev (heap_base s + of_nat k) (of_nat k) (of_nat k)
      (if pre = [] then of_nat k else of_nat (tot (butlast pre))) u)"
    unfolding u(1) by (simp only: bind.bind_lunit prev prod.case)
  then show ?thesis
    unfolding k_def [symmetric] using u used hatu hat1 base by (intro exI [of _ u]) (simp add: s1_def)
qed

lemma heap_inv_step:
  assumes "heap_inv s bs" and "heap_base t = heap_base s" "heap_size t = heap_size s"
    and "sizes_ok cs" "canon cs" "chain (hat t) 0 cs" and "heap_off t = of_nat (tot cs)" "tot cs \<le> tot bs"
    and "used (arec t) = of_nat (in_use cs)"
  shows "heap_inv t cs"
proof -
  have "tot cs \<le> unat (heap_size s)" "unat (heap_size s) \<le> 2 ^ 62"
    using assms by (auto simp: heap_inv_def arena_ok_def word_le_nat_alt)
  then have "unat (heap_off t) = tot cs" using assms(7) unat_of_nat_64 [of "tot cs"] by simp
  then show ?thesis
    using assms by (simp add: heap_inv_def arena_ok_def word_le_nat_alt)
qed

lemma hat_off [simp]: "hat (s\<lparr>heap_off := x\<rparr>) = hat s"
  by (simp add: hat_def fun_eq_iff)

lemma merge_prev_refines:
  assumes pre: "chain (hat t) 0 pre" "sizes_ok pre" and ps: "chain (hat t) (tot pre + n) ps" "sizes_ok ps"
    and at: "hat t (tot pre) = \<lparr>hsize = of_nat n, isFree = True\<rparr>" and n: "0 < n"
    and off: "heap_off t = of_nat (tot pre + n + tot ps)" and small: "tot pre + n + tot ps < 2 ^ 63"
    and mb: "merge_back pre = (xs, q)"
  defines "cs \<equiv> if ps = [] then xs else xs @ (q + n, True) # ps"
    and "t' \<equiv> merge_prev (heap_base t + of_nat (tot pre)) (of_nat (tot pre)) (of_nat (tot pre))
        (if pre = [] then of_nat (tot pre) else of_nat (tot (butlast pre))) t"
  shows "chain (hat t') 0 cs \<and> heap_off t' = of_nat (tot cs) \<and> heap_base t' = heap_base t \<and> heap_size t' = heap_size t \<and>
    arec t' = arec t \<and> isFree (hat t' (tot pre))"
proof -
  have last: "(of_nat j + of_nat l :: u64) = heap_off t \<longleftrightarrow> ps = []" if "j + l = tot pre + n" for j l
  proof -
    have "(of_nat (tot pre + n) :: u64) = heap_off t \<longleftrightarrow> tot pre + n = tot pre + n + tot ps"
      unfolding off by (rule of_nat_eq_64) (use small in simp_all)
    moreover have "ps = [] \<or> 0 < tot ps" using ps(2) by (cases ps) auto
    ultimately show ?thesis using that by (auto simp flip: of_nat_add)
  qed
  show ?thesis
  proof (cases rule: merge_backE [of pre])
    case 1
    then have x: "xs = pre" "q = 0" using mb by auto
    have "\<not> isFree (hat t (tot (butlast pre)))" if "pre \<noteq> []"
      using that 1(2) pre(1) by (cases pre rule: rev_cases) (auto simp: prod_eq_iff split_beta)
    then have "t' = (if ps = [] then t\<lparr>heap_off := of_nat (tot pre)\<rparr> else t)"
      using at last [of "tot pre" n] by (simp add: t'_def merge_prev_def Let_def hat_def)
    then show ?thesis using x pre ps at off by (simp add: cs_def)
  next
    case (2 ys r)
    then have x: "xs = ys" "r = q" "tot (butlast pre) = tot xs" "tot pre = tot xs + q" using mb by auto
    have q: "0 < q" and prev: "hat t (tot xs) = \<lparr>hsize = of_nat q, isFree = True\<rparr>" and xs: "chain (hat t) 0 xs" "sizes_ok xs"
      using pre 2(1) x by simp_all
    let ?u = "set_hdr (heap_base t + of_nat (tot xs)) (of_nat (q + n)) True t"
    have ne: "(of_nat (tot xs) :: u64) \<noteq> of_nat (tot pre)"
      using of_nat_eq_64 [of "tot xs" "tot pre"] x(4) q small by simp
    have hat_u: "hat ?u j = (if j = tot xs then \<lparr>hsize = of_nat (q + n), isFree = True\<rparr> else hat t j)" if "j < 2 ^ 63" for j
      using hat_set_hdr [of j "tot xs" t] that small x(4) by simp
    have "t' = (if ps = [] then ?u\<lparr>heap_off := of_nat (tot xs)\<rparr> else ?u)"
      using at prev ne 2(1) x last [of "tot xs" "q + n"] hat_u [of "tot xs"] small
      by (simp add: t'_def merge_prev_def Let_def hat_def)
    moreover have "chain (hat ?u) 0 xs" by (rule same_chain [OF xs]) (use hat_u small x(4) in simp)
    moreover have "chain (hat ?u) (tot xs + (q + n)) ps"
      by (rule same_chain [of t]) (use ps x(4) hat_u small q in \<open>simp_all add: ac_simps\<close>)
    moreover have "isFree (hat ?u (tot pre))" using hat_u [of "tot pre"] at small by simp
    ultimately show ?thesis
      using x off hat_u [of "tot xs"] small by (simp add: cs_def ac_simps)
  qed
qed

lemma merge_forth_facts:
  assumes "merge_forth post = (ps, m)"
  shows "tot post = m + tot ps" and "sizes_ok post \<Longrightarrow> sizes_ok ps" and "chain g k post \<Longrightarrow> chain g (k + m) ps"
  by (cases rule: merge_forthE [of post]; use assms in auto)+

lemma free_refines:
  assumes inv: "heap_inv s (pre @ (n, False) # post)"
  shows "\<exists>s'. free (heap_base s + of_nat (tot pre) + sizeof_header) s = Some s' \<and>
    heap_inv s' (a_free pre n post) \<and> heap_base s' = heap_base s \<and> heap_size s' = heap_size s \<and> isFree (hat s' (tot pre))"
proof -
  obtain ps m where post: "merge_forth post = (ps, m)" by fastforce
  obtain xs q where mb: "merge_back pre = (xs, q)" by fastforce
  note fp = merge_forth_facts [OF post]
  obtain t where t: "heap_base t = heap_base s" "heap_size t = heap_size s" "heap_off t = heap_off s"
      "used (arec t) = of_nat (in_use pre + in_use post)"
    and hat_t: "\<And>j. j < 2 ^ 63 \<Longrightarrow> hat t j = (if j = tot pre then \<lparr>hsize = of_nat (n + m), isFree = True\<rparr> else hat s j)"
    and rel: "release (heap_base s + of_nat (tot pre)) (of_nat (tot pre)) s = Some (merge_prev (heap_base s + of_nat (tot pre))
        (of_nat (tot pre)) (of_nat (tot pre)) (if pre = [] then of_nat (tot pre) else of_nat (tot (butlast pre))) t)"
    using release_scan [OF inv post] by blast
  have sz: "tot pre + (n + m) + tot ps = unat (heap_off s)" "unat (heap_off s) < 2 ^ 63" "0 < n"
    and ok: "sizes_ok pre" "sizes_ok post" "chain (hat s) 0 pre" "chain (hat s) (tot pre + n) post"
    and canon: "canon (pre @ (n, False) # post)" "sizes_ok (pre @ (n, False) # post)"
    using inv fp(1) by (auto simp: heap_inv_def arena_ok_def word_le_nat_alt)
  have pre_t: "chain (hat t) 0 pre" by (rule same_chain [OF ok(3,1)]) (use hat_t sz in simp)
  have "chain (hat s) (tot pre + (n + m)) ps" using fp(3) [OF ok(4)] by (simp add: ac_simps)
  then have ps_t: "chain (hat t) (tot pre + (n + m)) ps"
    by (rule same_chain [OF _ fp(2) [OF ok(2)]]) (use hat_t sz in simp)
  have at: "hat t (tot pre) = \<lparr>hsize = of_nat (n + m), isFree = True\<rparr>" using hat_t [of "tot pre"] sz by simp
  have "heap_off t = of_nat (tot pre + (n + m) + tot ps)" using t(3) sz(1) by simp
  note merged = merge_prev_refines [OF pre_t ok(1) ps_t fp(2) [OF ok(2)] at _ this _ mb]
  have eq: "a_free pre n post = (if ps = [] then xs else xs @ (q + (n + m), True) # ps)"
    by (simp add: a_free_def post mb ac_simps)
  have le: "tot (a_free pre n post) \<le> tot (pre @ (n, False) # post)"
    unfolding eq using fp(1) mb by (cases rule: merge_backE [of pre]) auto
  define u where "u = merge_prev (heap_base s + of_nat (tot pre)) (of_nat (tot pre)) (of_nat (tot pre))
    (if pre = [] then of_nat (tot pre) else of_nat (tot (butlast pre))) t"
  have u: "chain (hat u) 0 (a_free pre n post)" "heap_off u = of_nat (tot (a_free pre n post))" "heap_base u = heap_base s"
    "heap_size u = heap_size s" "arec u = arec t" "isFree (hat u (tot pre))"
    using merged sz t by (simp_all add: eq u_def)
  have "heap_inv u (a_free pre n post)"
    using a_free_facts [OF canon] u t(4) le by (intro heap_inv_step [OF inv]) simp_all
  then show ?thesis using u free_live [OF inv] rel by (simp add: u_def)
qed

section \<open>The arena after initialisation\<close>

lemma pow2_4096: "is_power_of_2 ARENA_ALIGNMENT" "unat ARENA_ALIGNMENT = 4096"
  by (simp_all add: is_power_of_2_def ARENA_ALIGNMENT_def)

lemma heap_init_inv:
  assumes base: "base \<noteq> 0" and room: "slack 4096 (unat base) < unat sz" and top: "unat base + unat sz < 2 ^ 64" and sz: "unat sz \<le> 2 ^ 62"
  shows "heap_inv (heap_init base sz s) []"
    and "unat (heap_base (heap_init base sz s)) = unat base + slack 4096 (unat base)"
    and "unat (heap_size (heap_init base sz s)) = unat sz - slack 4096 (unat base)"
proof -
  define d where "d = slack 4096 (unat base)"
  have d: "d < 4096" unfolding d_def by (rule slack_less) simp
  have ud: "unat (of_nat d :: u64) = d" using unat_of_nat_64 [of d] d by simp
  have lost: "align_up base ARENA_ALIGNMENT - base = of_nat d"
    using align_up_eq [OF pow2_4096(1), of base] pow2_4096(2) by (simp add: d_def)
  have aligned: "align_up base ARENA_ALIGNMENT = base + of_nat d" using lost by (simp add: diff_eq_eq add.commute)
  have ub: "unat (base + of_nat d) = unat base + d"
    using room top d by (simp add: unat_word_ariths(1) unat_of_nat_64 d_def)
  have lt: "\<not> sz \<le> of_nat d" using room d by (simp add: word_le_nat_alt unat_of_nat_64 d_def)
  have us: "unat (sz - of_nat d) = unat sz - d"
    using lt ud by (simp add: unat_sub order_less_imp_le not_le)
  have eq: "heap_init base sz s = s\<lparr>heap_base := base + of_nat d, heap_size := sz - of_nat d, heap_off := 0,
      arec := zero_record\<lparr>total := sz - of_nat d\<rparr>\<rparr>"
    using lt lost aligned by (simp add: heap_init_def Let_def)
  have "4096 dvd unat base + d" unfolding d_def by (rule slack_aligns) simp
  moreover have "base + of_nat d \<noteq> 0" using ub base by (metis add_is_0 unat_0 unat_eq_0)
  ultimately show "heap_inv (heap_init base sz s) []"
    using top sz room by (simp add: eq heap_inv_def arena_ok_def ub us zero_record_def d_def [symmetric])
  show "unat (heap_base (heap_init base sz s)) = unat base + slack 4096 (unat base)"
    "unat (heap_size (heap_init base sz s)) = unat sz - slack 4096 (unat base)"
    by (simp_all add: eq ub us d_def [symmetric])
qed

end
