(* ===== verification/Heap_Laws.thy ===== *)
theory Heap_Laws
  imports Heap_Refine "HOL-Library.Multiset"
begin

text \<open>
  The contract \<open>heap_api\<close> that the kernel's allocator gives its clients, its interpretation on \<open>operator new\<close>
  and \<open>operator delete\<close> of theory \<open>Allocator\<close>, and the properties of the allocator.
\<close>

section \<open>The contract of the allocator\<close>

text \<open>
  What a client of a heap relies on: \<open>inv h L\<close> says that \<open>h\<close> is a well-formed heap whose blocks in use
  are \<open>L\<close>, the payload addresses paired with the number of bytes usable there.
\<close>

datatype heap_op = New u64 | Delete nat

text \<open>Running a script of allocations and frees; \<open>Delete i\<close> frees the \<open>i\<close>-th pointer held.\<close>

fun heap_script :: "(u64 \<Rightarrow> 'h \<Rightarrow> ('h \<times> u64) option) \<Rightarrow> (u64 \<Rightarrow> 'h \<Rightarrow> 'h option) \<Rightarrow> heap_op list
    \<Rightarrow> 'h \<times> u64 list \<Rightarrow> ('h \<times> u64 list) option" where
  "heap_script new del [] (h, ps) = Some (h, ps)"
| "heap_script new del (New n # ops) (h, ps) =
     (case new n h of None \<Rightarrow> None
      | Some (h', p) \<Rightarrow> heap_script new del ops (h', if p = 0 then ps else p # ps))"
| "heap_script new del (Delete i # ops) (h, ps) =
     (if i < length ps
      then (case del (ps ! i) h of None \<Rightarrow> None
            | Some h' \<Rightarrow> heap_script new del ops (h', take i ps @ drop (Suc i) ps))
      else heap_script new del ops (h, ps))"

lemma distinct_remove_nth:
  assumes "distinct xs" and "i < length xs"
  shows "set (take i xs @ drop (Suc i) xs) = set xs - {xs ! i}"
proof -
  have "xs = take i xs @ xs ! i # drop (Suc i) xs" using assms(2) by (rule id_take_nth_drop)
  then have "distinct (take i xs @ xs ! i # drop (Suc i) xs)" "set xs = set (take i xs @ xs ! i # drop (Suc i) xs)"
    using assms(1) by simp_all
  then show ?thesis by auto
qed

text \<open>
  The pointers in use as a multiset, for a client that accounts for them: \<open>M\<close> holds each of them once.
\<close>

definition owned :: "('h \<Rightarrow> (u64 \<times> nat) set \<Rightarrow> bool) \<Rightarrow> 'h \<Rightarrow> u64 multiset \<Rightarrow> bool" where
  "owned I h M \<longleftrightarrow> (\<exists>L. I h L \<and> finite L \<and> M = image_mset fst (mset_set L))"

lemma fst_image_remove:
  assumes "\<And>r. (p, r) \<in> L \<Longrightarrow> m = r"
  shows "fst ` (L - {(p, m)}) = fst ` L - {p}"
proof (rule set_eqI)
  fix x
  show "x \<in> fst ` (L - {(p, m)}) \<longleftrightarrow> x \<in> fst ` L - {p}"
    using assms by (cases "x = p") (auto simp: image_iff Bex_def)
qed

locale heap_api =
  fixes inv :: "'h \<Rightarrow> (u64 \<times> nat) set \<Rightarrow> bool"
    and new :: "u64 \<Rightarrow> 'h \<Rightarrow> ('h \<times> u64) option"
    and del :: "u64 \<Rightarrow> 'h \<Rightarrow> 'h option"
  assumes new_total: "inv h L \<Longrightarrow> \<exists>h' p. new n h = Some (h', p) \<and>
      (p = 0 \<and> inv h' L \<or> p \<noteq> 0 \<and> (\<exists>m. unat n \<le> m \<and> (p, m) \<notin> L \<and> inv h' (insert (p, m) L)))"
    and del_live: "\<lbrakk>inv h L; (p, m) \<in> L\<rbrakk> \<Longrightarrow> \<exists>h'. del p h = Some h' \<and> inv h' (L - {(p, m)})"
    and del_null: "del 0 h = Some h"
    and live_apart: "\<lbrakk>inv h L; (p, m) \<in> L; (q, r) \<in> L; (p, m) \<noteq> (q, r)\<rbrakk> \<Longrightarrow> unat p + m \<le> unat q \<or> unat q + r \<le> unat p"
    and live_size: "\<lbrakk>inv h L; (p, m) \<in> L; (p, r) \<in> L\<rbrakk> \<Longrightarrow> m = r"
    and live_addr: "\<lbrakk>inv h L; (p, m) \<in> L\<rbrakk> \<Longrightarrow> p \<noteq> 0"
begin

lemma newE:
  assumes "inv h L" and "new n h = Some (h', p)"
  obtains (null) "p = 0" "inv h' L" | (fresh) m where "p \<noteq> 0" "unat n \<le> m" "(p, m) \<notin> L" "inv h' (insert (p, m) L)"
  using new_total [OF assms(1), of n] assms(2) by auto

lemma new_del:
  assumes "inv h L" and "new n h = Some (h', p)" and "p \<noteq> 0"
  shows "\<exists>h''. del p h' = Some h'' \<and> inv h'' L"
  using assms
proof (cases rule: newE)
  case (fresh m)
  then show ?thesis using del_live [of h' "insert (p, m) L" p m] by auto
qed simp

lemma owned_new:
  assumes "owned inv h M"
  shows "\<exists>h' p. new n h = Some (h', p) \<and> (p = 0 \<and> owned inv h' M \<or> p \<noteq> 0 \<and> owned inv h' (add_mset p M))"
proof -
  obtain L where L: "inv h L" "finite L" "M = image_mset fst (mset_set L)" using assms by (auto simp: owned_def)
  obtain h' p where new: "new n h = Some (h', p)" using new_total [OF L(1)] by blast
  from L(1) new show ?thesis
  proof (cases rule: newE)
    case null
    then show ?thesis using new L by (auto simp: owned_def)
  next
    case (fresh m)
    have "image_mset fst (mset_set (insert (p, m) L)) = add_mset p M" using fresh(3) L(2,3) by simp
    then have "owned inv h' (add_mset p M)" using fresh(4) L(2) by (metis finite.insertI owned_def)
    then show ?thesis using new fresh(1) by blast
  qed
qed

lemma owned_del:
  assumes "owned inv h (add_mset p M)"
  shows "\<exists>h'. del p h = Some h' \<and> owned inv h' M"
proof -
  obtain L where L: "inv h L" "finite L" "add_mset p M = image_mset fst (mset_set L)" using assms by (auto simp: owned_def)
  then have "p \<in># image_mset fst (mset_set L)" by (metis union_single_eq_member)
  then obtain m where m: "(p, m) \<in> L" using L(2) by auto
  have "mset_set L = add_mset (p, m) (mset_set (L - {(p, m)}))" using m L(2) by (metis mset_set.remove)
  then have "M = image_mset fst (mset_set (L - {(p, m)}))" using L(3) by simp
  then show ?thesis using del_live [OF L(1) m] L(2) unfolding owned_def by blast
qed

text \<open>
  A client that holds exactly the pointers in use keeps doing so, whatever it allocates and frees:
  every script runs to its end.
\<close>

lemma script_total:
  assumes "inv h L" and "fst ` L = set ps" and "distinct ps"
  shows "\<exists>h' ps' L'. heap_script new del ops (h, ps) = Some (h', ps') \<and> inv h' L' \<and> fst ` L' = set ps' \<and> distinct ps'"
  using assms
proof (induction ops arbitrary: h L ps)
  case Nil
  then show ?case by auto
next
  case (Cons op ops)
  show ?case
  proof (cases op)
    case (New n)
    obtain h' p where new: "new n h = Some (h', p)" using new_total [OF Cons.prems(1)] by blast
    from Cons.prems(1) new show ?thesis
    proof (cases rule: newE)
      case null
      then show ?thesis using Cons.IH [of h' L ps] Cons.prems New new by simp
    next
      case (fresh m)
      have "p \<notin> set ps"
      proof
        assume "p \<in> set ps"
        then obtain r where r: "(p, r) \<in> L" using Cons.prems(2) by force
        then have "r = m" using live_size [OF fresh(4), of p r m] by simp
        then show False using r fresh(3) by simp
      qed
      then show ?thesis using Cons.IH [of h' "insert (p, m) L" "p # ps"] Cons.prems New new fresh by simp
    qed
  next
    case (Delete i)
    show ?thesis
    proof (cases "i < length ps")
      case True
      then obtain m where m: "(ps ! i, m) \<in> L" using Cons.prems(2) nth_mem [OF True] by force
      obtain h' where del: "del (ps ! i) h = Some h'" "inv h' (L - {(ps ! i, m)})"
        using del_live [OF Cons.prems(1) m] by blast
      have "fst ` (L - {(ps ! i, m)}) = set ps - {ps ! i}"
        unfolding Cons.prems(2) [symmetric] using live_size [OF Cons.prems(1) m] by (rule fst_image_remove)
      moreover have "set (take i ps @ drop (Suc i) ps) = set ps - {ps ! i}"
        using Cons.prems(3) True by (rule distinct_remove_nth)
      moreover have "distinct (take i ps @ drop (Suc i) ps)"
        using Cons.prems(3) by (auto simp: set_take_disj_set_drop_if_distinct)
      ultimately show ?thesis using Cons.IH [OF del(2), of "take i ps @ drop (Suc i) ps"] True Delete del(1) by simp
    next
      case False
      then show ?thesis using Cons.IH [OF Cons.prems] Delete by simp
    qed
  qed
qed

end

definition live_set :: "heap \<Rightarrow> block list \<Rightarrow> (u64 \<times> nat) set" where
  "live_set s bs = (\<lambda>(k, n). (heap_base s + of_nat k + sizeof_header, n - 16)) ` set (live_from 0 bs)"

definition heap_live :: "heap \<Rightarrow> (u64 \<times> nat) set \<Rightarrow> bool" where
  "heap_live s L \<longleftrightarrow> (\<exists>bs. heap_inv s bs \<and> L = live_set s bs)"

lemma live_addr_unat:
  assumes "heap_inv s bs" and "(k, n) \<in> set (live_from 0 bs)"
  shows "unat (heap_base s + of_nat k + sizeof_header) = unat (heap_base s) + k + 16" and "16 \<le> n"
    and "k + n \<le> unat (heap_size s)"
proof -
  have r: "k + n \<le> tot bs" using live_range [OF assms(2)] by simp
  obtain xs ys where "bs = xs @ (n, False) # ys" using live_split [OF assms(2)] by blast
  then have "0 < n" "16 dvd n" using assms(1) by (simp_all add: heap_inv_def)
  then show n: "16 \<le> n" using mult_16_cases by auto
  show k: "k + n \<le> unat (heap_size s)" using assms(1) r by (simp add: heap_inv_def word_le_nat_alt)
  show "unat (heap_base s + of_nat k + sizeof_header) = unat (heap_base s) + k + 16"
    using assms(1) n k by (simp add: heap_inv_def arena_ok_def sizeof_header_def unat_word_ariths(1) unat_of_nat_64)
qed

lemma live_addr_inj:
  assumes "heap_inv s bs" and "(k, n) \<in> set (live_from 0 bs)" "(j, m) \<in> set (live_from 0 bs)"
    and "heap_base s + of_nat k + sizeof_header = heap_base s + of_nat j + sizeof_header"
  shows "k = j" and "n = m"
proof -
  have "unat (heap_base s) + k + 16 = unat (heap_base s) + j + 16"
    unfolding live_addr_unat(1) [OF assms(1,2), symmetric] live_addr_unat(1) [OF assms(1,3), symmetric] assms(4) by (rule refl)
  then show kj: "k = j" by simp
  show "n = m"
    using live_disjoint [OF assms(2,3)] kj live_addr_unat(2) [OF assms(1,2)] live_addr_unat(2) [OF assms(1,3)] by auto
qed

definition fits :: "heap \<Rightarrow> u64 \<Rightarrow> u64 \<Rightarrow> bool" where
  "fits s n al \<longleftrightarrow> is_power_of_2 (real_align al) \<and>
     unat (heap_off s) + unat (real_align al) + unat n + 32 \<le> unat (heap_size s)"

definition placed :: "heap \<Rightarrow> u64 \<Rightarrow> u64 \<Rightarrow> u64 \<Rightarrow> nat \<Rightarrow> bool" where
  "placed s n al p m \<longleftrightarrow> unat n \<le> m \<and> m < unat n + 16 \<and> unat (real_align al) dvd unat p \<and>
     unat (heap_base s) + 16 \<le> unat p \<and> unat p + m \<le> unat (heap_base s) + unat (heap_size s)"

lemma heap_live_fail: "heap_live s L \<Longrightarrow> heap_live (fst (fail_alloc s)) L"
  unfolding heap_live_def by (auto simp: heap_inv_def arena_ok_def fail_alloc_def live_set_def hat_def [abs_def])

lemma alloc_spec:
  assumes "heap_live s L"
  shows "alloc n al s = Some (fail_alloc s) \<and> \<not> fits s n al \<or>
    (\<exists>s' p m. alloc n al s = Some (s', p) \<and> p \<noteq> 0 \<and> (p, m) \<notin> L \<and> placed s n al p m \<and> heap_live s' (insert (p, m) L) \<and>
      heap_base s' = heap_base s \<and> heap_size s' = heap_size s \<and>
      unat (heap_off s') \<le> unat (heap_off s) + unat (real_align al) + unat n + 32)"
proof -
  obtain bs where inv: "heap_inv s bs" and L: "L = live_set s bs" using assms by (auto simp: heap_live_def)
  from inv show ?thesis
  proof (cases rule: alloc_cases [of s bs n al])
    case fail
    then show ?thesis using blen_facts(3) [of n] by (auto simp: fits_def)
  next
    case (made k cs s')
    note facts = a_alloc_live [OF inv made(1,2)]
    have in_cs: "(k, blen n) \<in> set (live_from 0 cs)" by (simp add: facts(2))
    let ?p = "heap_base s + of_nat k + sizeof_header"
    have up: "unat ?p = unat (heap_base s) + k + 16" using live_addr_unat(1) [OF made(4) in_cs] made(5) by simp
    then have nz: "?p \<noteq> 0" by (metis add_is_0 unat_0 zero_neq_numeral)
    have eq: "live_set s' cs = insert (?p, blen n - 16) L"
      using facts(2) made(5) by (simp add: live_set_def L)
    have "(?p, blen n - 16) \<notin> L"
    proof
      assume "(?p, blen n - 16) \<in> L"
      then obtain j m where j: "(j, m) \<in> set (live_from 0 bs)" "heap_base s + of_nat j + sizeof_header = ?p"
        by (auto simp: L live_set_def)
      then have "(j, m) \<in> set (live_from 0 cs)" using facts(2) by simp
      from live_addr_inj [OF made(4) this in_cs] j(2) made(5) show False using j(1) facts(3) by simp
    qed
    moreover have "placed s n al ?p (blen n - 16)"
      unfolding placed_def up using facts(1,4) blen_facts(1,3) [of n] by auto
    moreover have "heap_live s' (insert (?p, blen n - 16) L)" using made(4) eq by (auto simp: heap_live_def)
    moreover have "unat (heap_off s') \<le> unat (heap_off s) + unat (real_align al) + unat n + 32"
      using made(7) blen_facts(3) [of n] by simp
    ultimately show ?thesis using made(3,5,6) nz by blast
  qed
qed

lemma heap_new:
  assumes "heap_live s L"
  shows "\<exists>s' p. alloc n al s = Some (s', p) \<and>
    (p = 0 \<and> heap_live s' L \<or> p \<noteq> 0 \<and> (\<exists>m. unat n \<le> m \<and> (p, m) \<notin> L \<and> heap_live s' (insert (p, m) L)))"
proof -
  have "snd (fail_alloc s) = 0" by (simp add: fail_alloc_def)
  then show ?thesis using alloc_spec [OF assms, of n al] heap_live_fail [OF assms] by (metis placed_def prod.collapse)
qed

lemma free_spec:
  assumes "heap_live s L" and "(p, m) \<in> L"
  shows "\<exists>s'. free p s = Some s' \<and> heap_live s' (L - {(p, m)}) \<and> heap_base s' = heap_base s \<and>
    heap_size s' = heap_size s \<and> free p s' = Some (reject s')"
proof -
  obtain bs where inv: "heap_inv s bs" and L: "L = live_set s bs" using assms by (auto simp: heap_live_def)
  obtain k n where k: "(k, n) \<in> set (live_from 0 bs)" "p = heap_base s + of_nat k + sizeof_header" "m = n - 16"
    using assms(2) by (auto simp: L live_set_def)
  obtain xs ys where bs: "bs = xs @ (n, False) # ys" "k = tot xs" using live_split [OF k(1)] by auto
  obtain s' where s': "free p s = Some s'" "heap_inv s' (a_free xs n ys)" "heap_base s' = heap_base s" "heap_size s' = heap_size s"
    "isFree (hat s' k)"
    using free_refines [of s xs n ys] inv bs k(2) by auto
  have n: "0 < n" using live_addr_unat(2) [OF inv k(1)] by simp
  let ?f = "\<lambda>(k, n). (heap_base s + of_nat k + sizeof_header, n - 16 :: nat)"
  have "inj_on ?f (set (live_from 0 bs))"
    by (rule inj_onI) (auto dest: live_addr_inj [OF inv] simp del: add_right_cancel add_left_cancel)
  then have "?f ` (set (live_from 0 bs) - {(k, n)}) = ?f ` set (live_from 0 bs) - ?f ` {(k, n)}"
    using k(1) by (intro inj_on_image_set_diff [of ?f "set (live_from 0 bs)"]) auto
  then have "live_set s' (a_free xs n ys) = L - {(p, m)}"
    unfolding live_set_def L live_a_free [OF n] bs(1) [symmetric] bs(2) [symmetric] s'(3) k(2,3) by simp
  then have live: "heap_live s' (L - {(p, m)})" using s' by (auto simp: heap_live_def)
  have "unat p = unat (heap_base s) + k + 16" using live_addr_unat(1) [OF inv k(1)] k(2) by simp
  then have "p \<noteq> 0" by (metis add_is_0 unat_0 zero_neq_numeral)
  moreover have "heap_base s \<noteq> 0" using inv by (simp add: heap_inv_def arena_ok_def)
  moreover have "k < 2 ^ 64" using live_addr_unat(3) [OF inv k(1)] unsigned_less [of "heap_size s", where ?'a = nat] by simp
  moreover have "16 dvd k" using sizes_ok_dvd [of xs] inv bs by (simp add: heap_inv_def)
  then have "unat ((of_nat k :: u64) mod 16) = 0"
    using unat_of_nat_64 [OF \<open>k < 2 ^ 64\<close>] by (simp add: unat_mod)
  then have "(of_nat k :: u64) mod 16 = 0" by (simp add: unat_eq_0)
  moreover have "p - sizeof_header = heap_base s' + of_nat k" "p - sizeof_header - heap_base s' = of_nat k"
    using k(2) s'(3) by simp_all
  ultimately have "free p s' = Some (reject s')"
    using s'(3,5) by (simp add: free_def Let_def hat_def sizeof_header_def)
  then show ?thesis using s' live by blast
qed

lemma heap_delete:
  assumes "heap_live s L" and "(p, m) \<in> L"
  shows "\<exists>s'. free p s = Some s' \<and> heap_live s' (L - {(p, m)})"
  using free_spec [OF assms] by blast

lemma live_below_top:
  assumes "heap_live s L" and "(p, m) \<in> L"
  shows "unat p + m < 2 ^ 64"
proof -
  obtain bs k n where inv: "heap_inv s bs" "(k, n) \<in> set (live_from 0 bs)" "p = heap_base s + of_nat k + sizeof_header" "m = n - 16"
    using assms by (auto simp: heap_live_def live_set_def)
  then have "unat p = unat (heap_base s) + k + 16" "k + n \<le> unat (heap_size s)" "16 \<le> n" using live_addr_unat by auto
  moreover have "unat (heap_base s) + unat (heap_size s) < 2 ^ 64" using inv(1) by (simp add: heap_inv_def arena_ok_def)
  ultimately show ?thesis using inv(4) by linarith
qed

text \<open>The untouched space at the end of the arena; an allocation that fits there succeeds.\<close>

definition heap_room :: "heap \<Rightarrow> nat" where
  "heap_room s = unat (heap_size s) - unat (heap_off s)"

lemma alloc_room:
  assumes "heap_live s L" and "unat al \<le> 16" and "unat n + 64 \<le> heap_room s"
  shows "\<exists>s' p m. alloc n al s = Some (s', p) \<and> p \<noteq> 0 \<and> (p, m) \<notin> L \<and> heap_live s' (insert (p, m) L) \<and> heap_room s \<le> heap_room s' + (unat n + 64)"
proof -
  have "al \<le> 16" using assms(2) by (simp add: word_le_nat_alt)
  then have al: "real_align al = 16" by (auto simp: real_align_def GRANULARITY_def sizeof_header_def)
  have "fits s n al" using assms(3) pow2_16 by (simp add: fits_def al heap_room_def)
  then obtain s' p m where s': "alloc n al s = Some (s', p)" "p \<noteq> 0" "(p, m) \<notin> L" "heap_live s' (insert (p, m) L)"
    "heap_size s' = heap_size s" "unat (heap_off s') \<le> unat (heap_off s) + unat (real_align al) + unat n + 32"
    using alloc_spec [OF assms(1), of n al] by blast
  then have "heap_room s \<le> heap_room s' + (unat n + 64)" unfolding heap_room_def s'(5) al by simp
  then show ?thesis using s' by blast
qed

interpretation kheap: heap_api heap_live operator_new operator_delete
proof unfold_locales
  fix h L n
  assume "heap_live h L"
  then show "\<exists>h' p. operator_new n h = Some (h', p) \<and> (p = 0 \<and> heap_live h' L \<or>
      p \<noteq> 0 \<and> (\<exists>m. unat n \<le> m \<and> (p, m) \<notin> L \<and> heap_live h' (insert (p, m) L)))"
    unfolding operator_new_def by (rule heap_new)
next
  fix h L p m
  assume "heap_live h L" and "(p, m) \<in> L"
  then show "\<exists>h'. operator_delete p h = Some h' \<and> heap_live h' (L - {(p, m)})"
    unfolding operator_delete_def by (rule heap_delete)
next
  show "operator_delete 0 h = Some h" for h by (simp add: operator_delete_def free_def)
next
  fix h L p m q r
  assume "heap_live h L" and "(p, m) \<in> L" and "(q, r) \<in> L" and ne: "(p, m) \<noteq> (q, r)"
  then obtain bs k n j i where inv: "heap_inv h bs" and k: "(k, n) \<in> set (live_from 0 bs)" "(j, i) \<in> set (live_from 0 bs)"
    and pq: "p = heap_base h + of_nat k + sizeof_header" "m = n - 16" "q = heap_base h + of_nat j + sizeof_header" "r = i - 16"
    by (auto simp: heap_live_def live_set_def)
  have "k + n \<le> j \<or> j + i \<le> k" using live_disjoint [OF k] ne pq by auto
  then show "unat p + m \<le> unat q \<or> unat q + r \<le> unat p"
    unfolding pq live_addr_unat(1) [OF inv k(1)] live_addr_unat(1) [OF inv k(2)]
    using live_addr_unat(2) [OF inv k(1)] live_addr_unat(2) [OF inv k(2)] by linarith
next
  fix h L p m r
  assume "heap_live h L" and "(p, m) \<in> L" and "(p, r) \<in> L"
  then obtain bs k n j i where inv: "heap_inv h bs" and k: "(k, n) \<in> set (live_from 0 bs)" "(j, i) \<in> set (live_from 0 bs)"
    and pq: "p = heap_base h + of_nat k + sizeof_header" "m = n - 16" "p = heap_base h + of_nat j + sizeof_header" "r = i - 16"
    by (auto simp: heap_live_def live_set_def simp del: add_right_cancel add_left_cancel)
  then show "m = r" using live_addr_inj(2) [OF inv k] by simp
next
  fix h L p m
  assume "heap_live h L" and "(p, m) \<in> L"
  then obtain bs k n where inv: "heap_inv h bs" "(k, n) \<in> set (live_from 0 bs)" "p = heap_base h + of_nat k + sizeof_header"
    by (auto simp: heap_live_def live_set_def)
  then have "unat p = unat (heap_base h) + k + 16" using live_addr_unat(1) by simp
  then show "p \<noteq> 0" by (metis add_is_0 unat_0 zero_neq_numeral)
qed

text \<open>When nothing is in use, coalescing has given the whole arena back.\<close>

lemma canon_all_free: "canon bs \<Longrightarrow> live_from k bs = [] \<Longrightarrow> bs = []"
  by (induction bs arbitrary: k rule: canon.induct) (auto split: if_splits)

lemma heap_live_empty:
  assumes "heap_live s {}"
  shows "heap_off s = 0" and "used (arec s) = 0"
proof -
  obtain bs where inv: "heap_inv s bs" and "live_from 0 bs = []" using assms by (auto simp: heap_live_def live_set_def)
  then have "bs = []" using canon_all_free [of bs 0] by (simp add: heap_inv_def)
  then show "heap_off s = 0" "used (arec s) = 0" using inv by (auto simp: heap_inv_def unat_eq_0)
qed

lemma heap_init_live:
  assumes "base \<noteq> 0" and "slack 4096 (unat base) < unat sz" and "unat base + unat sz < 2 ^ 64" and "unat sz \<le> 2 ^ 62"
  shows "heap_live (heap_init base sz s) {}"
  unfolding heap_live_def using heap_init_inv(1) [OF assms] by (intro exI [of _ "[]"]) (simp add: live_set_def)

definition demo_heap :: heap where
  "demo_heap = heap_init 4096 8192 \<lparr>heap_base = 0, heap_size = 0, heap_off = 0, hdr = (\<lambda>_. \<lparr>hsize = 0, isFree = False\<rparr>),
     arec = zero_record\<rparr>"

lemma demo_heap_live: "heap_live demo_heap {}"
  unfolding demo_heap_def by (rule heap_init_live) (simp_all add: slack_def)

lemma demo_heap_fits: "fits demo_heap 100 64"
proof -
  have al: "real_align 64 = 64" by (simp add: real_align_def GRANULARITY_def sizeof_header_def)
  have off: "heap_off demo_heap = 0" using demo_heap_live by (rule heap_live_empty)
  have sz: "unat (heap_size demo_heap) = 8192"
    unfolding demo_heap_def using heap_init_inv(3) [of 4096 8192] by (simp add: slack_def)
  show ?thesis unfolding fits_def al off sz by (simp add: is_power_of_2_def)
qed

section \<open>Properties of the allocator\<close>

text \<open>
  C11. An allocation on a heap whose blocks in use are \<open>L\<close> always returns. It gives the null pointer,
  leaving the blocks alone and counting the failure, only when the request with its alignment does not fit behind the
  last block; otherwise it gives a payload that is aligned as asked, lies in the arena, holds the requested size and
  is disjoint from every payload in use, and the blocks in use are \<open>L\<close> and the new one.
\<close>

theorem alloc_correct:
  assumes "heap_live s L"
  shows "alloc n al s = Some (fail_alloc s) \<and> \<not> fits s n al \<and> heap_live (fst (fail_alloc s)) L \<or>
    (\<exists>s' p m. alloc n al s = Some (s', p) \<and> p \<noteq> 0 \<and> placed s n al p m \<and> heap_live s' (insert (p, m) L) \<and>
       (\<forall>(q, r) \<in> L. unat p + m \<le> unat q \<or> unat q + r \<le> unat p))"
proof -
  have "\<forall>(q, r) \<in> L. unat p + m \<le> unat q \<or> unat q + r \<le> unat p"
    if "heap_live s' (insert (p, m) L)" and "(p, m) \<notin> L" for s' p m
    using kheap.live_apart [OF that(1), of p m] that(2) by fastforce
  then show ?thesis using alloc_spec [OF assms, of n al] heap_live_fail [OF assms] by blast
qed

theorem alloc_correct_witness:
  "\<exists>s' p m. alloc 100 64 demo_heap = Some (s', p) \<and> placed demo_heap 100 64 p m \<and> heap_live s' {(p, m)}"
  using alloc_correct [OF demo_heap_live, of 100 64] demo_heap_fits by auto

text \<open>
  C12. Freeing a block in use always returns, removes exactly that block from the blocks in use, and keeps
  the arena; when it was the last one in use, the whole arena is untouched space again.
\<close>

theorem free_correct:
  assumes "heap_live s L" and "(p, m) \<in> L"
  shows "\<exists>s'. free p s = Some s' \<and> heap_live s' (L - {(p, m)}) \<and> heap_base s' = heap_base s \<and> heap_size s' = heap_size s \<and>
    (L = {(p, m)} \<longrightarrow> heap_off s' = 0 \<and> used (arec s') = 0)"
  using free_spec [OF assms] heap_live_empty by fastforce

theorem free_correct_witness:
  "\<exists>s p s'. alloc 100 64 demo_heap = Some (s, p) \<and> free p s = Some s' \<and> heap_live s' {} \<and> heap_off s' = 0"
proof -
  obtain s p m where s: "alloc 100 64 demo_heap = Some (s, p)" "heap_live s {(p, m)}"
    using alloc_spec [OF demo_heap_live, of 100 64] demo_heap_fits by auto
  then show ?thesis using free_correct [OF s(2), of p m] by auto
qed

text \<open>
  C13. A block that was freed is not freed again: the second \<open>free\<close> of the same pointer is rejected
  and counted and changes nothing else, also when the block was merged with its neighbours meanwhile.
\<close>

theorem double_free_rejected:
  assumes "heap_live s L" and "(p, m) \<in> L" and "free p s = Some s'"
  shows "free p s' = Some (reject s') \<and> hdr (reject s') = hdr s' \<and> heap_off (reject s') = heap_off s' \<and>
    free_rejected (arec (reject s')) = free_rejected (arec s') + 1"
  using free_spec [OF assms(1,2)] assms(3) by (auto simp: reject_def)

theorem double_free_rejected_witness:
  "\<exists>s p s'. alloc 100 64 demo_heap = Some (s, p) \<and> free p s = Some s' \<and> free p s' = Some (reject s')"
proof -
  obtain s p m where s: "alloc 100 64 demo_heap = Some (s, p)" "heap_live s {(p, m)}"
    using alloc_spec [OF demo_heap_live, of 100 64] demo_heap_fits by auto
  obtain s' where "free p s = Some s'" using free_spec [OF s(2), of p m] by auto
  then show ?thesis using s double_free_rejected [OF s(2), of p m s'] by auto
qed

text \<open>
  C14. Every sequence of \<open>operator new\<close> and \<open>operator delete\<close> on a fresh arena, where \<open>delete\<close> is called
  on held pointers, runs to its end. The pointers held are then exactly the blocks in use, their payloads are
  pairwise disjoint, and once all are deleted the arena is empty again.
\<close>

theorem heap_script_correct:
  assumes "base \<noteq> 0" and "slack 4096 (unat base) < unat sz" and "unat base + unat sz < 2 ^ 64" and "unat sz \<le> 2 ^ 62"
  shows "\<exists>s' ps L. heap_script operator_new operator_delete ops (heap_init base sz s, []) = Some (s', ps) \<and>
    heap_live s' L \<and> distinct ps \<and> set ps = fst ` L \<and>
    (\<forall>(p, m) \<in> L. \<forall>(q, r) \<in> L. (p, m) \<noteq> (q, r) \<longrightarrow> unat p + m \<le> unat q \<or> unat q + r \<le> unat p) \<and>
    (ps = [] \<longrightarrow> heap_off s' = 0 \<and> used (arec s') = 0)"
proof -
  obtain s' ps L where run: "heap_script operator_new operator_delete ops (heap_init base sz s, []) = Some (s', ps)"
    and live: "heap_live s' L" "fst ` L = set ps" "distinct ps"
    using kheap.script_total [OF heap_init_live [OF assms], of "[]" ops s] by auto
  have "\<forall>(p, m) \<in> L. \<forall>(q, r) \<in> L. (p, m) \<noteq> (q, r) \<longrightarrow> unat p + m \<le> unat q \<or> unat q + r \<le> unat p"
    using kheap.live_apart [OF live(1)] by fastforce
  moreover have "ps = [] \<longrightarrow> heap_off s' = 0 \<and> used (arec s') = 0"
    using heap_live_empty [of s'] live by auto
  ultimately show ?thesis using run live by blast
qed

theorem heap_script_correct_witness:
  "\<exists>s' ps L. heap_script operator_new operator_delete [New 100, New 50, Delete 1, New 8, Delete 0] (demo_heap, []) = Some (s', ps) \<and>
    heap_live s' L \<and> distinct ps \<and> set ps = fst ` L"
proof -
  have "(4096 :: u64) \<noteq> 0" "slack 4096 (unat (4096 :: u64)) < unat (8192 :: u64)" "unat (4096 :: u64) + unat (8192 :: u64) < 2 ^ 64"
    "unat (8192 :: u64) \<le> 2 ^ 62"
    by (simp_all add: slack_def)
  from heap_script_correct [OF this] show ?thesis unfolding demo_heap_def by blast
qed

end
