(* ===== verification/Libc_String.thy ===== *)
theory Libc_String
  imports Heap_Laws "HOL-Library.Sublist"
begin

text \<open>
  The C string library of \<^verbatim>\<open>libc/src/string.cpp\<close> over a flat byte memory. A loop that runs until it meets
  a NUL byte is a partial function: on a memory without one it has no result. The theorems say what each
  routine does on NUL-terminated strings, as operations on lists of bytes.
\<close>

type_synonym mem = "u64 \<Rightarrow> u8"

section \<open>Routines\<close>

definition copy_byte :: "u64 \<Rightarrow> u64 \<Rightarrow> nat \<Rightarrow> mem \<Rightarrow> mem" where
  "copy_byte d s i m = m(d + of_nat i := m (s + of_nat i))"

definition memcpy :: "u64 \<Rightarrow> u64 \<Rightarrow> u64 \<Rightarrow> mem \<Rightarrow> mem" where
  "memcpy dst src n m = fold (copy_byte dst src) [0..<unat n] m"

definition memmove :: "u64 \<Rightarrow> u64 \<Rightarrow> u64 \<Rightarrow> mem \<Rightarrow> mem" where
  "memmove dst src n m =
     (if dst = src \<or> n = 0 then m
      else if dst < src then fold (copy_byte dst src) [0..<unat n] m
      else fold (copy_byte dst src) (rev [0..<unat n]) m)"

definition memset :: "u64 \<Rightarrow> 32 word \<Rightarrow> u64 \<Rightarrow> mem \<Rightarrow> mem" where
  "memset dst c n m = fold (\<lambda>i m. m(dst + of_nat i := ucast c)) [0..<unat n] m"

fun memcmp_loop :: "mem \<Rightarrow> u64 \<Rightarrow> u64 \<Rightarrow> nat list \<Rightarrow> int" where
  "memcmp_loop m a b [] = 0"
| "memcmp_loop m a b (i # is) =
     (let x = m (a + of_nat i); y = m (b + of_nat i)
      in if x < y then - 1 else if y < x then 1 else memcmp_loop m a b is)"

definition memcmp :: "mem \<Rightarrow> u64 \<Rightarrow> u64 \<Rightarrow> u64 \<Rightarrow> int" where
  "memcmp m a b n = memcmp_loop m a b [0..<unat n]"

partial_function (option) strlen_loop :: "mem \<Rightarrow> u64 \<Rightarrow> u64 \<Rightarrow> u64 option" where
  "strlen_loop m s n = (if m (s + n) \<noteq> 0 then strlen_loop m s (n + 1) else Some n)"

definition strlen :: "mem \<Rightarrow> u64 \<Rightarrow> u64 option" where
  "strlen m s = (if s = 0 then Some 0 else strlen_loop m s 0)"

text \<open>The result \<open>(ca > cb) - (ca < cb)\<close> of the comparisons.\<close>

definition byte_order :: "u8 \<Rightarrow> u8 \<Rightarrow> int" where
  "byte_order ca cb = of_bool (cb < ca) - of_bool (ca < cb)"

partial_function (option) strcmp :: "mem \<Rightarrow> u64 \<Rightarrow> u64 \<Rightarrow> int option" where
  "strcmp m a b = (if m a \<noteq> 0 \<and> m a = m b then strcmp m (a + 1) (b + 1) else Some (byte_order (m a) (m b)))"

fun strncmp_loop :: "mem \<Rightarrow> u64 \<Rightarrow> u64 \<Rightarrow> nat list \<Rightarrow> int" where
  "strncmp_loop m a b [] = 0"
| "strncmp_loop m a b (i # is) =
     (let ca = m (a + of_nat i); cb = m (b + of_nat i)
      in if ca \<noteq> cb then byte_order ca cb else if ca = 0 then 0 else strncmp_loop m a b is)"

definition strncmp :: "mem \<Rightarrow> u64 \<Rightarrow> u64 \<Rightarrow> u64 \<Rightarrow> int" where
  "strncmp m a b n = strncmp_loop m a b [0..<unat n]"

text \<open>The loop \<open>while ((*dst++ = *src++) != 0)\<close>.\<close>

partial_function (option) copy_string :: "u64 \<Rightarrow> u64 \<Rightarrow> mem \<Rightarrow> mem option" where
  "copy_string d s m =
     (let c = m s; m = m(d := c) in if c \<noteq> 0 then copy_string (d + 1) (s + 1) m else Some m)"

definition strcpy :: "u64 \<Rightarrow> u64 \<Rightarrow> mem \<Rightarrow> mem option" where
  "strcpy dst src m = copy_string dst src m"

text \<open>The loops \<open>while (i < n && src[i])\<close> of \<open>strncpy\<close> and \<open>strncat\<close>, over the number of bytes still allowed.\<close>

fun copy_bounded :: "u64 \<Rightarrow> u64 \<Rightarrow> nat \<Rightarrow> nat \<Rightarrow> mem \<Rightarrow> mem \<times> nat" where
  "copy_bounded d s i 0 m = (m, i)"
| "copy_bounded d s i (Suc r) m =
     (if m (s + of_nat i) \<noteq> 0 then copy_bounded d s (Suc i) r (copy_byte d s i m) else (m, i))"

definition strncpy :: "u64 \<Rightarrow> u64 \<Rightarrow> u64 \<Rightarrow> mem \<Rightarrow> mem" where
  "strncpy dst src n m =
     (let (m, i) = copy_bounded dst src 0 (unat n) m
      in fold (\<lambda>i m. m(dst + of_nat i := 0)) [i..<unat n] m)"

partial_function (option) find_end :: "mem \<Rightarrow> u64 \<Rightarrow> u64 option" where
  "find_end m p = (if m p \<noteq> 0 then find_end m (p + 1) else Some p)"

definition strcat :: "u64 \<Rightarrow> u64 \<Rightarrow> mem \<Rightarrow> mem option" where
  "strcat dst src m = (case find_end m dst of None \<Rightarrow> None | Some d \<Rightarrow> copy_string d src m)"

definition strncat :: "u64 \<Rightarrow> u64 \<Rightarrow> u64 \<Rightarrow> mem \<Rightarrow> mem option" where
  "strncat dst src n m =
     (case find_end m dst of None \<Rightarrow> None
      | Some d \<Rightarrow> let (m, i) = copy_bounded d src 0 (unat n) m in Some (m(d + of_nat i := 0)))"

text \<open>Searches return an address, 0 standing for the null pointer.\<close>

partial_function (option) strchr_loop :: "mem \<Rightarrow> u8 \<Rightarrow> u64 \<Rightarrow> u64 option" where
  "strchr_loop m wanted s =
     (if m s \<noteq> 0 then if m s = wanted then Some s else strchr_loop m wanted (s + 1)
      else Some (if wanted = 0 then s else 0))"

definition strchr :: "mem \<Rightarrow> u64 \<Rightarrow> 32 word \<Rightarrow> u64 option" where
  "strchr m s c = strchr_loop m (ucast c) s"

partial_function (option) strrchr_loop :: "mem \<Rightarrow> u8 \<Rightarrow> u64 \<Rightarrow> u64 \<Rightarrow> u64 option" where
  "strrchr_loop m wanted s result =
     (let result = (if m s = wanted then s else result)
      in if m s = 0 then Some result else strrchr_loop m wanted (s + 1) result)"

definition strrchr :: "mem \<Rightarrow> u64 \<Rightarrow> 32 word \<Rightarrow> u64 option" where
  "strrchr m s c = strrchr_loop m (ucast c) s 0"

text \<open>The inner loop of \<open>strstr\<close> gives the byte it stops at in the needle.\<close>

partial_function (option) match_here :: "mem \<Rightarrow> u64 \<Rightarrow> u64 \<Rightarrow> u8 option" where
  "match_here m a b = (if m a \<noteq> 0 \<and> m b \<noteq> 0 \<and> m a = m b then match_here m (a + 1) (b + 1) else Some (m b))"

partial_function (option) strstr_loop :: "mem \<Rightarrow> u64 \<Rightarrow> u64 \<Rightarrow> u64 option" where
  "strstr_loop m haystack needle =
     (if m haystack = 0 then Some 0
      else case match_here m haystack needle of None \<Rightarrow> None
           | Some c \<Rightarrow> if c = 0 then Some haystack else strstr_loop m (haystack + 1) needle)"

definition strstr :: "mem \<Rightarrow> u64 \<Rightarrow> u64 \<Rightarrow> u64 option" where
  "strstr m haystack needle = (if m needle = 0 then Some haystack else strstr_loop m haystack needle)"

definition strdup :: "u64 \<Rightarrow> heap \<times> mem \<Rightarrow> ((heap \<times> mem) \<times> u64) option" where
  "strdup s = (\<lambda>(h, m).
     if s = 0 then Some ((h, m), 0)
     else case strlen m s of None \<Rightarrow> None
          | Some len \<Rightarrow>
              (case alloc (len + 1) 1 h of None \<Rightarrow> None
               | Some (h, result) \<Rightarrow>
                   if result = 0 then Some ((h, m), 0) else Some ((h, memcpy result s (len + 1) m), result)))"

section \<open>Ranges of bytes\<close>

text \<open>
  The address \<open>q\<close> lies in the \<open>n\<close> bytes from \<open>d\<close> when \<open>unat (q - d) < n\<close>, also across the top of the
  address space.
\<close>

definition in_range :: "u64 \<Rightarrow> nat \<Rightarrow> u64 \<Rightarrow> bool" where
  "in_range d n q \<longleftrightarrow> unat (q - d) < n"

definition apart :: "u64 \<Rightarrow> nat \<Rightarrow> u64 \<Rightarrow> nat \<Rightarrow> bool" where
  "apart d n s k \<longleftrightarrow> (\<forall>q. \<not> (in_range d n q \<and> in_range s k q))"

definition write_bytes :: "u64 \<Rightarrow> u8 list \<Rightarrow> mem \<Rightarrow> mem" where
  "write_bytes d xs m = (\<lambda>q. if in_range d (length xs) q then xs ! unat (q - d) else m q)"

definition read_bytes :: "mem \<Rightarrow> u64 \<Rightarrow> nat \<Rightarrow> u8 list" where
  "read_bytes m s n = map (\<lambda>i. m (s + of_nat i)) [0..<n]"

lemma length_read_bytes [simp]: "length (read_bytes m s n) = n"
  by (simp add: read_bytes_def)

lemma nth_read_bytes [simp]: "i < n \<Longrightarrow> read_bytes m s n ! i = m (s + of_nat i)"
  by (simp add: read_bytes_def)

lemma read_bytes_Suc: "read_bytes m p (Suc n) = m p # read_bytes m (p + 1) n"
  unfolding read_bytes_def by (simp only: upt_conv_Cons map_Suc_upt [symmetric]) (simp add: ac_simps)

lemma in_range_0 [simp]: "\<not> in_range d 0 q"
  by (simp add: in_range_def)

lemma in_range_Suc: "in_range d (Suc n) q \<longleftrightarrow> in_range d n q \<or> q = d + of_nat n" if "n < 2 ^ 64"
proof -
  have "unat (q - d) = n \<longleftrightarrow> q = d + of_nat n"
    using unat_of_nat_64 [OF that] by (metis add_diff_cancel_left' diff_add_cancel add.commute word_unat_eq_iff)
  then show ?thesis by (auto simp: in_range_def less_Suc_eq)
qed

lemma in_range_at: "\<lbrakk>i < n; i < 2 ^ 64\<rbrakk> \<Longrightarrow> in_range d n (d + of_nat i)"
  by (simp add: in_range_def unat_of_nat_64)

lemma in_rangeE:
  assumes "in_range d n q"
  obtains i where "i < n" "i < 2 ^ 64" "q = d + of_nat i"
proof
  show "unat (q - d) < n" using assms by (simp add: in_range_def)
  show "unat (q - d) < 2 ^ 64" using unsigned_less [of "q - d", where ?'a = nat] by simp
  show "q = d + of_nat (unat (q - d))" by simp
qed

lemma read_write_bytes:
  assumes "length xs \<le> 2 ^ 64"
  shows "read_bytes (write_bytes d xs m) d (length xs) = xs"
  using assms by (intro nth_equalityI) (simp_all add: write_bytes_def in_range_def unat_of_nat_64)

lemma write_bytes_frame: "\<not> in_range d (length xs) q \<Longrightarrow> write_bytes d xs m q = m q"
  by (simp add: write_bytes_def)

lemma write_bytes_Cons:
  assumes "Suc (length xs) \<le> 2 ^ 64"
  shows "write_bytes d (x # xs) m = write_bytes (d + 1) xs (m(d := x))"
proof
  fix q
  show "write_bytes d (x # xs) m q = write_bytes (d + 1) xs (m(d := x)) q"
  proof (cases "q = d")
    case True
    have "unat (d - (d + 1)) = 2 ^ 64 - 1" by (simp add: unsigned_minus_1_eq_mask mask_eq_exp_minus_1)
    then show ?thesis using True assms by (simp add: write_bytes_def in_range_def)
  next
    case False
    then have "q - d \<noteq> 0" by simp
    then have "unat (q - d) = Suc (unat (q - d - 1))"
      using unat_minus_one [of "q - d"] unat_gt_0 [of "q - d"] by simp
    then show ?thesis using False by (simp add: write_bytes_def in_range_def diff_diff_eq)
  qed
qed

section \<open>Copying blocks\<close>

lemma shifted_apart:
  fixes d s :: u64
  assumes "n < 2 ^ 64" and "\<not> (0 < unat (d - s) \<and> unat (d - s) < Suc n)" and "i < n"
  shows "s + of_nat n \<noteq> d + of_nat i"
proof
  assume "s + of_nat n = d + of_nat i"
  then have "d + of_nat i - (s + of_nat i) = s + of_nat n - (s + of_nat i)" by (simp only:)
  then have "d - s = of_nat n - of_nat i" by simp
  also have "\<dots> = of_nat (n - i)" using assms(3) by (simp add: of_nat_diff)
  finally have "unat (d - s) = n - i" using unat_of_nat_64 [OF less_imp_diff_less [OF assms(1), of i]] by simp
  then show False using assms(2,3) by simp
qed

lemma copy_byte_write:
  assumes "n < 2 ^ 64" and "m' (s + of_nat n) = m (s + of_nat n)" and "m' = write_bytes d (read_bytes m s n) m"
  shows "copy_byte d s n m' = write_bytes d (read_bytes m s (Suc n)) m"
proof
  fix q
  show "copy_byte d s n m' q = write_bytes d (read_bytes m s (Suc n)) m q"
  proof (cases "q = d + of_nat n")
    case True
    then show ?thesis using assms(1,2) by (simp add: copy_byte_def write_bytes_def in_range_def unat_of_nat_64)
  next
    case False
    then show ?thesis using assms(1)
      by (simp add: copy_byte_def assms(3) write_bytes_def in_range_Suc) (simp add: in_range_def)
  qed
qed

lemma copy_forward:
  assumes "n \<le> 2 ^ 64" and "\<not> (0 < unat (d - s) \<and> unat (d - s) < n)"
  shows "fold (copy_byte d s) [0..<n] m = write_bytes d (read_bytes m s n) m"
  using assms
proof (induction n)
  case 0
  then show ?case by (simp add: write_bytes_def fun_eq_iff)
next
  case (Suc n)
  have IH: "fold (copy_byte d s) [0..<n] m = write_bytes d (read_bytes m s n) m" using Suc by auto
  have "\<not> in_range d n (s + of_nat n)"
    using shifted_apart [of n d s] Suc.prems by (auto elim!: in_rangeE)
  then have "write_bytes d (read_bytes m s n) m (s + of_nat n) = m (s + of_nat n)" by (simp add: write_bytes_def)
  then show ?case using copy_byte_write [of n _ s m d] Suc.prems(1) by (simp add: IH)
qed

lemma copy_backward:
  assumes "n \<le> 2 ^ 64" and "\<not> (0 < unat (s - d) \<and> unat (s - d) < n)"
  shows "fold (copy_byte d s) (rev [0..<n]) m = write_bytes d (read_bytes m s n) m"
  using assms
proof (induction n arbitrary: m)
  case 0
  then show ?case by (simp add: write_bytes_def fun_eq_iff)
next
  case (Suc n)
  let ?m = "copy_byte d s n m"
  have "read_bytes ?m s n = read_bytes m s n"
  proof (rule nth_equalityI)
    fix i
    assume "i < length (read_bytes ?m s n)"
    then show "read_bytes ?m s n ! i = read_bytes m s n ! i"
      using shifted_apart [of n s d i] Suc.prems by (auto simp: copy_byte_def)
  qed simp
  then have "fold (copy_byte d s) (rev [0..<Suc n]) m = write_bytes d (read_bytes m s n) ?m"
    using Suc.IH [of ?m] Suc.prems by (auto simp: less_Suc_eq)
  also have "\<dots> = write_bytes d (read_bytes m s (Suc n)) m"
  proof
    fix q
    show "write_bytes d (read_bytes m s n) ?m q = write_bytes d (read_bytes m s (Suc n)) m q"
    proof (cases "q = d + of_nat n")
      case True
      then show ?thesis using Suc.prems(1) by (simp add: copy_byte_def write_bytes_def in_range_def unat_of_nat_64)
    next
      case False
      then show ?thesis using Suc.prems(1)
        by (simp add: copy_byte_def write_bytes_def in_range_Suc) (simp add: in_range_def)
    qed
  qed
  finally show ?case .
qed

lemma memcpy_apart:
  assumes "apart d (unat n) s (unat n)"
  shows "memcpy d s n m = write_bytes d (read_bytes m s (unat n)) m"
proof -
  have "\<not> (0 < unat (d - s) \<and> unat (d - s) < unat n)"
  proof
    assume "0 < unat (d - s) \<and> unat (d - s) < unat n"
    then have "in_range s (unat n) d" "in_range d (unat n) d" by (simp_all add: in_range_def)
    then show False using assms by (auto simp: apart_def)
  qed
  then show ?thesis
    unfolding memcpy_def using unsigned_less [of n, where ?'a = nat] by (intro copy_forward) simp_all
qed

section \<open>NUL-terminated strings\<close>

fun cstr :: "mem \<Rightarrow> u64 \<Rightarrow> u8 list \<Rightarrow> bool" where
  "cstr m p [] \<longleftrightarrow> m p = 0"
| "cstr m p (c # s) \<longleftrightarrow> c \<noteq> 0 \<and> m p = c \<and> cstr m (p + 1) s"

lemma cstr_iff:
  "cstr m p s \<longleftrightarrow> read_bytes m p (length s) = s \<and> m (p + of_nat (length s)) = 0 \<and> 0 \<notin> set s"
proof (induction s arbitrary: p)
  case (Cons c s)
  then show ?case using Cons.IH [of "p + 1"] by (auto simp: read_bytes_Suc ac_simps)
qed (simp add: read_bytes_def)

lemma cstr_length:
  assumes "cstr m p s"
  shows "length s < 2 ^ 64"
proof (rule ccontr)
  assume "\<not> length s < 2 ^ 64"
  then have "2 ^ 64 \<le> length s" by simp
  define k where "k = unat (of_nat (length s) :: u64)"
  have k: "k < 2 ^ 64" "(of_nat k :: u64) = of_nat (length s)"
    unfolding k_def using unsigned_less [of "of_nat (length s) :: u64", where ?'a = nat] by simp_all
  then have lt: "k < length s" using \<open>2 ^ 64 \<le> length s\<close> by simp
  then have "read_bytes m p (length s) ! k = m (p + of_nat (length s))" by (simp add: k(2))
  moreover have "read_bytes m p (length s) = s" "m (p + of_nat (length s)) = 0" "0 \<notin> set s"
    using assms cstr_iff by blast+
  ultimately show False using lt nth_mem [of k s] by simp
qed

lemma cstr_frame:
  assumes "cstr m p s" and "\<And>q. in_range p (Suc (length s)) q \<Longrightarrow> m' q = m q"
  shows "cstr m' p s"
proof -
  have "m' (p + of_nat i) = m (p + of_nat i)" if "i \<le> length s" for i
    using assms(2) [OF in_range_at [of i]] cstr_length [OF assms(1)] that by simp
  then have "read_bytes m' p (length s) = read_bytes m p (length s)" "m' (p + of_nat (length s)) = m (p + of_nat (length s))"
    by (simp_all add: read_bytes_def)
  then show ?thesis using assms(1) by (simp add: cstr_iff)
qed

lemma cstr_write:
  assumes "0 \<notin> set s" and "length s < 2 ^ 64"
  shows "cstr (write_bytes d (s @ [0]) m) d s"
proof -
  have "read_bytes (write_bytes d (s @ [0]) m) d (length (s @ [0])) = s @ [0]"
    using assms by (intro read_write_bytes) simp
  then have "read_bytes (write_bytes d (s @ [0]) m) d (length s) @ [write_bytes d (s @ [0]) m (d + of_nat (length s))] = s @ [0]"
    by (simp add: read_bytes_def)
  then show ?thesis using assms by (simp add: cstr_iff)
qed

lemma strlen_cstr:
  assumes "cstr m p s" and "p \<noteq> 0"
  shows "strlen m p = Some (of_nat (length s))"
proof -
  have "strlen_loop m p n = Some (n + of_nat (length t))" if "cstr m (p + n) t" for n t
    using that
  proof (induction t arbitrary: n)
    case Nil
    then show ?case by (subst strlen_loop.simps) simp
  next
    case (Cons c t)
    then show ?case using Cons.IH [of "n + 1"] by (subst strlen_loop.simps) (simp add: ac_simps)
  qed
  from this [of 0 s] show ?thesis using assms by (simp add: strlen_def)
qed

lemma find_end_cstr: "cstr m p s \<Longrightarrow> find_end m p = Some (p + of_nat (length s))"
proof (induction s arbitrary: p)
  case Nil
  then show ?case by (subst find_end.simps) simp
next
  case (Cons c s)
  then show ?case by (subst find_end.simps) (simp add: ac_simps)
qed

text \<open>The order of strings as sequences of unsigned bytes.\<close>

fun str_order :: "u8 list \<Rightarrow> u8 list \<Rightarrow> int" where
  "str_order [] [] = 0"
| "str_order [] (c # t) = - 1"
| "str_order (c # s) [] = 1"
| "str_order (c # s) (d # t) = (if c < d then - 1 else if d < c then 1 else str_order s t)"

lemma byte_order_simps [simp]:
  "byte_order c c = 0" "c < d \<Longrightarrow> byte_order c d = - 1" "d < c \<Longrightarrow> byte_order c d = 1"
  by (auto simp: byte_order_def)

lemma byte_pos: "(c :: u8) \<noteq> 0 \<Longrightarrow> 0 < c"
  by (simp add: word_neq_0_conv)

lemma strcmp_cstr: "\<lbrakk>cstr m a s; cstr m b t\<rbrakk> \<Longrightarrow> strcmp m a b = Some (str_order s t)"
proof (induction s t arbitrary: a b rule: str_order.induct)
  case 1
  then show ?case by (subst strcmp.simps) simp
next
  case (2 c t)
  then show ?case by (subst strcmp.simps) (simp add: byte_pos)
next
  case (3 c s)
  then show ?case by (subst strcmp.simps) (simp add: byte_pos)
next
  case (4 c s d t)
  then show ?case by (subst strcmp.simps) (auto simp: byte_order_def)
qed

lemma str_order_eq_0 [simp]: "str_order s t = 0 \<longleftrightarrow> s = t"
  by (induction s t rule: str_order.induct) auto

lemma str_order_lexord: "str_order s t = - 1 \<longleftrightarrow> (s, t) \<in> lexord {(x, y). x < y}"
  by (induction s t rule: str_order.induct) auto

lemma str_order_flip: "str_order t s = - str_order s t"
  by (induction s t rule: str_order.induct) auto

lemma strncmp_cstr:
  assumes "cstr m a s" and "cstr m b t"
  shows "strncmp m a b n = str_order (take (unat n) s) (take (unat n) t)"
proof -
  have "strncmp_loop m a b [i..<i + r] = str_order (take r s) (take r t)"
    if "cstr m (a + of_nat i) s" and "cstr m (b + of_nat i) t" for i r s t
    using that
  proof (induction r arbitrary: i s t)
    case (Suc r)
    have upt: "[i..<i + Suc r] = i # [Suc i..<Suc i + r]" by (simp add: upt_conv_Cons)
    show ?case
      unfolding upt
    proof (cases s; cases t)
      fix c s' d t'
      assume "s = c # s'" and "t = d # t'"
      then show "strncmp_loop m a b (i # [Suc i..<Suc i + r]) = str_order (take (Suc r) s) (take (Suc r) t)"
        using Suc.prems Suc.IH [of "Suc i" s' t'] by (auto simp: ac_simps byte_order_def)
    qed (use Suc.prems in \<open>simp_all add: byte_pos\<close>)
  qed simp
  from this [of 0 s t "unat n"] show ?thesis using assms by (simp add: strncmp_def)
qed

lemma memcmp_eq: "memcmp m a b n = str_order (read_bytes m a (unat n)) (read_bytes m b (unat n))"
proof -
  have "memcmp_loop m a b is = str_order (map (\<lambda>i. m (a + of_nat i)) is) (map (\<lambda>i. m (b + of_nat i)) is)" for "is"
    by (induction "is") (auto simp: Let_def)
  then show ?thesis by (simp add: memcmp_def read_bytes_def)
qed

section \<open>Building strings\<close>

lemma in_range_tail:
  assumes "n < 2 ^ 64" and "in_range (d + 1) n q"
  shows "in_range d (Suc n) q" and "q \<noteq> d"
proof -
  obtain i where i: "i < n" "i < 2 ^ 64" "q = d + 1 + of_nat i" using assms(2) by (rule in_rangeE)
  then have q: "q = d + of_nat (Suc i)" by simp
  then show "in_range d (Suc n) q" unfolding q using assms(1) i by (intro in_range_at) simp_all
  have "unat (of_nat (Suc i) :: u64) = Suc i" using assms(1) i by (intro unat_of_nat_64) simp
  then show "q \<noteq> d" using q by (metis Zero_not_Suc add_cancel_left_right unat_0)
qed

lemma apart_tail:
  assumes "apart d (Suc n) s (Suc k)" and "n < 2 ^ 64" and "k < 2 ^ 64"
  shows "apart (d + 1) n (s + 1) k" and "\<not> in_range (s + 1) k d" and "d \<noteq> s"
proof -
  show "apart (d + 1) n (s + 1) k"
    using assms(1) in_range_tail(1) [OF assms(2)] in_range_tail(1) [OF assms(3)] unfolding apart_def by blast
  have d: "in_range d (Suc n) d" "in_range s (Suc k) s" by (simp_all add: in_range_def)
  then show "\<not> in_range (s + 1) k d" using assms(1) in_range_tail(1) [OF assms(3)] unfolding apart_def by blast
  show "d \<noteq> s" using d assms(1) by (auto simp: apart_def)
qed

lemma copy_string_cstr:
  "\<lbrakk>cstr m s t; apart d (Suc (length t)) s (Suc (length t))\<rbrakk> \<Longrightarrow> copy_string d s m = Some (write_bytes d (t @ [0]) m)"
proof (induction t arbitrary: d s m)
  case Nil
  then show ?case by (subst copy_string.simps) (auto simp: write_bytes_def in_range_def fun_eq_iff unat_eq_0)
next
  case (Cons c t)
  have len: "Suc (length t) < 2 ^ 64" using cstr_length [OF Cons.prems(1)] by simp
  note ap = apart_tail [OF Cons.prems(2) [simplified] len len]
  have "cstr (m(d := c)) (s + 1) t"
    by (rule cstr_frame [of m]) (use Cons.prems(1) ap(2) in auto)
  then have "copy_string (d + 1) (s + 1) (m(d := c)) = Some (write_bytes (d + 1) (t @ [0]) (m(d := c)))"
    by (rule Cons.IH) (rule ap(1))
  also have "\<dots> = Some (write_bytes d ((c # t) @ [0]) m)"
    using write_bytes_Cons [of "t @ [0]" d c m] len by simp
  finally show ?case using Cons.prems(1) by (subst copy_string.simps) simp
qed

lemma write_bytes_Nil [simp]: "write_bytes d [] m = m"
  by (simp add: write_bytes_def fun_eq_iff)

lemma write_bytes_append:
  "length xs + length ys \<le> 2 ^ 64 \<Longrightarrow>
    write_bytes d (xs @ ys) m = write_bytes (d + of_nat (length xs)) ys (write_bytes d xs m)"
  by (induction xs arbitrary: d m) (simp_all add: write_bytes_Cons ac_simps)

lemma fill_bytes:
  assumes "i \<le> n" and "n \<le> 2 ^ 64"
  shows "fold (\<lambda>i m. m(d + of_nat i := c)) [i..<n] m = write_bytes (d + of_nat i) (replicate (n - i) c) m"
  using assms
proof (induction "n - i" arbitrary: i m)
  case (Suc k)
  then have upt: "[i..<n] = i # [Suc i..<n]" and k: "k = n - Suc i" "Suc i \<le> n" "n - i = Suc (n - Suc i)"
    by (auto simp: upt_conv_Cons)
  then show ?case using Suc.hyps(1) [OF k(1,2) Suc.prems(2), of "m(d + of_nat i := c)"] Suc.prems(2)
      write_bytes_Cons [of "replicate (n - Suc i) c" "d + of_nat i" c m]
    by (simp add: ac_simps)
qed simp

lemma memset_eq: "memset d c n m = write_bytes d (replicate (unat n) (ucast c)) m"
  unfolding memset_def using fill_bytes [of 0 "unat n" d "ucast c" m] unsigned_less [of n, where ?'a = nat] by simp

lemma copy_bounded_cstr:
  "\<lbrakk>cstr m (s + of_nat i) t; apart (d + of_nat i) (min r (length t)) (s + of_nat i) (Suc (length t))\<rbrakk> \<Longrightarrow>
    copy_bounded d s i r m = (write_bytes (d + of_nat i) (take r t) m, i + min r (length t))"
proof (induction r arbitrary: i t m)
  case (Suc r)
  show ?case
  proof (cases t)
    case (Cons c u)
    have len: "min r (length u) < 2 ^ 64" "Suc (length u) < 2 ^ 64" using cstr_length [OF Suc.prems(1)] Cons by simp_all
    have "apart (d + of_nat i) (Suc (min r (length u))) (s + of_nat i) (Suc (Suc (length u)))" using Suc.prems(2) Cons by simp
    note ap = apart_tail [OF this len]
    define m' where "m' = m(d + of_nat i := c)"
    have "cstr m' (s + of_nat i + 1) u"
      unfolding m'_def by (rule cstr_frame [of m]) (use Suc.prems(1) Cons ap(2) in auto)
    then have "copy_bounded d s (Suc i) r m' = (write_bytes (d + of_nat i + 1) (take r u) m', Suc i + min r (length u))"
      using Suc.IH [of m' "Suc i" u] ap(1) by (simp add: ac_simps)
    moreover have "write_bytes (d + of_nat i) (c # take r u) m = write_bytes (d + of_nat i + 1) (take r u) m'"
      unfolding m'_def using len by (intro write_bytes_Cons) simp
    moreover have "m (s + of_nat i) = c" "c \<noteq> 0" using Suc.prems(1) Cons by simp_all
    ultimately show ?thesis using Cons by (simp add: copy_byte_def m'_def)
  qed (use Suc.prems in simp)
qed simp

lemma cstr_append:
  "cstr m p (x @ y) \<longleftrightarrow> read_bytes m p (length x) = x \<and> 0 \<notin> set x \<and> cstr m (p + of_nat (length x)) y"
proof (induction x arbitrary: p)
  case (Cons c x)
  then show ?case using Cons.IH [of "p + 1"] by (auto simp: read_bytes_Suc ac_simps)
qed (simp add: read_bytes_def)

lemma apart_ordered:
  assumes "unat d + n \<le> unat s" and "unat s + k \<le> 2 ^ 64"
  shows "apart d n s k" and "apart s k d n"
proof -
  have no: "\<not> (in_range d n q \<and> in_range s k q)" for q
  proof
    assume q: "in_range d n q \<and> in_range s k q"
    then obtain i where i: "i < n" "i < 2 ^ 64" "q = d + of_nat i" by (auto elim: in_rangeE)
    from q obtain j where j: "j < k" "j < 2 ^ 64" "q = s + of_nat j" by (auto elim: in_rangeE)
    have "unat q = unat d + i"
      unfolding i(3) using assms i unsigned_less [of s, where ?'a = nat] by (simp add: unat_word_ariths(1) unat_of_nat_64)
    moreover have "unat q = unat s + j"
      unfolding j(3) using assms j by (simp add: unat_word_ariths(1) unat_of_nat_64)
    ultimately show False using assms i by simp
  qed
  then show "apart d n s k" "apart s k d n" by (auto simp: apart_def)
qed

lemma strcat_cstr:
  assumes x: "cstr m d x" and t: "cstr m s t" and len: "length x + length t < 2 ^ 64"
    and ap: "apart d (Suc (length x + length t)) s (Suc (length t))" and y: "0 \<notin> set y" "length y \<le> length t"
  defines "m' \<equiv> write_bytes (d + of_nat (length x)) (y @ [0]) m"
  shows "cstr m' d (x @ y)" and "\<not> in_range d (Suc (length x + length y)) q \<Longrightarrow> m' q = m q"
    and "apart (d + of_nat (length x)) (Suc (length t)) s (Suc (length t))"
proof -
  have sub: "in_range d (length x + k) q" if r: "in_range (d + of_nat (length x)) k q" and l: "length x + k \<le> 2 ^ 64" for q k
  proof -
    from r obtain i where i: "i < k" "i < 2 ^ 64" "q = d + of_nat (length x) + of_nat i" by (rule in_rangeE)
    then have q: "q = d + of_nat (length x + i)" by simp
    show ?thesis unfolding q using i l by (intro in_range_at) simp_all
  qed
  have "d + of_nat i \<noteq> d + of_nat (length x) + of_nat j" if "i < length x" "j \<le> length y" for i j
  proof
    assume "d + of_nat i = d + of_nat (length x) + of_nat j"
    then have "(of_nat i :: u64) = of_nat (length x + j)" by simp
    moreover have "i < 2 ^ 64" "length x + j < 2 ^ 64" using that len y by simp_all
    ultimately have "i = length x + j" by (metis of_nat_eq_64)
    then show False using that by simp
  qed
  then have keep: "read_bytes m' d (length x) = read_bytes m d (length x)"
    unfolding m'_def by (intro nth_equalityI) (auto simp: write_bytes_def elim!: in_rangeE)
  have "read_bytes m d (length x) = x" "0 \<notin> set x" using x cstr_iff by blast+
  then show "cstr m' d (x @ y)"
    unfolding cstr_append keep using cstr_write [OF y(1), of "d + of_nat (length x)" m] y(2) len by (simp add: m'_def)
  show "m' q = m q" if "\<not> in_range d (Suc (length x + length y)) q"
    using that sub [of "Suc (length y)" q] y(2) len by (auto simp: m'_def write_bytes_def)
  show "apart (d + of_nat (length x)) (Suc (length t)) s (Suc (length t))"
    using ap sub [of "Suc (length t)"] len by (auto simp: apart_def)
qed

lemma strcat_correct:
  assumes "cstr m d x" and "cstr m s t" and "length x + length t < 2 ^ 64"
    and "apart d (Suc (length x + length t)) s (Suc (length t))"
  shows "\<exists>m'. strcat d s m = Some m' \<and> cstr m' d (x @ t) \<and> (\<forall>q. \<not> in_range d (Suc (length x + length t)) q \<longrightarrow> m' q = m q)"
proof -
  have t: "0 \<notin> set t" using assms(2) cstr_iff by blast
  note cat = strcat_cstr [OF assms t]
  show ?thesis
    using cat copy_string_cstr [OF assms(2) cat(3)] find_end_cstr [OF assms(1)] by (simp add: strcat_def)
qed

lemma strncat_correct:
  assumes "cstr m d x" and "cstr m s t" and "length x + length t < 2 ^ 64"
    and "apart d (Suc (length x + length t)) s (Suc (length t))"
  shows "\<exists>m'. strncat d s n m = Some m' \<and> cstr m' d (x @ take (unat n) t) \<and>
      (\<forall>q. \<not> in_range d (Suc (length x + min (unat n) (length t))) q \<longrightarrow> m' q = m q)"
proof -
  let ?e = "d + of_nat (length x)" and ?y = "take (unat n) t" and ?k = "min (unat n) (length t)"
  have z: "0 \<notin> set ?y" "length ?y \<le> length t" using assms(2) cstr_iff [of m s t] in_set_takeD [of 0] by auto
  note cat = strcat_cstr [OF assms z]
  have "apart ?e ?k s (Suc (length t))" using cat(3) by (auto simp: apart_def in_range_def)
  then have "copy_bounded ?e s 0 (unat n) m = (write_bytes ?e ?y m, ?k)"
    using copy_bounded_cstr [of m s 0 t ?e "unat n"] assms(2) by simp
  moreover have "write_bytes ?e (?y @ [0]) m = (write_bytes ?e ?y m)(?e + of_nat ?k := 0)"
    using write_bytes_append [of ?y "[0]" ?e m] write_bytes_Cons [of "[]" "?e + of_nat (length ?y)" 0] assms(3)
    by (simp add: min.commute)
  ultimately show ?thesis
    using cat(1,2) find_end_cstr [OF assms(1)] by (simp add: strncat_def min.commute)
qed

lemma strcpy_correct:
  assumes "cstr m s t" and "apart d (Suc (length t)) s (Suc (length t))"
  shows "\<exists>m'. strcpy d s m = Some m' \<and> cstr m' d t \<and> (\<forall>q. \<not> in_range d (Suc (length t)) q \<longrightarrow> m' q = m q)"
  using copy_string_cstr [OF assms] cstr_write [of t d m] cstr_length [OF assms(1)] assms(1) cstr_iff [of m s t]
  by (auto simp: strcpy_def write_bytes_def)

lemma strncpy_correct:
  assumes "cstr m s t" and "apart d (unat n) s (Suc (length t))"
  shows "strncpy d s n m = write_bytes d (take (unat n) t @ replicate (unat n - length t) 0) m"
proof -
  let ?k = "min (unat n) (length t)"
  have un: "unat n < 2 ^ 64" using unsigned_less [of n, where ?'a = nat] by simp
  have "apart d ?k s (Suc (length t))" using assms(2) by (auto simp: apart_def in_range_def)
  then have "copy_bounded d s 0 (unat n) m = (write_bytes d (take (unat n) t) m, ?k)"
    using copy_bounded_cstr [of m s 0 t d "unat n"] assms(1) by simp
  moreover have "fold (\<lambda>i m. m(d + of_nat i := 0)) [?k..<unat n] m' = write_bytes (d + of_nat ?k) (replicate (unat n - ?k) 0) m'" for m'
    using un by (intro fill_bytes) simp_all
  moreover have "unat n - ?k = unat n - length t" by simp
  ultimately show ?thesis
    using write_bytes_append [of "take (unat n) t" "replicate (unat n - length t) 0" d m] un
    by (simp add: strncpy_def min.commute)
qed

section \<open>Searching strings\<close>

lemma strchr_cstr:
  "cstr m p s \<Longrightarrow> strchr_loop m w p = Some (if w = 0 then p + of_nat (length s)
     else case find_idx (\<lambda>c. c = w) s of Some i \<Rightarrow> p + of_nat i | None \<Rightarrow> 0)"
proof (induction s arbitrary: p)
  case Nil
  then show ?case by (subst strchr_loop.simps) simp
next
  case (Cons c s)
  then show ?case by (subst strchr_loop.simps) (auto simp: ac_simps split: option.split)
qed

primrec last_idx :: "('a \<Rightarrow> bool) \<Rightarrow> 'a list \<Rightarrow> nat option" where
  "last_idx P [] = None"
| "last_idx P (x # xs) = (case last_idx P xs of Some i \<Rightarrow> Some (Suc i) | None \<Rightarrow> if P x then Some 0 else None)"

lemma last_idx_None_iff: "last_idx P xs = None \<longleftrightarrow> (\<forall>x \<in> set xs. \<not> P x)"
  by (induction xs) (auto split: option.split)

lemma last_idx_SomeD:
  "last_idx P xs = Some i \<Longrightarrow> i < length xs \<and> P (xs ! i) \<and> (\<forall>j. i < j \<and> j < length xs \<longrightarrow> \<not> P (xs ! j))"
proof (induction xs arbitrary: i)
  case (Cons x xs)
  show ?case
  proof (cases "last_idx P xs")
    case None
    then have "\<forall>y \<in> set xs. \<not> P y" by (simp add: last_idx_None_iff)
    then show ?thesis using Cons.prems None by (auto simp: nth_Cons split: if_splits nat.split)
  next
    case (Some k)
    then show ?thesis using Cons.IH [OF Some] Cons.prems by (auto simp: nth_Cons split: nat.split)
  qed
qed simp

lemma strrchr_cstr:
  "cstr m p s \<Longrightarrow> strrchr_loop m w p r = Some (if w = 0 then p + of_nat (length s)
     else case last_idx (\<lambda>c. c = w) s of Some i \<Rightarrow> p + of_nat i | None \<Rightarrow> r)"
proof (induction s arbitrary: p r)
  case Nil
  then show ?case by (subst strrchr_loop.simps) simp
next
  case (Cons c s)
  then show ?case by (subst strrchr_loop.simps) (auto simp: ac_simps split: option.split)
qed

text \<open>The first place where \<open>t\<close> occurs in \<open>s\<close>.\<close>

primrec first_occ :: "'a list \<Rightarrow> 'a list \<Rightarrow> nat option" where
  "first_occ t [] = None"
| "first_occ t (c # s) = (if prefix t (c # s) then Some 0 else map_option Suc (first_occ t s))"

lemma first_occ_iff:
  assumes "t \<noteq> []"
  shows "first_occ t s = Some i \<longleftrightarrow> prefix t (drop i s) \<and> (\<forall>j < i. \<not> prefix t (drop j s))"
  using assms
proof (induction s arbitrary: i)
  case (Cons c s)
  then show ?case by (cases i) (auto simp: less_Suc_eq_0_disj)
qed simp

lemma first_occ_None:
  assumes "t \<noteq> []"
  shows "first_occ t s = None \<longleftrightarrow> \<not> sublist t s"
  using assms by (induction s) (auto simp: sublist_Cons_right)

lemma match_here_cstr: "\<lbrakk>cstr m a s; cstr m b t\<rbrakk> \<Longrightarrow> \<exists>c. match_here m a b = Some c \<and> (c = 0 \<longleftrightarrow> prefix t s)"
proof (induction t arbitrary: a b s)
  case Nil
  then show ?case by (subst match_here.simps) simp
next
  case (Cons d t)
  then show ?case by (cases s; subst match_here.simps) auto
qed

lemma strstr_cstr:
  "\<lbrakk>cstr m h s; cstr m n t; t \<noteq> []\<rbrakk> \<Longrightarrow>
    strstr_loop m h n = Some (case first_occ t s of Some i \<Rightarrow> h + of_nat i | None \<Rightarrow> 0)"
proof (induction s arbitrary: h)
  case Nil
  then show ?case by (subst strstr_loop.simps) simp
next
  case (Cons c s)
  then show ?case using match_here_cstr [OF Cons.prems(1,2)]
    by (subst strstr_loop.simps) (auto simp: ac_simps split: option.split)
qed

section \<open>Properties\<close>

text \<open>A memory with the strings \<open>ab\<close> at 64 and \<open>abc\<close> at 96, for the witnesses.\<close>

definition demo_mem :: mem where
  "demo_mem = write_bytes 64 [97, 98, 0] (write_bytes 96 [97, 98, 99, 0] (\<lambda>_. 0))"

lemma demo_mem_strings: "cstr demo_mem 64 [97, 98]" "cstr demo_mem 96 [97, 98, 99]"
  by code_simp+

text \<open>
  C15. \<open>memmove\<close> copies the bytes of the source as they were before the call to the destination and
  leaves the rest of the memory alone, however the two blocks overlap.
\<close>

theorem memmove_correct:
  assumes "unat dst + unat n \<le> 2 ^ 64" and "unat src + unat n \<le> 2 ^ 64"
  shows "memmove dst src n m = write_bytes dst (read_bytes m src (unat n)) m"
proof -
  have n: "unat n \<le> 2 ^ 64" using unsigned_less [of n, where ?'a = nat] by simp
  have far: "\<not> (0 < unat (x - y) \<and> unat (x - y) < unat n)" if "x < y" "unat y + unat n \<le> 2 ^ 64" for x y :: u64
  proof -
    have d: "unat (y - x) = unat y - unat x" using that(1) by (simp add: unat_sub)
    have "(unat (x - y) + unat (y - x)) mod 2 ^ 64 = unat ((x - y) + (y - x))" by (simp only: unat_word_ariths(1)) simp
    also have "\<dots> = 0" by simp
    finally have "2 ^ 64 \<le> unat (x - y) + unat (y - x)"
      using that(1) d by (auto simp: word_less_nat_alt not_le dest: mod_less intro: leI)
    then show ?thesis using that d unfolding word_less_nat_alt by linarith
  qed
  consider "dst = src \<or> n = 0" | "dst < src" "n \<noteq> 0" | "src < dst" "n \<noteq> 0" by fastforce
  then show ?thesis
  proof cases
    case 1
    then show ?thesis by (auto simp: memmove_def write_bytes_def in_range_def)
  next
    case 2
    then show ?thesis using copy_forward [OF n far [OF 2(1) assms(2)], of m] by (auto simp: memmove_def)
  next
    case 3
    then show ?thesis using copy_backward [OF n far [OF 3(1) assms(1)], of m] by (auto simp: memmove_def)
  qed
qed

theorem memmove_correct_witness:
  "memmove 97 96 3 demo_mem = write_bytes 97 [97, 98, 99] demo_mem \<and> read_bytes (memmove 97 96 3 demo_mem) 97 3 = [97, 98, 99]"
proof -
  have "read_bytes demo_mem 96 3 = [97, 98, 99]" by code_simp
  then have "memmove 97 96 3 demo_mem = write_bytes 97 [97, 98, 99] demo_mem"
    using memmove_correct [of 97 3 96 demo_mem] by simp
  moreover have "read_bytes (write_bytes 97 [97, 98, 99] demo_mem) 97 3 = [97, 98, 99]"
    using read_write_bytes [of "[97, 98, 99]" 97 demo_mem] by (simp add: numeral_3_eq_3)
  ultimately show ?thesis by simp
qed

text \<open>
  C16. On NUL-terminated strings \<open>strcmp\<close> returns, and gives 0 exactly on equal strings, \<open>-1\<close> when the
  first precedes the second in the lexicographic order of unsigned bytes and 1 when it follows it; \<open>strncmp\<close> compares
  the first \<open>n\<close> bytes in the same order, and \<open>memcmp\<close> the first \<open>n\<close> bytes of any two blocks.
\<close>

theorem strcmp_correct:
  assumes "cstr m a s" and "cstr m b t"
  shows "(\<exists>r. strcmp m a b = Some r \<and> (r = 0 \<longleftrightarrow> s = t) \<and> (r = - 1 \<longleftrightarrow> (s, t) \<in> lexord {(x, y). x < y}) \<and>
      (r = 1 \<longleftrightarrow> (t, s) \<in> lexord {(x, y). x < y})) \<and>
    (strncmp m a b n = 0 \<longleftrightarrow> take (unat n) s = take (unat n) t) \<and>
    (strncmp m a b n = - 1 \<longleftrightarrow> (take (unat n) s, take (unat n) t) \<in> lexord {(x, y). x < y}) \<and>
    (memcmp m a b n = 0 \<longleftrightarrow> read_bytes m a (unat n) = read_bytes m b (unat n)) \<and>
    (memcmp m a b n = - 1 \<longleftrightarrow> (read_bytes m a (unat n), read_bytes m b (unat n)) \<in> lexord {(x, y). x < y})"
proof -
  have "str_order s t = 1 \<longleftrightarrow> (t, s) \<in> lexord {(x, y). x < y}"
    unfolding str_order_lexord [symmetric] str_order_flip [of t s] by simp
  then show ?thesis
    using strcmp_cstr [OF assms] by (simp add: strncmp_cstr [OF assms] memcmp_eq str_order_lexord)
qed

theorem strcmp_correct_witness:
  "(\<exists>r. strcmp demo_mem 64 96 = Some r \<and> r \<noteq> 0 \<and> r = - 1) \<and> strncmp demo_mem 64 96 2 = 0"
  using strcmp_correct [OF demo_mem_strings, of 2] by auto

text \<open>
  C17. \<open>strcpy\<close> and \<open>strcat\<close> return and leave the copy or the concatenation, terminated, at the destination;
  \<open>strncat\<close> appends at most \<open>n\<close> bytes and terminates them; \<open>strncpy\<close> fills exactly \<open>n\<close> bytes, padding a short
  source with NUL and leaving a long one unterminated. No other byte changes. The destination must not overlap the source.
\<close>

theorem string_building_correct:
  assumes "cstr m d x" and "cstr m s t" and "length x + length t < 2 ^ 64"
    and "apart d (Suc (length x + length t)) s (Suc (length t))"
  shows "(\<exists>m'. strcat d s m = Some m' \<and> cstr m' d (x @ t) \<and>
      (\<forall>q. \<not> in_range d (Suc (length x + length t)) q \<longrightarrow> m' q = m q)) \<and>
    (\<exists>m'. strncat d s n m = Some m' \<and> cstr m' d (x @ take (unat n) t) \<and>
      (\<forall>q. \<not> in_range d (Suc (length x + min (unat n) (length t))) q \<longrightarrow> m' q = m q)) \<and>
    (\<exists>m'. strcpy d s m = Some m' \<and> cstr m' d t \<and> (\<forall>q. \<not> in_range d (Suc (length t)) q \<longrightarrow> m' q = m q)) \<and>
    (apart d (unat n) s (Suc (length t)) \<longrightarrow>
      strncpy d s n m = write_bytes d (take (unat n) t @ replicate (unat n - length t) 0) m)"
proof -
  have "apart d (Suc (length t)) s (Suc (length t))" using assms(4) by (auto simp: apart_def in_range_def)
  from strcpy_correct [OF assms(2) this] show ?thesis
    using strcat_correct [OF assms] strncat_correct [OF assms, of n] strncpy_correct [OF assms(2)] by blast
qed

theorem string_building_correct_witness:
  "(\<exists>m'. strcat 64 96 demo_mem = Some m' \<and> cstr m' 64 [97, 98, 97, 98, 99]) \<and>
   (\<exists>m'. strncat 64 96 1 demo_mem = Some m' \<and> cstr m' 64 [97, 98, 97]) \<and>
   (\<exists>m'. strcpy 64 96 demo_mem = Some m' \<and> cstr m' 64 [97, 98, 99])"
proof -
  have "apart 64 (Suc (length [97, 98 :: u8] + length [97, 98, 99 :: u8])) 96 (Suc (length [97, 98, 99 :: u8]))"
    by (rule apart_ordered(1)) simp_all
  from string_building_correct [OF demo_mem_strings _ this, of 1] show ?thesis by auto
qed

text \<open>
  C18. On a NUL-terminated string the searches for a non-zero byte and for a non-empty needle return: \<open>strchr\<close> the
  first and \<open>strrchr\<close> the last place of the byte, and \<open>strstr\<close> the first place where the needle occurs; the null pointer
  exactly when there is none.
\<close>

theorem string_search_correct:
  assumes "cstr m p s" and "cstr m n t" and "ucast c \<noteq> (0 :: u8)" and "t \<noteq> []"
  shows "(\<exists>q. strchr m p c = Some q \<and>
      (if ucast c \<in> set s then \<exists>i. q = p + of_nat i \<and> i < length s \<and> s ! i = ucast c \<and> ucast c \<notin> set (take i s) else q = 0)) \<and>
    (\<exists>q. strrchr m p c = Some q \<and>
      (if ucast c \<in> set s then \<exists>i. q = p + of_nat i \<and> i < length s \<and> s ! i = ucast c \<and> ucast c \<notin> set (drop (Suc i) s) else q = 0)) \<and>
    (\<exists>q. strstr m p n = Some q \<and>
      (if sublist t s then \<exists>i. q = p + of_nat i \<and> prefix t (drop i s) \<and> (\<forall>j < i. \<not> prefix t (drop j s)) else q = 0))"
proof -
  have ch: "\<exists>q. strchr m p c = Some q \<and>
      (if ucast c \<in> set s then \<exists>i. q = p + of_nat i \<and> i < length s \<and> s ! i = ucast c \<and> ucast c \<notin> set (take i s) else q = 0)"
  proof (cases "find_idx (\<lambda>x. x = ucast c) s")
    case None
    then have "strchr m p c = Some 0" "ucast c \<notin> set s"
      using strchr_cstr [OF assms(1), of "ucast c"] assms(3) find_idx_None_iff [of "\<lambda>x. x = ucast c" s] by (auto simp: strchr_def)
    then show ?thesis by simp
  next
    case (Some i)
    then have "strchr m p c = Some (p + of_nat i)"
      using strchr_cstr [OF assms(1), of "ucast c"] assms(3) by (simp add: strchr_def)
    moreover have "ucast c \<notin> set (take i s)" "ucast c \<in> set s" "i < length s" "s ! i = ucast c"
      using find_idx_SomeD [OF Some] by (auto simp: in_set_conv_nth)
    ultimately show ?thesis by auto
  qed
  have rch: "\<exists>q. strrchr m p c = Some q \<and>
      (if ucast c \<in> set s then \<exists>i. q = p + of_nat i \<and> i < length s \<and> s ! i = ucast c \<and> ucast c \<notin> set (drop (Suc i) s) else q = 0)"
  proof (cases "last_idx (\<lambda>x. x = ucast c) s")
    case None
    then have "strrchr m p c = Some 0" "ucast c \<notin> set s"
      using strrchr_cstr [OF assms(1), of "ucast c" 0] assms(3) last_idx_None_iff [of "\<lambda>x. x = ucast c" s] by (auto simp: strrchr_def)
    then show ?thesis by simp
  next
    case (Some i)
    then have "strrchr m p c = Some (p + of_nat i)"
      using strrchr_cstr [OF assms(1), of "ucast c" 0] assms(3) by (simp add: strrchr_def)
    moreover have "ucast c \<notin> set (drop (Suc i) s)" "ucast c \<in> set s" "i < length s" "s ! i = ucast c"
      using last_idx_SomeD [OF Some] by (auto simp: in_set_conv_nth)
    ultimately show ?thesis by auto
  qed
  have "m n \<noteq> 0" using assms(2,4) by (cases t) auto
  then have "strstr m p n = Some (case first_occ t s of Some i \<Rightarrow> p + of_nat i | None \<Rightarrow> 0)"
    using strstr_cstr [OF assms(1,2,4)] by (simp add: strstr_def)
  then show ?thesis using ch rch first_occ_None [OF assms(4), of s] first_occ_iff [OF assms(4), of s]
    by (auto split: option.splits)
qed

theorem string_search_correct_witness:
  "(\<exists>i. strchr demo_mem 96 98 = Some (96 + of_nat i) \<and> [97, 98, 99 :: u8] ! i = 98) \<and>
   (\<exists>i. strstr demo_mem 96 64 = Some (96 + of_nat i) \<and> prefix [97, 98] (drop i [97, 98, 99 :: u8]))"
  using string_search_correct [OF demo_mem_strings(2,1), of 98] by (auto simp: prefix_def)

text \<open>
  \<open>strdup\<close> of a string that lies in a block in use returns. It gives the null pointer and leaves the memory alone, or a
  fresh block of the heap that holds a copy of the string; every other byte, the string itself included, is unchanged.
\<close>

lemma strdup_correct:
  assumes "heap_live h L" and "(q, r) \<in> L" and "unat q \<le> unat s" and "unat s + length t < unat q + r" and "cstr m s t"
  shows "\<exists>h' m' p. strdup s (h, m) = Some ((h', m'), p) \<and>
    (p = 0 \<and> m' = m \<and> heap_live h' L \<or>
     (\<exists>k. (p, k) \<notin> L \<and> length t < k \<and> heap_live h' (insert (p, k) L) \<and> cstr m' p t \<and> cstr m' s t \<and>
       (\<forall>x. \<not> in_range p (Suc (length t)) x \<longrightarrow> m' x = m x)))"
proof -
  have "s \<noteq> 0" using kheap.live_addr [OF assms(1,2)] assms(3) unat_eq_0 [of q] by auto
  then have len: "strlen m s = Some (of_nat (length t))" by (rule strlen_cstr [OF assms(5)])
  have top: "unat q + r < 2 ^ 64" using live_below_top [OF assms(1,2)] .
  then have un: "unat (of_nat (length t) + 1 :: u64) = Suc (length t)"
    using assms(3,4) unat_of_nat_64 [of "Suc (length t)"] by (simp add: ac_simps)
  let ?n = "of_nat (length t) + 1 :: u64"
  obtain h' p where al: "alloc ?n 1 h = Some (h', p)"
    and c: "p = 0 \<and> heap_live h' L \<or> p \<noteq> 0 \<and> (\<exists>k. unat ?n \<le> k \<and> (p, k) \<notin> L \<and> heap_live h' (insert (p, k) L))"
    using heap_new [OF assms(1), of ?n 1] by blast
  show ?thesis
  proof (cases "p = 0")
    case True
    then show ?thesis using al c len \<open>s \<noteq> 0\<close> by (auto simp: strdup_def)
  next
    case False
    then obtain k where k: "length t < k" "(p, k) \<notin> L" "heap_live h' (insert (p, k) L)"
      using c un by (auto simp: Suc_le_eq)
    have "unat p + k \<le> unat q \<or> unat q + r \<le> unat p"
      using kheap.live_apart [OF k(3), of p k q r] k(2) assms(2) by auto
    moreover have "unat p + k < 2 ^ 64" using live_below_top [OF k(3)] by simp
    ultimately have ap: "apart p (Suc (length t)) s (Suc (length t))"
      using apart_ordered [of p "Suc (length t)" s "Suc (length t)"] apart_ordered [of s "Suc (length t)" p "Suc (length t)"]
        assms(3,4) k(1) top by fastforce
    let ?m = "memcpy p s ?n m"
    have m: "?m = write_bytes p (t @ [0]) m"
      using memcpy_apart [of p ?n s m] ap assms(5) un by (simp add: cstr_iff read_bytes_def)
    have "cstr ?m p t" unfolding m using assms(5) cstr_iff cstr_length by (intro cstr_write) blast+
    moreover have "cstr ?m s t"
      by (rule cstr_frame [OF assms(5)]) (use ap in \<open>auto simp: m apart_def write_bytes_def\<close>)
    ultimately show ?thesis using al len False k \<open>s \<noteq> 0\<close> by (auto simp: strdup_def m write_bytes_def)
  qed
qed

lemma strdup_correct_witness:
  "\<exists>h q m h' m' p. alloc 100 64 demo_heap = Some (h, q) \<and> strdup q (h, m) = Some ((h', m'), p) \<and>
     (p = 0 \<or> cstr m' p [97, 98] \<and> cstr m' q [97, 98])"
proof -
  obtain h q k where h: "alloc 100 64 demo_heap = Some (h, q)" "heap_live h {(q, k)}" "placed demo_heap 100 64 q k"
    using alloc_spec [OF demo_heap_live, of 100 64] demo_heap_fits by auto
  let ?m = "write_bytes q ([97, 98] @ [0]) (\<lambda>_. 0)"
  have "cstr ?m q [97, 98]" by (rule cstr_write) simp_all
  moreover have "unat q + length [97, 98 :: u8] < unat q + k" using h(3) by (simp add: placed_def)
  ultimately show ?thesis using strdup_correct [OF h(2), of q k q "[97, 98]" ?m] h(1) by fastforce
qed

end
