(* ===== verification/Libc_Stdlib.thy ===== *)
theory Libc_Stdlib
  imports Libc_String
begin

text \<open>
  \<^verbatim>\<open>libc/src/stdlib.cpp\<close>: the C heap, which puts a header with a magic number in front of every block it
  takes from the kernel allocator, the conversions of strings to numbers, and the pseudo-random generator. Headers
  are stored in the byte memory as little-endian 64-bit words.
\<close>

section \<open>Words in memory\<close>

definition le_bytes :: "u64 \<Rightarrow> u8 list" where
  "le_bytes v = map (\<lambda>i. of_nat (unat v div 256 ^ i mod 256)) [0..<8]"

definition write_u64 :: "u64 \<Rightarrow> u64 \<Rightarrow> mem \<Rightarrow> mem" where
  "write_u64 p v m = write_bytes p (le_bytes v) m"

definition read_u64 :: "mem \<Rightarrow> u64 \<Rightarrow> u64" where
  "read_u64 m p = of_nat (foldr (\<lambda>b v. unat b + 256 * v) (read_bytes m p 8) 0)"

section \<open>The C heap\<close>

definition ALLOCATION_MAGIC :: u64 where "ALLOCATION_MAGIC = 0x424C4B4F534D454D"
definition sizeof_AllocationHeader :: u64 where "sizeof_AllocationHeader = 16"
definition SIZE_MAX :: u64 where "SIZE_MAX = - 1"

text \<open>The fields of the header at address \<open>h\<close>.\<close>

definition get_magic :: "mem \<Rightarrow> u64 \<Rightarrow> u64" where "get_magic m h = read_u64 m h"
definition set_magic :: "u64 \<Rightarrow> u64 \<Rightarrow> mem \<Rightarrow> mem" where "set_magic h v m = write_u64 h v m"
definition get_size :: "mem \<Rightarrow> u64 \<Rightarrow> u64" where "get_size m h = read_u64 m (h + 8)"
definition set_size :: "u64 \<Rightarrow> u64 \<Rightarrow> mem \<Rightarrow> mem" where "set_size h v m = write_u64 (h + 8) v m"

definition header_from_ptr :: "u64 \<Rightarrow> u64" where
  "header_from_ptr ptr = (if ptr = 0 then 0 else ptr - sizeof_AllocationHeader)"

definition valid_header :: "mem \<Rightarrow> u64 \<Rightarrow> bool" where
  "valid_header m h \<longleftrightarrow> h \<noteq> 0 \<and> get_magic m h = ALLOCATION_MAGIC"

definition c_malloc :: "u64 \<Rightarrow> heap \<times> mem \<Rightarrow> ((heap \<times> mem) \<times> u64) option" where
  "c_malloc sz = (\<lambda>(h, m).
     let sz = (if sz = 0 then 1 else sz)
     in if SIZE_MAX - sizeof_AllocationHeader < sz then Some ((h, m), 0)
        else case alloc (sizeof_AllocationHeader + sz) 16 h of None \<Rightarrow> None
             | Some (h, p) \<Rightarrow>
                 if p = 0 then Some ((h, m), 0)
                 else Some ((h, set_size p sz (set_magic p ALLOCATION_MAGIC m)), p + sizeof_AllocationHeader))"

definition c_free :: "u64 \<Rightarrow> heap \<times> mem \<Rightarrow> (heap \<times> mem) option" where
  "c_free ptr = (\<lambda>(h, m).
     if ptr = 0 then Some (h, m)
     else
       let hd = header_from_ptr ptr
       in if \<not> valid_header m hd then Some (h, m)
          else
            let m = set_magic hd 0 m
            in case free hd h of None \<Rightarrow> None | Some h \<Rightarrow> Some (h, m))"

definition c_calloc :: "u64 \<Rightarrow> u64 \<Rightarrow> heap \<times> mem \<Rightarrow> ((heap \<times> mem) \<times> u64) option" where
  "c_calloc nelem sz s =
     (if nelem \<noteq> 0 \<and> SIZE_MAX div nelem < sz then Some (s, 0)
      else
        let total = nelem * sz
        in case c_malloc total s of None \<Rightarrow> None
           | Some ((h, m), ptr) \<Rightarrow>
               if ptr = 0 then Some ((h, m), 0) else Some ((h, memset ptr 0 total m), ptr))"

definition c_realloc :: "u64 \<Rightarrow> u64 \<Rightarrow> heap \<times> mem \<Rightarrow> ((heap \<times> mem) \<times> u64) option" where
  "c_realloc ptr new_size s =
     (if ptr = 0 then c_malloc new_size s
      else if new_size = 0 then (case c_free ptr s of None \<Rightarrow> None | Some s \<Rightarrow> Some (s, 0))
      else
        let old_header = header_from_ptr ptr; (h, m) = s
        in if \<not> valid_header m old_header then Some (s, 0)
           else
             let old_size = get_size m old_header
             in if new_size \<le> old_size then Some ((h, set_size old_header new_size m), ptr)
                else case c_malloc new_size s of None \<Rightarrow> None
                     | Some ((h, m), new_ptr) \<Rightarrow>
                         if new_ptr = 0 then Some ((h, m), 0)
                         else case c_free ptr (h, memcpy new_ptr ptr old_size m) of None \<Rightarrow> None
                              | Some s \<Rightarrow> Some (s, new_ptr))"

section \<open>Conversions\<close>

definition is_space :: "u8 \<Rightarrow> bool" where
  "is_space c \<longleftrightarrow> c = 32 \<or> c = 9 \<or> c = 10 \<or> c = 13 \<or> c = 12 \<or> c = 11"

partial_function (option) skip_space :: "mem \<Rightarrow> u64 \<Rightarrow> u64 option" where
  "skip_space m s = (if is_space (m s) then skip_space m (s + 1) else Some s)"

definition take_sign :: "mem \<Rightarrow> u64 \<Rightarrow> bool \<times> u64" where
  "take_sign m s = (if m s = 45 then (True, s + 1) else if m s = 43 then (False, s + 1) else (False, s))"

text \<open>
  The loops of \<open>atoi\<close> and \<open>atol\<close>. Overflow of the signed accumulator is undefined in C++ and \<^const>\<open>None\<close> here,
  for the bound \<open>2 ^ w\<close>.
\<close>

partial_function (option) ato_loop :: "nat \<Rightarrow> mem \<Rightarrow> u64 \<Rightarrow> int \<Rightarrow> int option" where
  "ato_loop w m s r =
     (if 48 \<le> m s \<and> m s \<le> 57
      then let r' = r * 10 + (uint (m s) - 48)
           in if r' < 2 ^ w then ato_loop w m (s + 1) r' else None
      else Some r)"

definition ato :: "nat \<Rightarrow> mem \<Rightarrow> u64 \<Rightarrow> int option" where
  "ato w m s =
     (if s = 0 then Some 0
      else do {
        s \<leftarrow> skip_space m s;
        let (neg, s) = take_sign m s;
        r \<leftarrow> ato_loop w m s 0;
        Some (r * (if neg then - 1 else 1))
      })"

definition atoi :: "mem \<Rightarrow> u64 \<Rightarrow> int option" where "atoi m s = ato 31 m s"
definition atol :: "mem \<Rightarrow> u64 \<Rightarrow> int option" where "atol m s = ato 63 m s"

definition hex_digit :: "u8 \<Rightarrow> bool" where
  "hex_digit c \<longleftrightarrow> (48 \<le> c \<and> c \<le> 57) \<or> (97 \<le> c \<and> c \<le> 102) \<or> (65 \<le> c \<and> c \<le> 70)"

definition hex_prefix :: "mem \<Rightarrow> u64 \<Rightarrow> bool" where
  "hex_prefix m s \<longleftrightarrow> m s = 48 \<and> (m (s + 1) = 120 \<or> m (s + 1) = 88) \<and> hex_digit (m (s + 2))"

definition take_base :: "mem \<Rightarrow> u64 \<Rightarrow> int \<Rightarrow> int \<times> u64" where
  "take_base m s base =
     (if base = 0 then
        if m s = 48 then if hex_prefix m s then (16, s + 2) else (8, s) else (10, s)
      else if base = 16 then if hex_prefix m s then (16, s + 2) else (16, s)
      else (base, s))"

definition digit_of :: "u8 \<Rightarrow> u64 option" where
  "digit_of c =
     (if 48 \<le> c \<and> c \<le> 57 then Some (ucast (c - 48))
      else if 97 \<le> c \<and> c \<le> 122 then Some (ucast (c - 97) + 10)
      else if 65 \<le> c \<and> c \<le> 90 then Some (ucast (c - 65) + 10)
      else None)"

text \<open>The digit loop, with \<open>result\<close>, \<open>any\<close> and \<open>overflow\<close>; it gives them and the place where it stops.\<close>

partial_function (option) digit_loop :: "mem \<Rightarrow> u64 \<Rightarrow> u64 \<Rightarrow> u64 \<Rightarrow> bool \<Rightarrow> bool \<Rightarrow> (u64 \<times> bool \<times> bool \<times> u64) option" where
  "digit_loop m ub s result any overflow =
     (case digit_of (m s) of
        None \<Rightarrow> Some (result, any, overflow, s)
      | Some digit \<Rightarrow>
          if ub \<le> digit then Some (result, any, overflow, s)
          else
            let limit = - 1 div ub; remainder = - 1 mod ub;
                over = (limit < result \<or> result = limit \<and> remainder < digit);
                result' = (if \<not> overflow \<and> \<not> over then result * ub + digit else result)
            in digit_loop m ub (s + 1) result' True (overflow \<or> over))"

text \<open>The value and what is stored through \<open>endptr\<close>.\<close>

definition strtoul :: "mem \<Rightarrow> u64 \<Rightarrow> int \<Rightarrow> (u64 \<times> u64) option" where
  "strtoul m start base =
     (if start = 0 \<or> base < 0 \<or> base = 1 \<or> 36 < base then Some (0, start)
      else do {
        s \<leftarrow> skip_space m start;
        let (negate, s) = take_sign m s;
        let (base, s) = take_base m s base;
        (result, any, overflow, s) \<leftarrow> digit_loop m (of_int base) s 0 False False;
        Some (if \<not> any then (0, start)
              else (if overflow then - 1 else if negate then 0 - result else result, s))
      })"

section \<open>Arithmetic\<close>

text \<open>Negating the least value of the type is undefined.\<close>

definition c_abs :: "int \<Rightarrow> int option" where
  "c_abs x = (if x < 0 then if x = - (2 ^ 31) then None else Some (- x) else Some x)"

definition c_labs :: "int \<Rightarrow> int option" where
  "c_labs x = (if x < 0 then if x = - (2 ^ 63) then None else Some (- x) else Some x)"

definition srand :: "u32 \<Rightarrow> u32" where
  "srand seed = (if seed \<noteq> 0 then seed else 1)"

definition rand :: "u32 \<Rightarrow> u32 \<times> u32" where
  "rand random_state =
     (let random_state = random_state * 1664525 + 1013904223
      in (random_state, and (drop_bit 1 random_state) 0x7fffffff))"

section \<open>Headers\<close>

lemma le_digits: "foldr (\<lambda>b v. unat b + 256 * v) (map (\<lambda>i. (of_nat (v div 256 ^ i mod 256) :: u8)) [0..<n]) 0 = v mod 256 ^ n"
proof (induction n arbitrary: v)
  case (Suc n)
  have upt: "[0..<Suc n] = 0 # map Suc [0..<n]" by (simp add: map_Suc_upt upt_conv_Cons)
  have "foldr (\<lambda>b v. unat b + 256 * v) (map (\<lambda>i. (of_nat (v div 256 ^ i mod 256) :: u8)) [0..<Suc n]) 0 =
      v mod 256 + 256 * (v div 256 mod 256 ^ n)"
    unfolding upt using Suc.IH [of "v div 256"] by (simp add: comp_def unsigned_of_nat take_bit_eq_mod div_mult2_eq)
  also have "\<dots> = v mod 256 ^ Suc n" by (simp add: mod_mult2_eq)
  finally show ?case .
qed simp

lemma length_le_bytes [simp]: "length (le_bytes v) = 8"
  by (simp add: le_bytes_def)

lemma read_write_u64: "read_u64 (write_u64 p v m) p = v"
proof -
  have "read_bytes (write_u64 p v m) p 8 = le_bytes v"
    using read_write_bytes [of "le_bytes v" p m] by (simp add: write_u64_def)
  then have "read_u64 (write_u64 p v m) p = of_nat (unat v mod 256 ^ 8)"
    unfolding read_u64_def le_bytes_def by (simp only: le_digits)
  moreover have "unat v < 256 ^ 8" using unsigned_less [of v, where ?'a = nat] by simp
  ultimately show ?thesis by simp
qed

lemma read_u64_frame:
  assumes "\<And>x. in_range p 8 x \<Longrightarrow> m' x = m x"
  shows "read_u64 m' p = read_u64 m p"
proof -
  have "read_bytes m' p 8 = read_bytes m p 8"
    by (rule nth_equalityI) (use assms [OF in_range_at] in simp_all)
  then show ?thesis by (simp add: read_u64_def)
qed

lemma write_u64_frame: "\<not> in_range p 8 x \<Longrightarrow> write_u64 p v m x = m x"
  by (simp add: write_u64_def write_bytes_def)

lemma in_range_split: "in_range p 16 x \<longleftrightarrow> in_range p 8 x \<or> in_range (p + 8) 8 x" and halves_apart: "apart p 8 (p + 8) 8"
proof -
  have r: "in_range (p + 8) 8 x \<longleftrightarrow> 8 \<le> unat (x - p) \<and> unat (x - p) < 16" for x
  proof (cases "8 \<le> x - p")
    case True
    then have "unat (x - p - 8) = unat (x - p) - 8" by (simp add: unat_sub)
    moreover have "8 \<le> unat (x - p)" using True by (simp add: word_le_nat_alt)
    ultimately show ?thesis by (auto simp: in_range_def diff_diff_eq)
  next
    case False
    then have lt: "unat (x - p) < 8" by (simp add: word_le_nat_alt)
    show ?thesis
    proof (rule iffI)
      assume "in_range (p + 8) 8 x"
      then obtain i where i: "i < 8" "x = p + 8 + of_nat i" by (auto elim: in_rangeE)
      then have "x - p = of_nat (8 + i)" by simp
      then have "unat (x - p) = 8 + i" using i(1) unat_of_nat_64 [of "8 + i"] by simp
      then show "8 \<le> unat (x - p) \<and> unat (x - p) < 16" using lt by simp
    qed (use lt in simp)
  qed
  show "in_range p 16 x \<longleftrightarrow> in_range p 8 x \<or> in_range (p + 8) 8 x" unfolding r by (auto simp: in_range_def)
  show "apart p 8 (p + 8) 8" unfolding apart_def r by (auto simp: in_range_def)
qed

lemma magic_size:
  shows "get_magic (set_size p v m) p = get_magic m p" and "get_size (set_magic p w m) p = get_size m p"
    and "get_magic (set_magic p w m) p = w" and "get_size (set_size p v m) p = v"
    and "\<not> in_range p 16 x \<Longrightarrow> set_size p v m x = m x" and "\<not> in_range p 16 x \<Longrightarrow> set_magic p w m x = m x"
proof -
  show "get_magic (set_size p v m) p = get_magic m p" "get_size (set_magic p w m) p = get_size m p"
    using halves_apart [of p] by (auto simp: get_magic_def get_size_def set_size_def set_magic_def apart_def intro!: read_u64_frame write_u64_frame)
  show "get_magic (set_magic p w m) p = w" "get_size (set_size p v m) p = v"
    by (simp_all add: get_magic_def get_size_def set_size_def set_magic_def read_write_u64)
  show "set_size p v m x = m x" "set_magic p w m x = m x" if "\<not> in_range p 16 x"
    using that by (simp_all add: in_range_split set_size_def set_magic_def write_u64_frame)
qed

lemma header_frame:
  assumes "\<And>x. in_range p 16 x \<Longrightarrow> m' x = m x"
  shows "get_magic m' p = get_magic m p" and "get_size m' p = get_size m p"
  unfolding get_magic_def get_size_def by (rule read_u64_frame, use assms in_range_split in blast)+

section \<open>Blocks of the C heap\<close>

text \<open>
  \<open>B\<close> is the set of kernel blocks that \<open>malloc\<close> took and \<open>R\<close> that of the blocks of everybody else. The client sees
  the blocks of \<open>B\<close> without their headers.
\<close>

definition payload :: "u64 \<times> nat \<Rightarrow> u64 \<times> nat" where
  "payload = (\<lambda>(p, k). (p + 16, k - 16))"

definition headers_ok :: "mem \<Rightarrow> (u64 \<times> nat) set \<Rightarrow> bool" where
  "headers_ok m B \<longleftrightarrow> (\<forall>(p, k) \<in> B. 16 \<le> k \<and> get_magic m p = ALLOCATION_MAGIC \<and> unat (get_size m p) \<le> k - 16)"

definition malloc_live :: "(u64 \<times> nat) set \<Rightarrow> heap \<times> mem \<Rightarrow> (u64 \<times> nat) set \<Rightarrow> bool" where
  "malloc_live R = (\<lambda>(h, m) L. \<exists>B. heap_live h (B \<union> R) \<and> B \<inter> R = {} \<and> L = payload ` B \<and> headers_ok m B)"

lemma block_apart:
  assumes "heap_live h L" and "(p, k) \<in> L" and "(q, r) \<in> L" and "(p, k) \<noteq> (q, r)" and "n \<le> k" and "l \<le> r"
  shows "apart p n q l"
proof -
  have "unat p + k \<le> unat q \<or> unat q + r \<le> unat p" using kheap.live_apart [OF assms(1-4)] .
  then show ?thesis
  proof
    assume "unat p + k \<le> unat q"
    then show ?thesis using live_below_top [OF assms(1,3)] assms(5,6) by (intro apart_ordered(1)) simp_all
  next
    assume "unat q + r \<le> unat p"
    then show ?thesis using live_below_top [OF assms(1,2)] assms(5,6) by (intro apart_ordered(2)) simp_all
  qed
qed

lemma headers_ok_frame:
  assumes "headers_ok m B" and "\<And>p k x. \<lbrakk>(p, k) \<in> B; in_range p 16 x\<rbrakk> \<Longrightarrow> m' x = m x"
  shows "headers_ok m' B"
  using assms(1) header_frame [of _ m' m, OF assms(2)] by (fastforce simp: headers_ok_def)

lemma payload_unat:
  assumes "heap_live h L" and "(p, k) \<in> L" and "16 \<le> k"
  shows "unat (p + 16) = unat p + 16" and "p + 16 \<noteq> 0"
proof -
  have "unat p + k < 2 ^ 64" using live_below_top [OF assms(1,2)] .
  then show "unat (p + 16) = unat p + 16" using assms(3) by (simp add: unat_word_ariths(1))
  then show "p + 16 \<noteq> 0" by (metis add_is_0 unat_0 zero_neq_numeral)
qed

lemma payload_inj:
  assumes "heap_live h (B \<union> R)" and "headers_ok m B"
  shows "inj_on payload B"
proof (rule inj_onI)
  fix x y
  assume x: "x \<in> B" "y \<in> B" "payload x = payload y"
  obtain p k q r where xy: "x = (p, k)" "y = (q, r)" by fastforce
  then have pq: "p = q" using x(3) by (simp add: payload_def)
  then show "x = y" using xy x kheap.live_size [OF assms(1), of p k r] by simp
qed

lemma malloc_cases:
  assumes B: "heap_live h (B \<union> R)" "B \<inter> R = {}" "headers_ok m B"
  obtains (null) h' where "c_malloc n (h, m) = Some ((h', m), 0)" "heap_live h' (B \<union> R)"
  | (made) h' m' p k where "c_malloc n (h, m) = Some ((h', m'), p + 16)" "p + 16 \<noteq> 0" "unat n + 16 \<le> k" "(p, k) \<notin> B \<union> R"
      "heap_live h' (insert (p, k) (B \<union> R))" "headers_ok m' (insert (p, k) B)"
      "get_size m' p = (if n = 0 then 1 else n)" "\<And>x. \<not> in_range p 16 x \<Longrightarrow> m' x = m x"
proof -
  define sz where "sz = (if n = 0 then 1 else n)"
  show thesis
  proof (cases "SIZE_MAX - sizeof_AllocationHeader < sz")
    case True
    then show thesis using B(1) by (intro null) (simp_all add: c_malloc_def sz_def Let_def)
  next
    case False
    have sz: "unat (16 + sz) = 16 + unat sz"
    proof -
      have "unat sz \<le> 2 ^ 64 - 17"
        using False by (simp add: SIZE_MAX_def sizeof_AllocationHeader_def word_le_nat_alt not_less)
      then show ?thesis by (simp add: unat_word_ariths(1))
    qed
    obtain h' p where al: "alloc (16 + sz) 16 h = Some (h', p)"
      and c: "p = 0 \<and> heap_live h' (B \<union> R) \<or> p \<noteq> 0 \<and> (\<exists>k. unat (16 + sz) \<le> k \<and> (p, k) \<notin> B \<union> R \<and> heap_live h' (insert (p, k) (B \<union> R)))"
      using heap_new [OF B(1), of "16 + sz" 16] by blast
    have eq: "c_malloc n (h, m) = Some (if p = 0 then ((h', m), 0)
        else ((h', set_size p sz (set_magic p ALLOCATION_MAGIC m)), p + 16))"
      using False al by (simp add: c_malloc_def Let_def sz_def sizeof_AllocationHeader_def)
    show thesis
    proof (cases "p = 0")
      case True
      then show thesis using eq c by (intro null) auto
    next
      case p: False
      then obtain k where k: "unat (16 + sz) \<le> k" "(p, k) \<notin> B \<union> R" "heap_live h' (insert (p, k) (B \<union> R))" using c by auto
      let ?m = "set_size p sz (set_magic p ALLOCATION_MAGIC m)"
      have frame: "?m x = m x" if "\<not> in_range p 16 x" for x using that by (simp add: magic_size)
      have "headers_ok ?m B"
      proof (rule headers_ok_frame [OF B(3)])
        fix q r x
        assume q: "(q, r) \<in> B" "in_range q 16 x"
        then have "16 \<le> r" using B(3) by (auto simp: headers_ok_def)
        then have "apart p 16 q 16" using block_apart [OF k(3), of p k q r 16 16] q k sz by auto
        then show "?m x = m x" using q(2) frame by (auto simp: apart_def)
      qed
      then have "headers_ok ?m (insert (p, k) B)" using k(1) sz by (auto simp: headers_ok_def magic_size)
      moreover have "unat n + 16 \<le> k" using k(1) sz by (auto simp: sz_def split: if_splits)
      moreover have "p + 16 \<noteq> 0" using payload_unat(2) [OF k(3), of p k] k(1) sz by simp
      moreover have "get_size ?m p = (if n = 0 then 1 else n)" unfolding magic_size(4) sz_def ..
      moreover have "c_malloc n (h, m) = Some ((h', ?m), p + 16)" using eq p by simp
      ultimately show thesis using k(2,3) frame by (intro made [of h' ?m p k])
    qed
  qed
qed

lemma headers_ok_remove: "headers_ok m B \<Longrightarrow> headers_ok m (B - X)"
  by (auto simp: headers_ok_def)

lemma free_block:
  assumes B: "heap_live h (B \<union> R)" "B \<inter> R = {}" "headers_ok m B" and p: "(p, k) \<in> B"
  shows "\<exists>h' m'. c_free (p + 16) (h, m) = Some (h', m') \<and> heap_live h' (B - {(p, k)} \<union> R) \<and> headers_ok m' (B - {(p, k)}) \<and>
    (\<forall>x. \<not> in_range p 16 x \<longrightarrow> m' x = m x)"
proof -
  have k: "16 \<le> k" "get_magic m p = ALLOCATION_MAGIC" using B(3) p by (auto simp: headers_ok_def)
  have "p \<noteq> 0" "p + 16 \<noteq> 0" using kheap.live_addr [OF B(1)] payload_unat(2) [OF B(1) _ k(1)] p by auto
  moreover obtain h' where h': "free p h = Some h'" "heap_live h' (B \<union> R - {(p, k)})" using heap_delete [OF B(1)] p by blast
  ultimately have eq: "c_free (p + 16) (h, m) = Some (h', set_magic p 0 m)"
    using k(2) by (simp add: c_free_def header_from_ptr_def valid_header_def sizeof_AllocationHeader_def)
  have "headers_ok (set_magic p 0 m) (B - {(p, k)})"
  proof (rule headers_ok_frame [OF headers_ok_remove [OF B(3)]])
    fix q r x
    assume q: "(q, r) \<in> B - {(p, k)}" "in_range q 16 x"
    then have "16 \<le> r" using B(3) by (auto simp: headers_ok_def)
    then have "apart p 16 q 16" using block_apart [OF B(1), of p k q r 16 16] p q k(1) by auto
    then show "set_magic p 0 m x = m x" using q(2) by (intro magic_size(6)) (auto simp: apart_def)
  qed
  moreover have "B \<union> R - {(p, k)} = B - {(p, k)} \<union> R" using B(2) p by auto
  ultimately show ?thesis using eq h' magic_size(6) [of p] by auto
qed

lemma malloc_liveE:
  assumes "malloc_live R s L"
  obtains h m B where "s = (h, m)" "heap_live h (B \<union> R)" "B \<inter> R = {}" "headers_ok m B" "L = payload ` B"
  using assms by (cases s) (auto simp: malloc_live_def)

lemma malloc_liveI:
  "\<lbrakk>heap_live h (B \<union> R); B \<inter> R = {}; headers_ok m B; L = payload ` B\<rbrakk> \<Longrightarrow> malloc_live R (h, m) L"
  by (auto simp: malloc_live_def)

lemma payload_remove:
  assumes "heap_live h (B \<union> R)" "headers_ok m B" "(p, k) \<in> B"
  shows "payload ` (B - {(p, k)}) = payload ` B - {(p + 16, k - 16)}"
  using inj_on_image_set_diff [OF payload_inj [OF assms(1,2)], of B "{(p, k)}"] assms(3) by (simp add: payload_def)

lemma payload_fresh:
  assumes "heap_live h (insert (p, k) (B \<union> R))" and "(p, k) \<notin> B"
  shows "(p + 16, j) \<notin> payload ` B"
proof
  assume "(p + 16, j) \<in> payload ` B"
  then obtain r where "(p, r) \<in> B" by (auto simp: payload_def)
  then show False using kheap.live_size [OF assms(1), of p k r] assms(2) by auto
qed

interpretation cheap: heap_api "malloc_live R" c_malloc c_free for R
proof unfold_locales
  fix s L n
  assume "malloc_live R s L"
  then obtain h m B where s: "s = (h, m)" and B: "heap_live h (B \<union> R)" "B \<inter> R = {}" "headers_ok m B" and L: "L = payload ` B"
    by (rule malloc_liveE)
  from B show "\<exists>s' p. c_malloc n s = Some (s', p) \<and> (p = 0 \<and> malloc_live R s' L \<or>
      p \<noteq> 0 \<and> (\<exists>k. unat n \<le> k \<and> (p, k) \<notin> L \<and> malloc_live R s' (insert (p, k) L)))"
  proof (cases rule: malloc_cases [of h B R m n])
    case (null h')
    then show ?thesis using malloc_liveI [OF null(2) B(2,3) L] s by auto
  next
    case (made h' m' p k)
    have "malloc_live R (h', m') (insert (p + 16, k - 16) L)"
      by (rule malloc_liveI [of h' "insert (p, k) B"]) (use made B(2) L in \<open>simp_all add: payload_def\<close>)
    moreover have "(p + 16, k - 16) \<notin> L" unfolding L using payload_fresh [OF made(5)] made(4) by blast
    moreover have "unat n \<le> k - 16" using made(3) by simp
    ultimately show ?thesis using made(1,2) s by blast
  qed
next
  fix s L p k
  assume "malloc_live R s L" and "(p, k) \<in> L"
  then obtain h m B q r where s: "s = (h, m)" and B: "heap_live h (B \<union> R)" "B \<inter> R = {}" "headers_ok m B" and L: "L = payload ` B"
    and q: "(q, r) \<in> B" "p = q + 16" "k = r - 16"
    by (elim malloc_liveE) (auto simp: payload_def)
  show "\<exists>s'. c_free p s = Some s' \<and> malloc_live R s' (L - {(p, k)})"
    using free_block [OF B q(1)] payload_remove [OF B(1,3) q(1)] malloc_liveI B(2) q s L by fastforce
next
  show "c_free 0 s = Some s" for s by (simp add: c_free_def split: prod.split)
next
  fix s L p k q r
  assume "malloc_live R s L" and "(p, k) \<in> L" and "(q, r) \<in> L" and ne: "(p, k) \<noteq> (q, r)"
  then obtain h m B p' k' q' r' where B: "heap_live h (B \<union> R)" "headers_ok m B" and b: "(p', k') \<in> B" "(q', r') \<in> B"
    and eq: "p = p' + 16" "k = k' - 16" "q = q' + 16" "r = r' - 16"
    by (elim malloc_liveE) (auto simp: payload_def)
  have big: "16 \<le> k'" "16 \<le> r'" using B(2) b by (auto simp: headers_ok_def)
  have u: "unat p = unat p' + 16" "unat q = unat q' + 16"
    using payload_unat(1) [OF B(1), of p' k'] payload_unat(1) [OF B(1), of q' r'] b big eq by auto
  have "unat p' + k' \<le> unat q' \<or> unat q' + r' \<le> unat p'" using kheap.live_apart [OF B(1), of p' k' q' r'] b ne eq by auto
  then show "unat p + k \<le> unat q \<or> unat q + r \<le> unat p" using u big eq by linarith
next
  fix s L p k r
  assume "malloc_live R s L" and "(p, k) \<in> L" and "(p, r) \<in> L"
  then show "k = r" using kheap.live_size by (elim malloc_liveE) (fastforce simp: payload_def)
next
  fix s L p k
  assume "malloc_live R s L" and "(p, k) \<in> L"
  then obtain h m B p' k' where B: "heap_live h (B \<union> R)" "headers_ok m B" and b: "(p', k') \<in> B" "p = p' + 16"
    by (elim malloc_liveE) (auto simp: payload_def)
  then show "p \<noteq> 0" using payload_unat(2) [OF B(1), of p' k'] by (auto simp: headers_ok_def)
qed

lemma headers_ok_shrink:
  assumes B: "heap_live h (B \<union> R)" "headers_ok m B" and p: "(p, k) \<in> B" and n: "n \<le> get_size m p"
  shows "headers_ok (set_size p n m) B"
proof -
  have "headers_ok (set_size p n m) (B - {(p, k)})"
  proof (rule headers_ok_frame [OF headers_ok_remove [OF B(2)]])
    fix q r x
    assume q: "(q, r) \<in> B - {(p, k)}" "in_range q 16 x"
    then have "16 \<le> r" "16 \<le> k" using B(2) p by (auto simp: headers_ok_def)
    then have "apart p 16 q 16" using block_apart [OF B(1), of p k q r 16 16] p q by auto
    then show "set_size p n m x = m x" using q(2) by (intro magic_size(5)) (auto simp: apart_def)
  qed
  moreover have "16 \<le> k" "get_magic m p = ALLOCATION_MAGIC" "unat n \<le> k - 16"
    using B(2) p n by (auto simp: headers_ok_def word_le_nat_alt)
  ultimately show ?thesis by (auto simp: headers_ok_def magic_size)
qed

lemma payload_apart_header:
  assumes "heap_live h L" and "(p, k) \<in> L" and "(q, r) \<in> L" and "16 \<le> k" and "16 \<le> r" and "n \<le> k - 16"
  shows "apart (p + 16) n q 16"
proof (cases "(p, k) = (q, r)")
  case True
  then show ?thesis using payload_unat(1) [OF assms(1,2,4)] live_below_top [OF assms(1,2)] assms(4,6)
    by (intro apart_ordered(2)) simp_all
next
  case False
  have "apart p k q 16" using block_apart [OF assms(1-3) False] assms(5) by simp
  moreover have "in_range p k x" if "in_range (p + 16) n x" for x
  proof -
    from that obtain i where i: "i < n" "x = p + 16 + of_nat i" by (auto elim: in_rangeE)
    have x: "x = p + of_nat (16 + i)" using i(2) by simp
    show ?thesis unfolding x using i(1) assms(4,6) live_below_top [OF assms(1,2)] by (intro in_range_at) simp_all
  qed
  ultimately show ?thesis by (auto simp: apart_def)
qed

lemma headers_ok_write:
  assumes "heap_live h (B \<union> R)" and "headers_ok m B" and "(p, k) \<in> B" and "length xs \<le> k - 16"
  shows "headers_ok (write_bytes (p + 16) xs m) B"
proof (rule headers_ok_frame [OF assms(2)])
  fix q r x
  assume q: "(q, r) \<in> B" "in_range q 16 x"
  then have "apart (p + 16) (length xs) q 16"
    using payload_apart_header [OF assms(1), of p k q r] assms by (auto simp: headers_ok_def)
  then show "write_bytes (p + 16) xs m x = m x" using q(2) by (auto simp: apart_def write_bytes_def)
qed

lemma payloads_apart:
  assumes "heap_live h L" and "(p, k) \<in> L" and "(q, r) \<in> L" and "(p, k) \<noteq> (q, r)" and "16 \<le> k" and "16 \<le> r"
    and "n \<le> k - 16" and "l \<le> r - 16"
  shows "apart (p + 16) n (q + 16) l"
proof -
  have u: "unat (p + 16) = unat p + 16" "unat (q + 16) = unat q + 16"
    using payload_unat(1) [OF assms(1,2,5)] payload_unat(1) [OF assms(1,3,6)] by simp_all
  from kheap.live_apart [OF assms(1-4)] show ?thesis
  proof
    assume "unat p + k \<le> unat q"
    then show ?thesis using live_below_top [OF assms(1,3)] assms(5-8) u by (intro apart_ordered(1)) simp_all
  next
    assume "unat q + r \<le> unat p"
    then show ?thesis using live_below_top [OF assms(1,2)] assms(5-8) u by (intro apart_ordered(2)) simp_all
  qed
qed

lemma realloc_grow:
  assumes B: "heap_live h (B \<union> R)" "B \<inter> R = {}" "headers_ok m B" and p: "(p, k) \<in> B" and n: "get_size m p < n"
  shows "(\<exists>h'. c_realloc (p + 16) n (h, m) = Some ((h', m), 0) \<and> heap_live h' (B \<union> R)) \<or>
    (\<exists>h' m' q r. c_realloc (p + 16) n (h, m) = Some ((h', m'), q + 16) \<and> q + 16 \<noteq> 0 \<and> unat n + 16 \<le> r \<and> (q, r) \<notin> B \<union> R \<and>
       heap_live h' (insert (q, r) (B - {(p, k)}) \<union> R) \<and> headers_ok m' (insert (q, r) (B - {(p, k)})) \<and>
       read_bytes m' (q + 16) (unat (get_size m p)) = read_bytes m (p + 16) (unat (get_size m p)))"
proof -
  let ?old = "get_size m p"
  have k: "16 \<le> k" "get_magic m p = ALLOCATION_MAGIC" "unat ?old \<le> k - 16" using B(3) p by (auto simp: headers_ok_def)
  have nz: "p \<noteq> 0" "p + 16 \<noteq> 0" using kheap.live_addr [OF B(1)] payload_unat(2) [OF B(1) _ k(1)] p by auto
  have eq: "c_realloc (p + 16) n (h, m) = (case c_malloc n (h, m) of None \<Rightarrow> None
      | Some ((h, m), new_ptr) \<Rightarrow> if new_ptr = 0 then Some ((h, m), 0)
          else case c_free (p + 16) (h, memcpy new_ptr (p + 16) ?old m) of None \<Rightarrow> None | Some s \<Rightarrow> Some (s, new_ptr))"
    using nz k(2) n by (auto simp: c_realloc_def header_from_ptr_def valid_header_def sizeof_AllocationHeader_def Let_def)
  from B show ?thesis
  proof (cases rule: malloc_cases [of h B R m n])
    case (null h')
    then show ?thesis using eq by simp
  next
    case (made h' m1 q r)
    let ?B = "insert (q, r) B" and ?old_bytes = "read_bytes m (p + 16) (unat ?old)"
    have live: "heap_live h' (?B \<union> R)" "?B \<inter> R = {}" "(q, r) \<in> ?B" "(p, k) \<in> ?B \<union> R" using made(4,5) B(2) p by auto
    have ne: "(q, r) \<noteq> (p, k)" using made(4) p by auto
    have "16 \<le> r" "unat ?old \<le> r - 16" using made(3) n by (simp_all add: word_less_nat_alt)
    then have ap: "apart (q + 16) (unat ?old) (p + 16) (unat ?old)" "apart (p + 16) (unat ?old) q 16" "apart p 16 (q + 16) (unat ?old)"
      using payloads_apart [OF live(1) _ live(4) ne, of "unat ?old" "unat ?old"] payload_apart_header [OF live(1) live(4), of q r]
        payload_apart_header [OF live(1) _ live(4), of q r] k live(3) by (auto simp: apart_def)
    have same: "read_bytes m1 (p + 16) (unat ?old) = ?old_bytes"
      using made(8) ap(2) in_range_at [of _ "unat ?old" "p + 16"] unsigned_less [of ?old, where ?'a = nat]
      by (intro nth_equalityI) (auto simp: apart_def)
    have m2: "memcpy (q + 16) (p + 16) ?old m1 = write_bytes (q + 16) ?old_bytes m1"
      using memcpy_apart [OF ap(1)] same by simp
    have "headers_ok (write_bytes (q + 16) ?old_bytes m1) ?B"
      using headers_ok_write [OF live(1) made(6) live(3)] \<open>unat ?old \<le> r - 16\<close> by simp
    then obtain h2 m3 where fr: "c_free (p + 16) (h', write_bytes (q + 16) ?old_bytes m1) = Some (h2, m3)"
      "heap_live h2 (?B - {(p, k)} \<union> R)" "headers_ok m3 (?B - {(p, k)})"
      "\<forall>x. \<not> in_range p 16 x \<longrightarrow> m3 x = write_bytes (q + 16) ?old_bytes m1 x"
      using free_block [OF live(1,2), of _ p k] p by blast
    have "read_bytes m3 (q + 16) (unat ?old) = read_bytes (write_bytes (q + 16) ?old_bytes m1) (q + 16) (unat ?old)"
      using fr(4) ap(3) in_range_at [of _ "unat ?old" "q + 16"] unsigned_less [of ?old, where ?'a = nat]
      by (intro nth_equalityI) (auto simp: apart_def)
    also have "\<dots> = ?old_bytes"
      using read_write_bytes [of ?old_bytes "q + 16" m1] unsigned_less [of ?old, where ?'a = nat] by simp
    finally have "read_bytes m3 (q + 16) (unat ?old) = ?old_bytes" .
    moreover have "?B - {(p, k)} = insert (q, r) (B - {(p, k)})" using ne by auto
    moreover have "c_realloc (p + 16) n (h, m) = Some ((h2, m3), q + 16)" using eq made(1,2) m2 fr(1) by simp
    ultimately show ?thesis using made(2,3,4) fr(2,3) by (metis (no_types, lifting))
  qed
qed

lemma realloc_shrink:
  assumes B: "heap_live h (B \<union> R)" "B \<inter> R = {}" "headers_ok m B" and p: "(p, k) \<in> B" and n: "n \<noteq> 0" "n \<le> get_size m p"
  shows "c_realloc (p + 16) n (h, m) = Some ((h, set_size p n m), p + 16) \<and> headers_ok (set_size p n m) B \<and> unat n \<le> k - 16 \<and>
    read_bytes (set_size p n m) (p + 16) (unat n) = read_bytes m (p + 16) (unat n)"
proof -
  have k: "16 \<le> k" "get_magic m p = ALLOCATION_MAGIC" "unat (get_size m p) \<le> k - 16" using B(3) p by (auto simp: headers_ok_def)
  have nz: "p \<noteq> 0" "p + 16 \<noteq> 0" using kheap.live_addr [OF B(1)] payload_unat(2) [OF B(1) _ k(1)] p by auto
  have "apart (p + 16) (unat n) p 16"
    by (rule payload_apart_header [OF B(1)]) (use p k n(2) in \<open>auto simp: word_le_nat_alt\<close>)
  then have "read_bytes (set_size p n m) (p + 16) (unat n) = read_bytes m (p + 16) (unat n)"
    using in_range_at [of _ "unat n" "p + 16"] unsigned_less [of n, where ?'a = nat] magic_size(5) [of p]
    by (intro nth_equalityI) (auto simp: apart_def)
  moreover have "c_realloc (p + 16) n (h, m) = Some ((h, set_size p n m), p + 16)"
    using n nz k(2) by (simp add: c_realloc_def valid_header_def header_from_ptr_def sizeof_AllocationHeader_def Let_def)
  ultimately show ?thesis using headers_ok_shrink [OF B(1,3) p n(2)] n(2) k(3) by (simp add: word_le_nat_alt)
qed

lemma calloc_overflow:
  "nelem \<noteq> 0 \<and> SIZE_MAX div nelem < sz \<longleftrightarrow> 2 ^ 64 \<le> unat nelem * unat sz"
proof (cases "nelem = 0")
  case False
  then have pos: "0 < unat nelem" by (simp add: unat_gt_0)
  have "unat SIZE_MAX = 2 ^ 64 - 1" by (simp add: SIZE_MAX_def unsigned_minus_1_eq_mask mask_eq_exp_minus_1)
  then have "SIZE_MAX div nelem < sz \<longleftrightarrow> (2 ^ 64 - 1) div unat nelem < unat sz"
    by (simp add: word_less_nat_alt unat_div)
  also have "\<dots> \<longleftrightarrow> 2 ^ 64 - 1 < unat sz * unat nelem" using pos by (rule div_less_iff_less_mult)
  finally show ?thesis using False by (auto simp: mult.commute)
qed simp

section \<open>Properties of the C heap\<close>

text \<open>A C heap on the demonstration arena, for the witnesses.\<close>

lemma demo_malloc_live: "malloc_live {} (demo_heap, \<lambda>_. 0) {}"
  using demo_heap_live by (simp add: malloc_live_def headers_ok_def)

lemma demo_malloc:
  obtains s ptr k where "c_malloc 10 (demo_heap, \<lambda>_. 0) = Some (s, ptr)" "ptr \<noteq> 0" "malloc_live {} s {(ptr, k)}"
proof -
  have "fits demo_heap 26 16" using demo_heap_fits by (simp add: fits_def real_align_def GRANULARITY_def sizeof_header_def is_power_of_2_def)
  then obtain h p k where al: "alloc 26 16 demo_heap = Some (h, p)" "p \<noteq> 0" "placed demo_heap 26 16 p k" "heap_live h {(p, k)}"
    using alloc_spec [OF demo_heap_live, of 26 16] by auto
  have "p + 16 \<noteq> 0" using payload_unat(2) [OF al(4), of p k] al(3) by (simp add: placed_def)
  have "\<not> SIZE_MAX - sizeof_AllocationHeader < 10" by (simp add: SIZE_MAX_def sizeof_AllocationHeader_def)
  then have "c_malloc 10 (demo_heap, \<lambda>_. 0) = Some ((h, set_size p 10 (set_magic p ALLOCATION_MAGIC (\<lambda>_. 0))), p + 16)"
    using al(1,2) by (simp add: c_malloc_def sizeof_AllocationHeader_def)
  then obtain s where s: "c_malloc 10 (demo_heap, \<lambda>_. 0) = Some (s, p + 16)" by blast
  from cheap.newE [OF demo_malloc_live this] show thesis using that s \<open>p + 16 \<noteq> 0\<close> by metis
qed

text \<open>
  C19. \<open>realloc\<close> of a block of the C heap returns. With size 0 it frees the block. Otherwise it gives the null pointer and changes
  neither the blocks nor the memory, or a block of at least the new size, in place of the old one, that holds the old
  contents up to the smaller of the two sizes. The blocks of the kernel's other users stay as they are.
\<close>

theorem realloc_correct:
  assumes "malloc_live R (h, m) L" and "(ptr, k) \<in> L"
  shows "\<exists>h' m' q. c_realloc ptr n (h, m) = Some ((h', m'), q) \<and>
    (if n = 0 then q = 0 \<and> malloc_live R (h', m') (L - {(ptr, k)})
     else q = 0 \<and> m' = m \<and> malloc_live R (h', m') L \<or>
       q \<noteq> 0 \<and> (\<exists>l. unat n \<le> l \<and> malloc_live R (h', m') (insert (q, l) (L - {(ptr, k)}))) \<and>
       (let c = min (unat n) (unat (get_size m (header_from_ptr ptr))) in read_bytes m' q c = read_bytes m ptr c))"
proof -
  obtain B p r where B: "heap_live h (B \<union> R)" "B \<inter> R = {}" "headers_ok m B" "L = payload ` B" and p: "(p, r) \<in> B"
    and eq: "ptr = p + 16" "k = r - 16"
    using assms by (auto elim!: malloc_liveE simp: payload_def)
  have r: "16 \<le> r" "get_magic m p = ALLOCATION_MAGIC" "unat (get_size m p) \<le> r - 16" using B(3) p by (auto simp: headers_ok_def)
  have nz: "p \<noteq> 0" "p + 16 \<noteq> 0" using kheap.live_addr [OF B(1)] payload_unat(2) [OF B(1) _ r(1)] p by auto
  have hp: "header_from_ptr ptr = p" using eq nz by (simp add: header_from_ptr_def sizeof_AllocationHeader_def)
  note rem = payload_remove [OF B(1,3) p, folded B(4) eq]
  consider "n = 0" | "n \<noteq> 0" "n \<le> get_size m p" | "get_size m p < n" by fastforce
  then show ?thesis
  proof cases
    case 1
    then show ?thesis using cheap.del_live [OF assms] eq nz by (auto simp: c_realloc_def)
  next
    case 2
    then show ?thesis using realloc_shrink [OF B(1-3) p 2] malloc_liveI [OF B(1,2) _ B(4)] hp eq nz assms(2)
      by (auto simp: min_def word_le_nat_alt insert_absorb)
  next
    case 3
    have c: "min (unat n) (unat (get_size m p)) = unat (get_size m p)" "n \<noteq> 0" using 3 by (auto simp: word_less_nat_alt)
    from realloc_grow [OF B(1-3) p 3] show ?thesis
    proof (elim disjE exE conjE)
      fix h'
      assume "c_realloc (p + 16) n (h, m) = Some ((h', m), 0)" "heap_live h' (B \<union> R)"
      then show ?thesis using malloc_liveI [OF _ B(2-4)] c eq by auto
    next
      fix h' m' q l
      assume q: "c_realloc (p + 16) n (h, m) = Some ((h', m'), q + 16)" "q + 16 \<noteq> 0" "unat n + 16 \<le> l" "(q, l) \<notin> B \<union> R"
        "heap_live h' (insert (q, l) (B - {(p, r)}) \<union> R)" "headers_ok m' (insert (q, l) (B - {(p, r)}))"
        "read_bytes m' (q + 16) (unat (get_size m p)) = read_bytes m (p + 16) (unat (get_size m p))"
      have "malloc_live R (h', m') (insert (q + 16, l - 16) (L - {(ptr, k)}))"
        by (rule malloc_liveI [OF q(5) _ q(6)]) (use q(4) B(2) rem in \<open>auto simp: payload_def\<close>)
      moreover have "unat n \<le> l - 16" using q(3) by simp
      ultimately show ?thesis using q(1,2,7) c hp eq by (auto simp: Let_def)
    qed
  qed
qed

theorem realloc_correct_witness:
  "\<exists>h m ptr h' m' q. c_malloc 10 (demo_heap, \<lambda>_. 0) = Some ((h, m), ptr) \<and> ptr \<noteq> 0 \<and> c_realloc ptr 20 (h, m) = Some ((h', m'), q)"
proof -
  obtain h m ptr k where s: "c_malloc 10 (demo_heap, \<lambda>_. 0) = Some ((h, m), ptr)" "ptr \<noteq> 0" "malloc_live {} (h, m) {(ptr, k)}"
    using demo_malloc by (metis surj_pair)
  then show ?thesis using realloc_correct [OF s(3), of ptr k 20] by blast
qed

text \<open>
  \<open>calloc\<close> on the C heap returns. When \<open>nelem * size\<close> does not fit into 64 bits it gives the null pointer; otherwise
  the null pointer or a fresh block of at least \<open>nelem * size\<close> bytes, all of them zero.
\<close>

lemma calloc_correct:
  assumes "malloc_live R (h, m) L"
  shows "\<exists>h' m' q. c_calloc nelem sz (h, m) = Some ((h', m'), q) \<and>
    (2 ^ 64 \<le> unat nelem * unat sz \<longrightarrow> q = 0) \<and>
    (q = 0 \<and> m' = m \<and> malloc_live R (h', m') L \<or>
     q \<noteq> 0 \<and> (\<exists>k. unat nelem * unat sz \<le> k \<and> (q, k) \<notin> L \<and> malloc_live R (h', m') (insert (q, k) L)) \<and>
       read_bytes m' q (unat nelem * unat sz) = replicate (unat nelem * unat sz) 0)"
proof (cases "2 ^ 64 \<le> unat nelem * unat sz")
  case True
  then show ?thesis using calloc_overflow [of nelem sz] assms by (simp add: c_calloc_def)
next
  case False
  let ?n = "unat nelem * unat sz"
  have total: "unat (nelem * sz) = ?n" using False by (simp add: unat_word_ariths(2))
  have eq: "c_calloc nelem sz (h, m) = (case c_malloc (nelem * sz) (h, m) of None \<Rightarrow> None
      | Some ((h, m), ptr) \<Rightarrow> if ptr = 0 then Some ((h, m), 0) else Some ((h, memset ptr 0 (nelem * sz) m), ptr))"
    unfolding c_calloc_def calloc_overflow using False by (simp add: Let_def)
  obtain B where B: "heap_live h (B \<union> R)" "B \<inter> R = {}" "headers_ok m B" "L = payload ` B"
    using assms by (auto elim!: malloc_liveE)
  from B(1-3) show ?thesis
  proof (cases rule: malloc_cases [of h B R m "nelem * sz"])
    case (null h')
    then show ?thesis using eq False malloc_liveI [OF null(2) B(2-4)] by simp
  next
    case (made h' m1 p k)
    let ?m = "write_bytes (p + 16) (replicate ?n 0) m1"
    have m: "memset (p + 16) 0 (nelem * sz) m1 = ?m" by (simp add: memset_eq total)
    have live: "heap_live h' (insert (p, k) B \<union> R)" using made(5) by simp
    have n: "?n \<le> k - 16" using made(3) total by simp
    have "malloc_live R (h', ?m) (insert (p + 16, k - 16) L)"
      by (rule malloc_liveI [OF live _ headers_ok_write [OF live made(6)]]) (use B(2,4) made(4) n in \<open>auto simp: payload_def\<close>)
    moreover have "(p + 16, k - 16) \<notin> L" unfolding B(4) using payload_fresh [OF made(5)] made(4) by blast
    moreover have "read_bytes ?m (p + 16) ?n = replicate ?n 0"
      using read_write_bytes [of "replicate ?n 0" "p + 16" m1] False by simp
    ultimately show ?thesis using eq made(1,2) m n False by auto
  qed
qed

lemma calloc_correct_witness:
  "(\<exists>h' m'. c_calloc (2 ^ 32) (2 ^ 33) (demo_heap, \<lambda>_. 0) = Some ((h', m'), 0)) \<and>
   (\<exists>s q. c_calloc 4 8 (demo_heap, \<lambda>_. 0) = Some (s, q))"
  using calloc_correct [OF demo_malloc_live, of "2 ^ 32" "2 ^ 33"] calloc_correct [OF demo_malloc_live, of 4 8] by fastforce

end
