(* ===== verification/Libc_Numbers.thy ===== *)
theory Libc_Numbers
  imports Libc_Stdlib
begin

text \<open>
  Correctness of the string conversions of \<^verbatim>\<open>libc/src/stdlib.cpp\<close>: a grammar on lists of bytes with values in the natural
  numbers is the reference, and the code, which works on pointers and 64-bit words, computes it.
\<close>

section \<open>The grammar\<close>

definition sign_of :: "u8 list \<Rightarrow> bool \<times> u8 list" where
  "sign_of r = (case r of [] \<Rightarrow> (False, []) | c # t \<Rightarrow> if c = 45 then (True, t) else if c = 43 then (False, t) else (False, r))"

fun hex_marked :: "u8 list \<Rightarrow> bool" where
  "hex_marked (z # x # d # t) = (z = 48 \<and> (x = 120 \<or> x = 88) \<and> hex_digit d)"
| "hex_marked r = False"

definition base_of :: "int \<Rightarrow> u8 list \<Rightarrow> int \<times> u8 list" where
  "base_of base r =
     (if base = 0 \<or> base = 16 then
        if hex_marked r then (16, drop 2 r)
        else if base = 16 then (16, r) else if r \<noteq> [] \<and> hd r = 48 then (8, r) else (10, r)
      else (base, r))"

definition is_digit :: "int \<Rightarrow> u8 \<Rightarrow> bool" where
  "is_digit b c \<longleftrightarrow> (case digit_of c of None \<Rightarrow> False | Some d \<Rightarrow> uint d < b)"

definition digit_value :: "u8 \<Rightarrow> nat" where
  "digit_value c = unat (the (digit_of c))"

definition number :: "nat \<Rightarrow> nat \<Rightarrow> u8 list \<Rightarrow> nat" where
  "number b v ds = foldl (\<lambda>v c. v * b + digit_value c) v ds"

section \<open>Pointers into a string\<close>

text \<open>The pointer \<open>q\<close> stands at the rest \<open>r\<close> of the string \<open>s\<close> at \<open>p\<close>.\<close>

definition at_rest :: "mem \<Rightarrow> u64 \<Rightarrow> u8 list \<Rightarrow> u64 \<Rightarrow> u8 list \<Rightarrow> bool" where
  "at_rest m p s q r \<longleftrightarrow> length r \<le> length s \<and> q = p + of_nat (length s - length r) \<and> cstr m q r"

lemma at_rest_refl: "cstr m p s \<Longrightarrow> at_rest m p s p s"
  by (simp add: at_rest_def)

lemma at_rest_trans:
  assumes "at_rest m p s q r" and "at_rest m q r x t"
  shows "at_rest m p s x t"
proof -
  have "length s - length t = (length s - length r) + (length r - length t)" using assms by (auto simp: at_rest_def)
  then show ?thesis using assms by (auto simp: at_rest_def)
qed

lemma at_rest_tail: "cstr m p (c # t) \<Longrightarrow> at_rest m p (c # t) (p + 1) t"
  by (simp add: at_rest_def)

lemma skip_space_cstr: "cstr m p s \<Longrightarrow> \<exists>q. skip_space m p = Some q \<and> at_rest m p s q (dropWhile is_space s)"
proof (induction s arbitrary: p)
  case Nil
  then show ?case by (subst skip_space.simps) (auto simp: is_space_def at_rest_def)
next
  case (Cons c s)
  show ?case
  proof (cases "is_space c")
    case True
    obtain q where "skip_space m (p + 1) = Some q" "at_rest m (p + 1) s q (dropWhile is_space s)"
      using Cons.IH [of "p + 1"] Cons.prems by auto
    then show ?thesis using True Cons.prems at_rest_trans [OF at_rest_tail [OF Cons.prems]]
      by (subst skip_space.simps) auto
  next
    case False
    then show ?thesis using Cons.prems at_rest_refl [OF Cons.prems] by (subst skip_space.simps) auto
  qed
qed

lemma take_sign_cstr:
  assumes "cstr m p s"
  shows "\<exists>q. take_sign m p = (fst (sign_of s), q) \<and> at_rest m p s q (snd (sign_of s))"
proof (cases s)
  case Nil
  then show ?thesis using assms by (auto simp: take_sign_def sign_of_def at_rest_def)
next
  case (Cons c t)
  then show ?thesis using assms at_rest_tail [of m p c t] at_rest_refl [OF assms] by (auto simp: take_sign_def sign_of_def)
qed

lemma hex_prefix_cstr:
  assumes "cstr m p s"
  shows "hex_prefix m p \<longleftrightarrow> hex_marked s"
proof -
  have z: "\<not> hex_digit 0" by (simp add: hex_digit_def)
  from assms show ?thesis
    by (cases s rule: hex_marked.cases) (auto simp: hex_prefix_def z add.assoc)
qed

lemma take_base_cstr:
  assumes "cstr m p s"
  shows "\<exists>q. take_base m p base = (fst (base_of base s), q) \<and> at_rest m p s q (snd (base_of base s))"
proof -
  have skip: "at_rest m p s (p + 2) (drop 2 s)" if "hex_marked s"
    using that assms by (cases s rule: hex_marked.cases) (auto simp: at_rest_def add.assoc)
  have z: "m p = 48 \<longleftrightarrow> s \<noteq> [] \<and> hd s = 48" using assms by (cases s) auto
  have h: "hex_marked s \<Longrightarrow> s \<noteq> [] \<and> hd s = 48" by (cases s rule: hex_marked.cases) auto
  show ?thesis
    unfolding take_base_def base_of_def hex_prefix_cstr [OF assms] z
    using skip at_rest_refl [OF assms] h by auto
qed

section \<open>Digits\<close>

text \<open>The accumulator and the flag stand for the number read so far.\<close>

definition encodes :: "u64 \<Rightarrow> bool \<Rightarrow> nat \<Rightarrow> bool" where
  "encodes result overflow v \<longleftrightarrow> (overflow \<longleftrightarrow> 2 ^ 64 \<le> v) \<and> (\<not> overflow \<longrightarrow> unat result = v)"

lemma overflow_test:
  fixes v d b M :: nat
  assumes "d < b"
  shows "M div b < v \<or> v = M div b \<and> M mod b < d \<longleftrightarrow> M < v * b + d"
proof -
  define q r where "q = M div b" and "r = M mod b"
  have M: "M = q * b + r" "r < b" using assms by (simp_all add: q_def r_def)
  consider "q < v" | "v = q" | "v < q" by linarith
  then have "q < v \<or> v = q \<and> r < d \<longleftrightarrow> M < v * b + d"
  proof cases
    case 1
    then have "(q + 1) * b \<le> v * b" by (intro mult_le_mono1) simp
    then have "M < v * b" using M by simp
    then show ?thesis using 1 by simp
  next
    case 2
    then show ?thesis using M by simp
  next
    case 3
    then have "(v + 1) * b \<le> q * b" by (intro mult_le_mono1) simp
    then have "v * b + d < q * b" using assms by simp
    then show ?thesis using 3 M by simp
  qed
  then show ?thesis by (simp add: q_def r_def)
qed

lemma encodes_step:
  assumes "encodes result overflow v" and "digit < ub" and "0 < ub"
    and "over \<longleftrightarrow> (- 1 div ub < result \<or> result = - 1 div ub \<and> - 1 mod ub < digit)"
  shows "encodes (if \<not> overflow \<and> \<not> over then result * ub + digit else result) (overflow \<or> over) (v * unat ub + unat digit)"
proof (cases overflow)
  case True
  then have "2 ^ 64 \<le> v" using assms(1) by (simp add: encodes_def)
  also have "v \<le> v * unat ub" using assms(3) by (cases "unat ub") (auto simp: unat_eq_0)
  finally show ?thesis using True by (simp add: encodes_def)
next
  case False
  then have v: "unat result = v" using assms(1) by (simp add: encodes_def)
  have M: "unat (- 1 :: u64) = 2 ^ 64 - 1" by (simp add: unsigned_minus_1_eq_mask mask_eq_exp_minus_1)
  have eqw: "x = y \<longleftrightarrow> unat x = unat y" for x y :: u64 by (simp add: word_unat_eq_iff)
  have "over \<longleftrightarrow> 2 ^ 64 - 1 < v * unat ub + unat digit"
    unfolding assms(4) word_less_nat_alt eqw [of result] unat_div unat_mod M v
    by (rule overflow_test) (use assms(2) in \<open>simp add: word_less_nat_alt\<close>)
  then have over: "over \<longleftrightarrow> 2 ^ 64 \<le> v * unat ub + unat digit" by auto
  show ?thesis
  proof (cases over)
    case True
    then show ?thesis using False over by (simp add: encodes_def)
  next
    case no: False
    then have "v * unat ub + unat digit < 2 ^ 64" using over by simp
    then have "unat (result * ub + digit) = v * unat ub + unat digit"
      using v by (simp add: unat_word_ariths(1,2))
    then show ?thesis using False no over by (simp add: encodes_def)
  qed
qed

lemma digit_loop_cstr:
  assumes "0 < ub" and "uint ub = b"
  shows "\<lbrakk>cstr m s r; encodes result overflow v\<rbrakk> \<Longrightarrow>
    \<exists>result' overflow'. digit_loop m ub s result any overflow =
      Some (result', any \<or> takeWhile (is_digit b) r \<noteq> [], overflow', s + of_nat (length (takeWhile (is_digit b) r))) \<and>
      encodes result' overflow' (number (unat ub) v (takeWhile (is_digit b) r))"
proof (induction r arbitrary: s result any overflow v)
  case Nil
  have "digit_of 0 = None" by (simp add: digit_of_def)
  then show ?case using Nil by (subst digit_loop.simps) (simp add: number_def)
next
  case (Cons c r)
  have c: "m s = c" "cstr m (s + 1) r" using Cons.prems(1) by simp_all
  show ?case
  proof (cases "is_digit b c")
    case False
    then have "digit_of c = None \<or> (\<exists>d. digit_of c = Some d \<and> ub \<le> d)"
      using assms(2) by (auto simp: is_digit_def word_le_def not_less split: option.splits)
    then show ?thesis using False Cons.prems c by (subst digit_loop.simps) (auto simp: number_def)
  next
    case True
    then obtain d where d: "digit_of c = Some d" "d < ub"
      using assms(2) by (auto simp: is_digit_def word_less_def split: option.splits)
    define over where "over \<longleftrightarrow> (- 1 div ub < result \<or> result = - 1 div ub \<and> - 1 mod ub < d)"
    note step = encodes_step [OF Cons.prems(2) d(2) assms(1) over_def]
    have dv: "digit_value c = unat d" using d(1) by (simp add: digit_value_def)
    have nd: "\<not> ub \<le> d" using d(2) by simp
    have e1: "digit_loop m ub s result any overflow =
        digit_loop m ub (s + 1) (if \<not> overflow \<and> \<not> over then result * ub + d else result) True (overflow \<or> over)"
      using d(1) nd c(1) unfolding over_def by (subst digit_loop.simps) (simp only: option.case if_False Let_def)
    have e2: "number (unat ub) v (takeWhile (is_digit b) (c # r)) =
        number (unat ub) (v * unat ub + unat d) (takeWhile (is_digit b) r)"
      using True dv by (simp add: number_def)
    have e3: "s + of_nat (length (takeWhile (is_digit b) (c # r))) = s + 1 + of_nat (length (takeWhile (is_digit b) r))"
      using True by simp
    have e4: "(any \<or> takeWhile (is_digit b) (c # r) \<noteq> []) = (True \<or> takeWhile (is_digit b) r \<noteq> [])" using True by simp
    show ?thesis unfolding e1 e2 e3 e4 by (rule Cons.IH [OF c(2) step])
  qed
qed

lemma number_parts:
  assumes "cstr m p s" and "base = 0 \<or> 2 \<le> base" and "base \<le> 36"
  defines "rest \<equiv> snd (sign_of (dropWhile is_space s))"
  defines "b \<equiv> fst (base_of base rest)" and "body \<equiv> snd (base_of base rest)"
  shows "\<exists>q1 q2 q3 result overflow. skip_space m p = Some q1 \<and> take_sign m q1 = (fst (sign_of (dropWhile is_space s)), q2) \<and>
    take_base m q2 base = (b, q3) \<and> at_rest m p s q3 body \<and>
    digit_loop m (of_int b) q3 0 False False =
      Some (result, takeWhile (is_digit b) body \<noteq> [], overflow, q3 + of_nat (length (takeWhile (is_digit b) body))) \<and>
    encodes result overflow (number (nat b) 0 (takeWhile (is_digit b) body))"
proof -
  obtain q1 where q1: "skip_space m p = Some q1" "at_rest m p s q1 (dropWhile is_space s)"
    using skip_space_cstr [OF assms(1)] by blast
  obtain q2 where q2: "take_sign m q1 = (fst (sign_of (dropWhile is_space s)), q2)" "at_rest m q1 (dropWhile is_space s) q2 rest"
    using take_sign_cstr [of m q1 "dropWhile is_space s"] q1(2) by (auto simp: at_rest_def rest_def)
  obtain q3 where q3: "take_base m q2 base = (b, q3)" "at_rest m q2 rest q3 body"
    using take_base_cstr [of m q2 rest base] q2(2) by (auto simp: at_rest_def b_def body_def)
  have all: "at_rest m p s q3 body" using at_rest_trans [OF q1(2) at_rest_trans [OF q2(2) q3(2)]] .
  have b: "2 \<le> b" "b \<le> 36" using assms(2,3) by (auto simp: b_def base_of_def)
  then have ub: "uint (of_int b :: u64) = b" by (simp add: uint_word_of_int take_bit_eq_mod)
  then have "(0 :: u64) < of_int b" "unat (of_int b :: u64) = nat b" using b by (simp_all add: word_less_def unat_eq_nat_uint)
  moreover have "cstr m q3 body" using all unfolding at_rest_def by blast
  moreover have "encodes 0 False 0" by (simp add: encodes_def)
  ultimately show ?thesis
    using digit_loop_cstr [of "of_int b" b m q3 body 0 False 0 False] ub q1(1) q2(1) q3(1) all by auto
qed

section \<open>Properties\<close>

text \<open>
  C20. On a NUL-terminated string \<open>strtoul\<close> with base 0 or 2 to 36 returns. It skips white space, one sign and the
  \<open>0x\<close> of a hexadecimal number, and takes the longest run of digits of the base. Without a digit it gives 0 and the start;
  otherwise the place behind the digits and their value in the base, the greatest 64-bit number when the value does not fit, and
  the value negated modulo \<open>2 ^ 64\<close> after a minus sign.
\<close>

theorem strtoul_correct:
  assumes "cstr m p s" and "p \<noteq> 0" and "base = 0 \<or> 2 \<le> base" and "base \<le> 36"
  shows "strtoul m p base =
    (let (negate, rest) = sign_of (dropWhile is_space s); (b, body) = base_of base rest;
         ds = takeWhile (is_digit b) body; v = number (nat b) 0 ds
     in Some (if ds = [] then (0, p)
              else (if 2 ^ 64 \<le> v then - 1 else if negate then - of_nat v else of_nat v,
                    p + of_nat (length s - length body + length ds))))"
proof -
  obtain negate rest where r: "sign_of (dropWhile is_space s) = (negate, rest)" by fastforce
  obtain b body where b: "base_of base rest = (b, body)" by fastforce
  let ?ds = "takeWhile (is_digit b) body"
  obtain q1 q2 q3 result overflow where q: "skip_space m p = Some q1" "take_sign m q1 = (negate, q2)" "take_base m q2 base = (b, q3)"
    "at_rest m p s q3 body"
    "digit_loop m (of_int b) q3 0 False False = Some (result, ?ds \<noteq> [], overflow, q3 + of_nat (length ?ds))"
    "encodes result overflow (number (nat b) 0 ?ds)"
    using number_parts [OF assms(1,3,4)] r b by auto
  have q3: "q3 = p + of_nat (length s - length body)" using q(4) unfolding at_rest_def by blast
  have "result = of_nat (number (nat b) 0 ?ds)" if "\<not> overflow"
  proof -
    have "unat result = number (nat b) 0 ?ds" using q(6) that by (simp add: encodes_def)
    from this [symmetric] show ?thesis by simp
  qed
  then show ?thesis
    using assms(2-4) r b q(1-3,5,6) q3 by (auto simp: strtoul_def Let_def encodes_def)
qed

text \<open>The string \<open>-0x1F;\<close> at address 64.\<close>

definition demo_number :: mem where
  "demo_number = write_bytes 64 [45, 48, 120, 49, 70, 59, 0] (\<lambda>_. 0)"

theorem strtoul_correct_witness:
  "strtoul demo_number 64 0 = Some (- 31, 69)"
proof -
  have c: "cstr demo_number 64 [45, 48, 120, 49, 70, 59]" by code_simp
  have s: "sign_of (dropWhile is_space [45, 48, 120, 49, 70, 59]) = (True, [48, 120, 49, 70, 59])" by code_simp
  have b: "base_of 0 [48, 120, 49, 70, 59] = (16, [49, 70, 59])" by code_simp
  have d: "takeWhile (is_digit 16) [49, 70, 59] = [49, 70]" "number (nat 16) 0 [49, 70] = 31" by code_simp+
  have "(64 :: u64) \<noteq> 0" "(0 :: int) = 0 \<or> 2 \<le> (0 :: int)" "(0 :: int) \<le> 36" by simp_all
  from strtoul_correct [OF c this] show ?thesis unfolding s prod.case Let_def b d by simp
qed

end
