(* ===== verification/Vfs.thy ===== *)
theory Vfs
  imports Heap_Laws
begin

text \<open>
  The in-memory file system of \<^verbatim>\<open>fs/vfs.cpp\<close>. A path is a list of characters, \<^const>\<open>None\<close> the null
  pointer. The list of entries from \<open>vfs_root\<close> is \<open>vroot\<close>; an entry carries the addresses of its own block, of its name
  and of its data, which the kernel allocator hands out and takes back, together with what these blocks hold. A pointer
  to an entry is its place in the list. An operation has no result when the allocator does not return, and when the
  code reads or writes outside a buffer.
\<close>

section \<open>Data\<close>

datatype node_type = NODE_FILE | NODE_DIRECTORY | NODE_DEVICE

datatype device_type = DEVICE_GENERIC | DEVICE_DISK | DEVICE_NETWORK | DEVICE_USB | DEVICE_GPU | DEVICE_INPUT | DEVICE_AUDIO
  | DEVICE_CONSOLE

record device_node_info =
  dev_type :: device_type
  device_id :: u32
  dev_base :: u64
  dev_size :: u64
  dev_irq :: u8
  dev_bus :: u8
  dev_slot :: u8
  dev_function :: u8
  dev_vendor :: u16
  dev_device :: u16

text \<open>\<open>name_cap\<close> is the size the name's block was allocated with.\<close>

record vfs_entry =
  entry_ptr :: u64
  name_ptr :: u64
  name_cap :: nat
  ename :: string
  data_ptr :: u64
  edata :: "u8 list"
  esize :: u32
  etype :: node_type
  device_info :: device_node_info
  has_device_info :: bool

datatype counter = disk_counter | network_counter | usb_counter | gpu_counter | input_counter | audio_counter

record vfs =
  vheap :: heap
  vroot :: "vfs_entry list"
  counters :: "counter \<Rightarrow> u32"

definition VFS_MAX_PATH :: nat where "VFS_MAX_PATH = 256"

text \<open>The size of a \<open>vfs_entry\<close> with its padding on x86-64.\<close>

definition sizeof_vfs_entry :: u64 where "sizeof_vfs_entry = 72"

definition zero_info :: device_node_info where
  "zero_info = \<lparr>dev_type = DEVICE_GENERIC, device_id = 0, dev_base = 0, dev_size = 0, dev_irq = 0, dev_bus = 0, dev_slot = 0,
     dev_function = 0, dev_vendor = 0, dev_device = 0\<rparr>"

text \<open>The character at place \<open>i\<close>, NUL at the end.\<close>

definition char_at :: "string \<Rightarrow> nat \<Rightarrow> char" where
  "char_at s i = (if i < length s then s ! i else CHR 0x00)"

section \<open>Paths\<close>

definition string_equal :: "string option \<Rightarrow> string option \<Rightarrow> bool" where
  "string_equal a b = (case (a, b) of (Some a, Some b) \<Rightarrow> a = b | _ \<Rightarrow> False)"

fun norm_loop :: "nat \<Rightarrow> string \<Rightarrow> string \<Rightarrow> bool \<Rightarrow> string option" where
  "norm_loop cap [] out previous_slash = Some out"
| "norm_loop cap (c # cs) out previous_slash =
     (if c = CHR ''/'' then
        if previous_slash then norm_loop cap cs out previous_slash
        else if cap \<le> length out + 1 then None
        else norm_loop cap cs (out @ [c]) True
      else if cap \<le> length out + 1 then None
      else norm_loop cap cs (out @ [c]) False)"

function strip_slashes :: "string \<Rightarrow> string" where
  "strip_slashes out = (if 1 < length out \<and> last out = CHR ''/'' then strip_slashes (butlast out) else out)"
  by pat_completeness auto

termination strip_slashes
  by (relation "measure length") auto

declare strip_slashes.simps [simp del]

definition normalize_path :: "string option \<Rightarrow> nat \<Rightarrow> string option" where
  "normalize_path input output_size =
     (case input of None \<Rightarrow> None
      | Some s \<Rightarrow>
          if output_size < 2 then None
          else
            let (out, previous_slash) = (if char_at s 0 \<noteq> CHR ''/'' then (''/'', True) else ('''', False))
            in (case norm_loop output_size s out previous_slash of None \<Rightarrow> None
                | Some out \<Rightarrow> Some (strip_slashes (if out = '''' then ''/'' else out))))"

definition find_entry :: "vfs \<Rightarrow> string option \<Rightarrow> nat option" where
  "find_entry v path =
     (case normalize_path path VFS_MAX_PATH of None \<Rightarrow> None
      | Some normalized \<Rightarrow> find_idx (\<lambda>e. name_ptr e \<noteq> 0 \<and> string_equal (Some (ename e)) (Some normalized)) (vroot v))"

text \<open>The loop \<open>while (slash > 0) { --slash; if (normalized[slash] == '/') break; }\<close>.\<close>

fun find_slash :: "string \<Rightarrow> nat \<Rightarrow> nat" where
  "find_slash s 0 = 0"
| "find_slash s (Suc k) = (if s ! k = CHR ''/'' then k else find_slash s k)"

definition parent_exists :: "vfs \<Rightarrow> string option \<Rightarrow> bool" where
  "parent_exists v path =
     (case normalize_path path VFS_MAX_PATH of None \<Rightarrow> False
      | Some normalized \<Rightarrow>
          if string_equal (Some normalized) (Some ''/'') then True
          else
            let slash = find_slash normalized (length normalized)
            in if slash = 0 then find_entry v (Some ''/'') \<noteq> None
               else if VFS_MAX_PATH \<le> slash then False
               else find_entry v (Some (take slash normalized)) \<noteq> None)"

section \<open>Entries\<close>

text \<open>The entry that \<open>allocate_entry\<close> links, and the null pointer or its place.\<close>

definition new_entry :: "u64 \<Rightarrow> u64 \<Rightarrow> string \<Rightarrow> node_type \<Rightarrow> vfs_entry" where
  "new_entry entry name normalized type =
     \<lparr>entry_ptr = entry, name_ptr = name, name_cap = length normalized + 1, ename = normalized, data_ptr = 0, edata = [], esize = 0,
      etype = type, device_info = zero_info, has_device_info = False\<rparr>"

text \<open>The two blocks of an entry, the name's and its own; the first is given back when there is no room for the second.\<close>

definition alloc_blocks :: "string \<Rightarrow> heap \<Rightarrow> (heap \<times> (u64 \<times> u64) option) option" where
  "alloc_blocks normalized h = do {
     (h, name) \<leftarrow> alloc (of_nat (length normalized + 1)) 8 h;
     if name = 0 then Some (h, None)
     else do {
       (h, entry) \<leftarrow> alloc sizeof_vfs_entry 8 h;
       if entry = 0 then do { h \<leftarrow> free name h; Some (h, None) } else Some (h, Some (name, entry))
     }
   }"

definition allocate_entry :: "string option \<Rightarrow> node_type \<Rightarrow> vfs \<Rightarrow> (vfs \<times> nat option) option" where
  "allocate_entry path type v =
     (case normalize_path path VFS_MAX_PATH of None \<Rightarrow> Some (v, None)
      | Some normalized \<Rightarrow>
          if find_entry v (Some normalized) \<noteq> None then Some (v, None)
          else if \<not> string_equal (Some normalized) (Some ''/'') \<and> \<not> parent_exists v (Some normalized) then Some (v, None)
          else do {
            (h, blocks) \<leftarrow> alloc_blocks normalized (vheap v);
            Some (case blocks of None \<Rightarrow> (v\<lparr>vheap := h\<rparr>, None)
                  | Some (name, entry) \<Rightarrow>
                      (v\<lparr>vheap := h, vroot := vroot v @ [new_entry entry name normalized type]\<rparr>, Some (length (vroot v))))
          })"

definition free_entry :: "vfs_entry \<Rightarrow> heap \<Rightarrow> heap option" where
  "free_entry e h = do {
     h \<leftarrow> (if data_ptr e \<noteq> 0 then free (data_ptr e) h else Some h);
     h \<leftarrow> (if name_ptr e \<noteq> 0 then free (name_ptr e) h else Some h);
     free (entry_ptr e) h
   }"

text \<open>Unlinking the entry at place \<open>i\<close>.\<close>

definition unlink :: "nat \<Rightarrow> vfs \<Rightarrow> vfs" where
  "unlink i v = v\<lparr>vroot := take i (vroot v) @ drop (Suc i) (vroot v)\<rparr>"

definition unlink_free :: "nat \<Rightarrow> vfs \<Rightarrow> vfs option" where
  "unlink_free i v = do { h \<leftarrow> free_entry (vroot v ! i) (vheap v); Some ((unlink i v)\<lparr>vheap := h\<rparr>) }"

definition set_entry :: "nat \<Rightarrow> vfs_entry \<Rightarrow> vfs \<Rightarrow> vfs" where
  "set_entry i e v = v\<lparr>vroot := (vroot v)[i := e]\<rparr>"

section \<open>Files\<close>

definition count_files :: "vfs \<Rightarrow> nat" where
  "count_files v = length (filter (\<lambda>e. etype e = NODE_FILE) (vroot v))"

fun name_loop :: "(vfs_entry \<Rightarrow> bool) \<Rightarrow> nat \<Rightarrow> nat \<Rightarrow> vfs_entry list \<Rightarrow> vfs_entry option" where
  "name_loop P index idx [] = None"
| "name_loop P index idx (e # es) =
     (if P e then if index = idx then Some e else name_loop P (index + 1) idx es else name_loop P index idx es)"

definition name_at :: "vfs \<Rightarrow> nat \<Rightarrow> string option" where
  "name_at v idx = map_option ename (name_loop (\<lambda>e. etype e = NODE_FILE) 0 idx (vroot v))"

text \<open>The buffer \<open>read_file\<close> returns, \<^const>\<open>None\<close> for the null pointer, and what it stores through \<open>out_size\<close>.\<close>

definition read_file :: "vfs \<Rightarrow> string option \<Rightarrow> u8 list option \<times> u32" where
  "read_file v name =
     (case find_entry v name of None \<Rightarrow> (None, 0)
      | Some i \<Rightarrow>
          let e = vroot v ! i
          in if etype e \<noteq> NODE_FILE then (None, 0) else (if data_ptr e = 0 then None else Some (edata e), esize e))"

text \<open>
  A caller's buffer of \<open>size\<close> bytes; reading past its end has no result.
\<close>

definition buffer :: "u8 list option \<Rightarrow> u32 \<Rightarrow> u8 list option" where
  "buffer data sz = (case data of None \<Rightarrow> None | Some d \<Rightarrow> if length d < unat sz then None else Some (take (unat sz) d))"

text \<open>The part of \<open>create_file\<close> that gives the new entry at place \<open>i\<close> its data, or unlinks and frees it again.\<close>

definition fill_entry :: "nat \<Rightarrow> u8 list option \<Rightarrow> u32 \<Rightarrow> vfs \<Rightarrow> (vfs \<times> bool) option" where
  "fill_entry i data sz v =
     (if 0 < sz then do {
        (h, p) \<leftarrow> alloc (ucast sz) 8 (vheap v);
        if p = 0 then do { v \<leftarrow> unlink_free i (v\<lparr>vheap := h\<rparr>); Some (v, False) }
        else do {
          d \<leftarrow> buffer data sz;
          Some (set_entry i ((vroot v ! i)\<lparr>data_ptr := p, edata := d, esize := sz\<rparr>) (v\<lparr>vheap := h\<rparr>), True)
        }
      }
      else Some (set_entry i ((vroot v ! i)\<lparr>esize := sz\<rparr>) v, True))"

definition create_file :: "string option \<Rightarrow> u8 list option \<Rightarrow> u32 \<Rightarrow> vfs \<Rightarrow> (vfs \<times> bool) option" where
  "create_file name data sz v =
     (if name = None \<or> 0 < sz \<and> data = None \<or> find_entry v name \<noteq> None then Some (v, False)
      else do {
        (v, entry) \<leftarrow> allocate_entry name NODE_FILE v;
        case entry of None \<Rightarrow> Some (v, False) | Some i \<Rightarrow> fill_entry i data sz v
      })"

text \<open>The part of \<open>write_file\<close> that replaces the contents of the entry at place \<open>i\<close>.\<close>

definition overwrite_entry :: "nat \<Rightarrow> u8 list option \<Rightarrow> u32 \<Rightarrow> vfs \<Rightarrow> (vfs \<times> bool) option" where
  "overwrite_entry i data sz v = do {
     (h, new_data) \<leftarrow> (if 0 < sz then alloc (ucast sz) 8 (vheap v) else Some (vheap v, 0));
     if 0 < sz \<and> new_data = 0 then Some (v\<lparr>vheap := h\<rparr>, False)
     else do {
       d \<leftarrow> (if 0 < sz then buffer data sz else Some []);
       h \<leftarrow> (if data_ptr (vroot v ! i) \<noteq> 0 then free (data_ptr (vroot v ! i)) h else Some h);
       Some (set_entry i ((vroot v ! i)\<lparr>data_ptr := new_data, edata := d, esize := sz\<rparr>) (v\<lparr>vheap := h\<rparr>), True)
     }
   }"

definition write_file :: "string option \<Rightarrow> u8 list option \<Rightarrow> u32 \<Rightarrow> vfs \<Rightarrow> (vfs \<times> bool) option" where
  "write_file name data sz v =
     (if name = None \<or> 0 < sz \<and> data = None then Some (v, False)
      else case find_entry v name of
        None \<Rightarrow> create_file name data sz v
      | Some i \<Rightarrow> if etype (vroot v ! i) \<noteq> NODE_FILE then Some (v, False) else overwrite_entry i data sz v)"

text \<open>
  The temporary buffer of \<open>write_file_at\<close>: zeros, then the old contents, then the new bytes from \<open>base\<close>. A
  write outside the buffer has no result.
\<close>

definition patched :: "u8 list \<Rightarrow> u64 \<Rightarrow> u8 list \<Rightarrow> nat \<Rightarrow> u8 list option" where
  "patched old base d new_size =
     (let buf = old @ replicate (new_size - length old) 0
      in if d \<noteq> [] \<and> new_size < unat base + length d then None
         else Some (take (unat base) buf @ d @ drop (unat base + length d) buf))"

text \<open>The part of \<open>write_file_at\<close> from the temporary buffer on, for the entry \<open>e\<close> and the new size.\<close>

definition splice_write ::
  "string option \<Rightarrow> vfs_entry \<Rightarrow> u64 \<Rightarrow> u8 list option \<Rightarrow> u32 \<Rightarrow> u32 \<Rightarrow> vfs \<Rightarrow> (vfs \<times> bool) option" where
  "splice_write name e base data sz new_size v =
     (if new_size = 0 then write_file name None new_size v
      else do {
        (h, buf) \<leftarrow> alloc (ucast new_size) 8 (vheap v);
        if buf = 0 then Some (v\<lparr>vheap := h\<rparr>, False)
        else do {
          d \<leftarrow> (if sz = 0 then Some [] else buffer data sz);
          bytes \<leftarrow> patched (if data_ptr e = 0 then [] else edata e) base d (unat new_size);
          (v, ok) \<leftarrow> write_file name (Some bytes) new_size (v\<lparr>vheap := h\<rparr>);
          h \<leftarrow> free buf (vheap v);
          Some (v\<lparr>vheap := h\<rparr>, ok)
        }
      })"

text \<open>
  \<open>write_file_at\<close> once it has the entry at place \<open>i\<close>. The second component of the result is what is stored through
  \<open>new_offset\<close>, \<^const>\<open>None\<close> on failure.
\<close>

definition write_entry_at ::
  "string option \<Rightarrow> nat \<Rightarrow> u64 \<Rightarrow> u8 list option \<Rightarrow> u32 \<Rightarrow> bool \<Rightarrow> vfs \<Rightarrow> (vfs \<times> u64 option) option" where
  "write_entry_at name i off data sz appending v =
     (let e = vroot v ! i; base = (if appending then ucast (esize e) else off); end = base + ucast sz;
          new_size = (if ucast (esize e) < end then ucast end else esize e)
      in if etype e \<noteq> NODE_FILE \<or> 0xffffffff < end then Some (v, None)
         else do {
           (v, ok) \<leftarrow> splice_write name e base data sz new_size v;
           Some (v, if ok then Some end else None)
         })"

definition write_file_at ::
  "string option \<Rightarrow> u64 \<Rightarrow> u8 list option \<Rightarrow> u32 \<Rightarrow> bool \<Rightarrow> vfs \<Rightarrow> (vfs \<times> u64 option) option" where
  "write_file_at name off data sz appending v =
     (if name = None \<or> sz \<noteq> 0 \<and> data = None then Some (v, None)
      else do {
        (v, ok) \<leftarrow> (if find_entry v name = None then create_file name None 0 v else Some (v, True));
        case (if ok then find_entry v name else None) of None \<Rightarrow> Some (v, None)
        | Some i \<Rightarrow> write_entry_at name i off data sz appending v
      })"

definition truncate_file :: "string option \<Rightarrow> u32 \<Rightarrow> vfs \<Rightarrow> (vfs \<times> bool) option" where
  "truncate_file name sz v = (if name = None then Some (v, False) else write_file name None sz v)"

section \<open>Directories\<close>

definition exists_path :: "vfs \<Rightarrow> string option \<Rightarrow> bool" where
  "exists_path v path \<longleftrightarrow> find_entry v path \<noteq> None"

definition is_directory :: "vfs \<Rightarrow> string option \<Rightarrow> bool" where
  "is_directory v path = (case find_entry v path of None \<Rightarrow> False | Some i \<Rightarrow> etype (vroot v ! i) = NODE_DIRECTORY)"

definition is_device :: "vfs \<Rightarrow> string option \<Rightarrow> bool" where
  "is_device v path = (case find_entry v path of None \<Rightarrow> False | Some i \<Rightarrow> etype (vroot v ! i) = NODE_DEVICE)"

definition create_directory :: "string option \<Rightarrow> vfs \<Rightarrow> (vfs \<times> bool) option" where
  "create_directory path v =
     (if path = None \<or> find_entry v path \<noteq> None then Some (v, False)
      else do { (v, entry) \<leftarrow> allocate_entry path NODE_DIRECTORY v; Some (v, entry \<noteq> None) })"

text \<open>
  The test of the listing loops: the name of a direct child of \<open>prefix\<close>, \<^const>\<open>None\<close> for an entry that is skipped.
  \<open>strncmp\<close> with the length of the prefix compares the first characters.
\<close>

definition direct_child :: "string \<Rightarrow> vfs_entry \<Rightarrow> string option" where
  "direct_child prefix e =
     (let plen = length prefix; name = ename e
      in if name_ptr e = 0 \<or> string_equal (Some name) (Some prefix) then None
         else if take plen name \<noteq> prefix then None
         else if (if prefix = ''/'' then length name = 1 else char_at name plen \<noteq> CHR ''/'') then None
         else
           let rest = drop plen name; rest = (if char_at rest 0 = CHR ''/'' then drop 1 rest else rest)
           in if rest = [] then None
              else if CHR ''/'' \<in> set rest then None
              else Some rest)"

text \<open>The normalized directory without a trailing slash.\<close>

definition listing_prefix :: "string option \<Rightarrow> string option" where
  "listing_prefix directory =
     (case normalize_path directory VFS_MAX_PATH of None \<Rightarrow> None
      | Some prefix \<Rightarrow>
          Some (if 1 < length prefix \<and> last prefix = CHR ''/'' then butlast prefix else prefix))"

definition directory_entry_count :: "vfs \<Rightarrow> string option \<Rightarrow> nat" where
  "directory_entry_count v directory =
     (if \<not> is_directory v directory then 0
      else case listing_prefix directory of None \<Rightarrow> 0
           | Some prefix \<Rightarrow>
               length (filter (\<lambda>e. char_at (ename e) 0 = CHR ''/'' \<and> direct_child prefix e \<noteq> None) (vroot v)))"

fun child_loop :: "string \<Rightarrow> nat \<Rightarrow> nat \<Rightarrow> vfs_entry list \<Rightarrow> string option" where
  "child_loop prefix cur index [] = None"
| "child_loop prefix cur index (e # es) =
     (case direct_child prefix e of None \<Rightarrow> child_loop prefix cur index es
      | Some rest \<Rightarrow> if cur = index then Some rest else child_loop prefix (cur + 1) index es)"

definition directory_entry_name :: "vfs \<Rightarrow> string option \<Rightarrow> nat \<Rightarrow> string option" where
  "directory_entry_name v directory index =
     (if \<not> is_directory v directory then None
      else case listing_prefix directory of None \<Rightarrow> None | Some prefix \<Rightarrow> child_loop prefix 0 index (vroot v))"

text \<open>Removing the entry of a path, for \<open>remove_file\<close> and \<open>remove_device_node\<close>.\<close>

definition remove_node :: "node_type \<Rightarrow> string option \<Rightarrow> vfs \<Rightarrow> (vfs \<times> bool) option" where
  "remove_node type path v =
     (case find_entry v path of None \<Rightarrow> Some (v, False)
      | Some i \<Rightarrow>
          if etype (vroot v ! i) \<noteq> type then Some (v, False)
          else do { v \<leftarrow> unlink_free i v; Some (v, True) })"

definition remove_file :: "string option \<Rightarrow> vfs \<Rightarrow> (vfs \<times> bool) option" where
  "remove_file path v = remove_node NODE_FILE path v"

text \<open>\<open>remove_directory\<close> exists only in the copy of the file system in \<^verbatim>\<open>src/vfs.cpp\<close>.\<close>

definition remove_directory :: "string option \<Rightarrow> vfs \<Rightarrow> (vfs \<times> bool) option" where
  "remove_directory path v =
     (case normalize_path path VFS_MAX_PATH of None \<Rightarrow> Some (v, False)
      | Some normalized \<Rightarrow>
          if string_equal (Some normalized) (Some ''/'') then Some (v, False)
          else if directory_entry_count v (Some normalized) \<noteq> 0 then Some (v, False)
          else remove_node NODE_DIRECTORY path v)"

text \<open>The new name is copied into the old name's block; past its end there is no result.\<close>

definition rename_path :: "string option \<Rightarrow> string option \<Rightarrow> vfs \<Rightarrow> (vfs \<times> bool) option" where
  "rename_path old_path new_path v =
     (case (normalize_path old_path VFS_MAX_PATH, normalize_path new_path VFS_MAX_PATH) of
        (Some oldn, Some newn) \<Rightarrow>
          (case find_entry v (Some oldn) of None \<Rightarrow> Some (v, False)
           | Some i \<Rightarrow>
               if find_entry v (Some newn) \<noteq> None \<or> VFS_MAX_PATH \<le> length newn then Some (v, False)
               else if name_cap (vroot v ! i) < length newn + 1 then None
               else Some (set_entry i ((vroot v ! i)\<lparr>ename := newn\<rparr>) v, True))
      | _ \<Rightarrow> Some (v, False))"

section \<open>Devices\<close>

definition create_device_node :: "string option \<Rightarrow> device_node_info \<Rightarrow> vfs \<Rightarrow> (vfs \<times> bool) option" where
  "create_device_node path info v =
     (if path = None \<or> find_entry v path \<noteq> None then Some (v, False)
      else do {
        (v, entry) \<leftarrow> allocate_entry path NODE_DEVICE v;
        Some (case entry of None \<Rightarrow> (v, False)
              | Some i \<Rightarrow> (set_entry i ((vroot v ! i)\<lparr>device_info := info, has_device_info := True\<rparr>) v, True))
      })"

definition remove_device_node :: "string option \<Rightarrow> vfs \<Rightarrow> (vfs \<times> bool) option" where
  "remove_device_node path v = remove_node NODE_DEVICE path v"

definition get_device_info :: "vfs \<Rightarrow> string option \<Rightarrow> device_node_info option" where
  "get_device_info v path =
     (case find_entry v path of None \<Rightarrow> None
      | Some i \<Rightarrow>
          let e = vroot v ! i
          in if etype e \<noteq> NODE_DEVICE \<or> \<not> has_device_info e then None else Some (device_info e))"

definition device_count :: "vfs \<Rightarrow> u32" where
  "device_count v = of_nat (length (filter (\<lambda>e. etype e = NODE_DEVICE) (vroot v)))"

definition device_name_at :: "vfs \<Rightarrow> nat \<Rightarrow> string option" where
  "device_name_at v index = map_option ename (name_loop (\<lambda>e. etype e = NODE_DEVICE) 0 index (vroot v))"

definition device_info_at :: "vfs \<Rightarrow> nat \<Rightarrow> device_node_info option" where
  "device_info_at v index =
     map_option device_info (name_loop (\<lambda>e. etype e = NODE_DEVICE \<and> has_device_info e) 0 index (vroot v))"

text \<open>The decimal digits of a number, the last one first, at most \<open>room\<close> of them.\<close>

fun reverse_digits :: "nat \<Rightarrow> u32 \<Rightarrow> string" where
  "reverse_digits 0 value = []"
| "reverse_digits (Suc room) value =
     (if 0 < value then char_of (48 + unat (value mod 10)) # reverse_digits room (value div 10) else [])"

definition make_device_path :: "string \<Rightarrow> u32 \<Rightarrow> nat \<Rightarrow> string option" where
  "make_device_path directory number output_size =
     (let number_buffer = (if number = 0 then ''0'' else rev (reverse_digits 16 number))
      in if output_size = 0 \<or> output_size < length directory + length number_buffer + 2 then None
         else Some (directory @ (if directory = [] \<or> last directory \<noteq> CHR ''/'' then ''/'' else []) @ number_buffer))"

text \<open>The loop that looks for a free path: the final counter, and the path unless it got too long.\<close>

partial_function (option) free_path :: "vfs \<Rightarrow> string \<Rightarrow> u32 \<Rightarrow> string \<Rightarrow> (u32 \<times> string option) option" where
  "free_path v directory counter path =
     (if exists_path v (Some path)
      then (case make_device_path directory (counter + 1) VFS_MAX_PATH of
              None \<Rightarrow> Some (counter + 1, None)
            | Some path \<Rightarrow> free_path v directory (counter + 1) path)
      else Some (counter, Some path))"

definition set_counter :: "counter \<Rightarrow> u32 \<Rightarrow> vfs \<Rightarrow> vfs" where
  "set_counter c n v = v\<lparr>counters := (counters v)(c := n)\<rparr>"

definition ensure_path :: "string \<Rightarrow> vfs \<Rightarrow> (vfs \<times> bool) option" where
  "ensure_path directory v = (if exists_path v (Some directory) then Some (v, True) else create_directory (Some directory) v)"

text \<open>\<open>info\<close> holds the arguments that describe the device.\<close>

definition register_device :: "device_type \<Rightarrow> string \<Rightarrow> counter \<Rightarrow> device_node_info \<Rightarrow> vfs \<Rightarrow> (vfs \<times> bool) option" where
  "register_device type directory c info v = do {
     (v, ok) \<leftarrow> ensure_path ''/devices'' v;
     if \<not> ok then Some (v, False)
     else do {
       (v, ok) \<leftarrow> ensure_path directory v;
       if \<not> ok then Some (v, False)
       else case make_device_path directory (counters v c) VFS_MAX_PATH of
         None \<Rightarrow> Some (v, False)
       | Some path \<Rightarrow> do {
           (n, path) \<leftarrow> free_path v directory (counters v c) path;
           let v = set_counter c n v;
           if path = None then Some (v, False)
           else do {
             (v, ok) \<leftarrow> create_device_node path (info\<lparr>dev_type := type, device_id := n\<rparr>) v;
             Some (if ok then (set_counter c (n + 1) v, True) else (v, False))
           }
         }
     }
   }"

definition register_disk :: "device_node_info \<Rightarrow> vfs \<Rightarrow> (vfs \<times> bool) option" where
  "register_disk info = register_device DEVICE_DISK ''/devices/disk'' disk_counter info"

definition register_network_device :: "device_node_info \<Rightarrow> vfs \<Rightarrow> (vfs \<times> bool) option" where
  "register_network_device info = register_device DEVICE_NETWORK ''/devices/net'' network_counter info"

definition register_usb_device :: "device_node_info \<Rightarrow> vfs \<Rightarrow> (vfs \<times> bool) option" where
  "register_usb_device info = register_device DEVICE_USB ''/devices/usb'' usb_counter info"

definition register_gpu_device :: "device_node_info \<Rightarrow> vfs \<Rightarrow> (vfs \<times> bool) option" where
  "register_gpu_device info = register_device DEVICE_GPU ''/devices/gpu'' gpu_counter info"

definition register_input_device :: "device_node_info \<Rightarrow> vfs \<Rightarrow> (vfs \<times> bool) option" where
  "register_input_device info = register_device DEVICE_INPUT ''/devices/input'' input_counter info"

definition register_audio_device :: "device_node_info \<Rightarrow> vfs \<Rightarrow> (vfs \<times> bool) option" where
  "register_audio_device info = register_device DEVICE_AUDIO ''/devices/audio'' audio_counter info"

text \<open>The directories that \<open>initialize_devices\<close> makes sure of, in order; a failure is ignored.\<close>

definition base_directories :: "string list" where
  "base_directories = [''/devices'', ''/system'', ''/boot'', ''/tmp'', ''/mnt'', ''/process'', ''/devices/disk'', ''/devices/net'',
     ''/devices/usb'', ''/devices/gpu'', ''/devices/input'', ''/devices/audio'', ''/devices/console'']"

fun ensure_all :: "string list \<Rightarrow> vfs \<Rightarrow> vfs option" where
  "ensure_all [] v = Some v"
| "ensure_all (d # ds) v = do { (v, ok) \<leftarrow> ensure_path d v; ensure_all ds v }"

definition initialize_devices :: "vfs \<Rightarrow> vfs option" where
  "initialize_devices v = do {
     (v, entry) \<leftarrow> (if find_entry v (Some ''/'') = None then allocate_entry (Some ''/'') NODE_DIRECTORY v else Some (v, None));
     ensure_all base_directories v
   }"

end
