(* ===== verification/Vfs_Paths.thy ===== *)
theory Vfs_Paths
  imports Vfs
begin

text \<open>
  Paths: a path stands for the list of its components, and \<open>normalize_path\<close> computes the one spelling of that list
  with single slashes and no trailing slash.
\<close>

section \<open>Components\<close>

abbreviation slash :: char where "slash \<equiv> CHR ''/''"

function components :: "string \<Rightarrow> string list" where
  "components s =
     (let t = dropWhile (\<lambda>c. c = slash) s
      in if t = [] then [] else takeWhile (\<lambda>c. c \<noteq> slash) t # components (dropWhile (\<lambda>c. c \<noteq> slash) t))"
  by pat_completeness auto

termination components
proof (relation "measure length")
  fix s t :: string
  assume t: "t = dropWhile (\<lambda>c. c = slash) s" and ne: "t \<noteq> []"
  then have "hd t \<noteq> slash" using hd_dropWhile [of "\<lambda>c. c = slash" s] by auto
  then have "length (dropWhile (\<lambda>c. c \<noteq> slash) t) < length t"
    using ne length_dropWhile_le [of "\<lambda>c. c \<noteq> slash" "tl t"] by (cases t) auto
  moreover have "length t \<le> length s" unfolding t by (rule length_dropWhile_le)
  ultimately show "(dropWhile (\<lambda>c. c \<noteq> slash) t, s) \<in> measure length" by simp
qed simp

declare components.simps [simp del]

definition render :: "string list \<Rightarrow> string" where
  "render cs = (if cs = [] then [slash] else concat (map (\<lambda>c. slash # c) cs))"

definition component :: "string \<Rightarrow> bool" where
  "component c \<longleftrightarrow> c \<noteq> [] \<and> slash \<notin> set c"

lemma components_ok: "list_all component (components s)"
proof (induction s rule: components.induct)
  case (1 s)
  define t where "t = dropWhile (\<lambda>c. c = slash) s"
  show ?case
  proof (cases "t = []")
    case True
    then show ?thesis by (simp add: components.simps [of s] t_def Let_def)
  next
    case False
    then have "hd t \<noteq> slash" using hd_dropWhile [of "\<lambda>c. c = slash" s] by (auto simp: t_def)
    then have "component (takeWhile (\<lambda>c. c \<noteq> slash) t)"
      using False by (cases t) (auto simp: component_def dest: set_takeWhileD)
    moreover have "components s = takeWhile (\<lambda>c. c \<noteq> slash) t # components (dropWhile (\<lambda>c. c \<noteq> slash) t)"
      using False by (simp add: components.simps [of s] t_def [symmetric] Let_def)
    ultimately show ?thesis using 1 [OF t_def False] by simp
  qed
qed

lemma components_slash: "components (slash # s) = components s"
  by (simp add: components.simps [of "slash # s"] components.simps [of s])

lemma components_step:
  assumes "component w"
  shows "components (w @ slash # u) = w # components u" and "components w = [w]"
proof -
  have d: "dropWhile (\<lambda>c. c = slash) (w @ r) = w @ r" for r using assms by (cases w) (auto simp: component_def)
  have t: "takeWhile (\<lambda>c. c \<noteq> slash) (w @ r) = w @ takeWhile (\<lambda>c. c \<noteq> slash) r"
    "dropWhile (\<lambda>c. c \<noteq> slash) (w @ r) = dropWhile (\<lambda>c. c \<noteq> slash) r" for r
    using assms by (auto simp: component_def takeWhile_append dropWhile_append)
  have ne: "w \<noteq> []" using assms by (simp add: component_def)
  show "components (w @ slash # u) = w # components u"
    using ne by (simp add: components.simps [of "w @ slash # u"] d t components_slash)
  have e: "components [] = []" by (simp add: components.simps [of "[]"])
  have "components w = takeWhile (\<lambda>c. c \<noteq> slash) w # components (dropWhile (\<lambda>c. c \<noteq> slash) w)"
    using d [of "[]"] ne by (subst components.simps) simp
  then show "components w = [w]" using t [of "[]"] e by (simp only: append_Nil2 takeWhile.simps dropWhile.simps)
qed

lemma components_render:
  assumes "list_all component cs"
  shows "components (render cs) = cs"
proof -
  have "components (concat (map (\<lambda>c. slash # c) cs)) = cs"
    using assms
  proof (induction cs)
    case Nil
    then show ?case by (simp add: components.simps [of "[]"])
  next
    case (Cons c cs)
    show ?case
    proof (cases cs)
      case Nil
      then show ?thesis using Cons.prems by (simp add: components_slash components_step)
    next
      case (Cons d ds)
      then show ?thesis using Cons.IH Cons.prems components_step(1) [of c "d @ concat (map (\<lambda>c. slash # c) ds)"]
        by (simp add: components_slash)
    qed
  qed
  then show ?thesis by (auto simp: render_def components_slash components.simps [of "[]"])
qed

section \<open>The loop\<close>

fun collapse :: "bool \<Rightarrow> string \<Rightarrow> string" where
  "collapse prev [] = []"
| "collapse prev (c # cs) =
     (if c = slash then if prev then collapse True cs else slash # collapse True cs else c # collapse False cs)"

lemma norm_loop_eq:
  "length out + 1 \<le> cap \<Longrightarrow>
    norm_loop cap s out prev = (if length out + length (collapse prev s) + 1 \<le> cap then Some (out @ collapse prev s) else None)"
  by (induction cap s out prev rule: norm_loop.induct) auto

definition raw :: "string \<Rightarrow> string" where
  "raw s = slash # collapse True s"

lemma normalize_raw:
  assumes "2 \<le> cap"
  shows "normalize_path (Some s) cap = (if length (raw s) < cap then Some (strip_slashes (raw s)) else None)"
proof (cases "char_at s 0 = slash")
  case True
  then obtain t where s: "s = slash # t" by (cases s) (auto simp: char_at_def)
  then show ?thesis using assms norm_loop_eq [of "[]" cap s False]
    by (auto simp: normalize_path_def char_at_def raw_def)
next
  case False
  then show ?thesis using assms norm_loop_eq [of "[slash]" cap s True]
    by (auto simp: normalize_path_def raw_def)
qed

lemma strip_slashes_snoc:
  "strip_slashes (xs @ [c]) = (if c = slash \<and> xs \<noteq> [] then strip_slashes xs else xs @ [c])"
  by (subst strip_slashes.simps) (cases xs; simp)

lemma strip_slashes_append:
  assumes "xs \<noteq> []" and "last xs \<noteq> slash" and "ys \<noteq> []" and "hd ys = slash"
  shows "strip_slashes (xs @ ys) = (if strip_slashes ys = [slash] then xs else xs @ strip_slashes ys)"
  using assms(3,4)
proof (induction ys rule: rev_induct)
  case (snoc c ys)
  show ?case
  proof (cases "ys = []")
    case True
    then have "c = slash" using snoc.prems by simp
    moreover have "strip_slashes xs = xs" using assms(2) by (subst strip_slashes.simps) simp
    ultimately show ?thesis using True assms(1) strip_slashes_snoc [of xs slash] strip_slashes_snoc [of "[]" slash] by simp
  next
    case False
    then have "hd ys = slash" using snoc.prems by simp
    then have IH: "strip_slashes (xs @ ys) = (if strip_slashes ys = [slash] then xs else xs @ strip_slashes ys)"
      using snoc.IH False by blast
    show ?thesis
    proof (cases "c = slash")
      case True
      then show ?thesis
        using IH False strip_slashes_snoc [of "xs @ ys" c] strip_slashes_snoc [of ys c] by simp
    next
      case no: False
      then show ?thesis
        using False strip_slashes_snoc [of "xs @ ys" c] strip_slashes_snoc [of ys c] by auto
    qed
  qed
qed simp

lemma collapse_component: "component w \<Longrightarrow> collapse p (w @ u) = w @ collapse False u"
proof -
  have "slash \<notin> set w \<Longrightarrow> w \<noteq> [] \<Longrightarrow> collapse p (w @ u) = w @ collapse False u"
  proof (induction w arbitrary: p)
    case (Cons c w)
    then show ?case by (cases w) auto
  qed simp
  then show "component w \<Longrightarrow> ?thesis" by (simp add: component_def)
qed

lemma collapse_dropWhile: "collapse True s = collapse True (dropWhile (\<lambda>c. c = slash) s)"
  by (induction s) auto

lemma last_component: "component w \<Longrightarrow> last (slash # w) \<noteq> slash"
  by (metis component_def last_ConsR last_in_set)

lemma strip_raw: "strip_slashes (raw s) = render (components s)"
proof (induction s rule: components.induct)
  case (1 s)
  define t where "t = dropWhile (\<lambda>c. c = slash) s"
  have raw: "raw s = slash # collapse True t" by (simp add: raw_def t_def collapse_dropWhile [of s])
  show ?case
  proof (cases "t = []")
    case True
    then show ?thesis using raw strip_slashes_snoc [of "[]" slash] by (simp add: components.simps [of s] t_def [symmetric] render_def)
  next
    case False
    define w u where "w = takeWhile (\<lambda>c. c \<noteq> slash) t" and "u = dropWhile (\<lambda>c. c \<noteq> slash) t"
    have cs: "components s = w # components u" using False by (simp add: components.simps [of s] t_def [symmetric] w_def u_def Let_def)
    then have w: "component w" using components_ok [of s] by simp
    have t: "t = w @ u" by (simp add: w_def u_def)
    have IH: "strip_slashes (raw u) = render (components u)" using 1 [OF t_def False] by (simp add: u_def)
    show ?thesis
    proof (cases u)
      case Nil
      have "strip_slashes (slash # w) = slash # w" using last_component [OF w] by (subst strip_slashes.simps) simp
      then show ?thesis using raw t Nil collapse_component [OF w, of True "[]"] cs
        by (simp add: render_def components.simps [of "[]"])
    next
      case (Cons c u')
      then have c: "c = slash" using hd_dropWhile [of "\<lambda>c. c \<noteq> slash" t] by (simp add: u_def)
      then have "raw s = (slash # w) @ raw u"
        using raw t Cons collapse_component [OF w, of True u] by (simp add: raw_def)
      moreover have "strip_slashes ((slash # w) @ raw u) = (if strip_slashes (raw u) = [slash] then slash # w else (slash # w) @ strip_slashes (raw u))"
        using last_component [OF w] by (intro strip_slashes_append) (simp_all add: raw_def)
      moreover have "render ds = [slash] \<longleftrightarrow> ds = []" if "list_all component ds" for ds
        using that by (cases ds) (auto simp: render_def component_def)
      ultimately show ?thesis using IH cs components_ok [of u] by (simp add: render_def)
    qed
  qed
qed

lemma components_Nil_iff: "components s = [] \<longleftrightarrow> set s \<subseteq> {slash}"
proof -
  have "components s = [] \<longleftrightarrow> dropWhile (\<lambda>c. c = slash) s = []" by (subst components.simps) (simp add: Let_def)
  then show ?thesis by auto
qed

lemma raw_length: "length (raw s) = length (render (components s)) + of_bool (components s \<noteq> [] \<and> last s = slash)"
proof (induction s rule: components.induct)
  case (1 s)
  define t where "t = dropWhile (\<lambda>c. c = slash) s"
  have raw: "raw s = slash # collapse True t" by (simp add: raw_def t_def collapse_dropWhile [of s])
  show ?case
  proof (cases "t = []")
    case True
    then show ?thesis using raw by (simp add: components.simps [of s] t_def [symmetric] render_def)
  next
    case False
    define w u where "w = takeWhile (\<lambda>c. c \<noteq> slash) t" and "u = dropWhile (\<lambda>c. c \<noteq> slash) t"
    have cs: "components s = w # components u" using False by (simp add: components.simps [of s] t_def [symmetric] w_def u_def Let_def)
    then have w: "component w" using components_ok [of s] by simp
    have t: "t = w @ u" by (simp add: w_def u_def)
    have last_s: "last s = last t"
      using False takeWhile_dropWhile_id [of "\<lambda>c. c = slash" s] by (metis last_appendR t_def)
    have IH: "length (raw u) = length (render (components u)) + of_bool (components u \<noteq> [] \<and> last u = slash)"
      using 1 [OF t_def False] by (simp add: u_def)
    show ?thesis
    proof (cases u)
      case Nil
      moreover have "last w \<noteq> slash" using w last_in_set [of w] by (metis component_def)
      ultimately show ?thesis using raw t collapse_component [OF w, of True "[]"] cs last_s
        by (simp add: render_def components.simps [of "[]"])
    next
      case (Cons c u')
      then have c: "c = slash" using hd_dropWhile [of "\<lambda>c. c \<noteq> slash" t] by (simp add: u_def)
      then have raw_s: "raw s = (slash # w) @ raw u"
        using raw t Cons collapse_component [OF w, of True u] by (simp add: raw_def)
      have last_u: "last s = last u" using last_s t Cons by simp
      show ?thesis
      proof (cases "components u = []")
        case True
        then have "last u = slash" using Cons last_in_set [of u] by (auto simp: components_Nil_iff)
        then show ?thesis using raw_s IH cs last_u True by (simp add: render_def)
      next
        case False
        then show ?thesis using raw_s IH cs last_u by (simp add: render_def)
      qed
    qed
  qed
qed

lemma last_render: "list_all component cs \<Longrightarrow> cs \<noteq> [] \<Longrightarrow> last (render cs) \<noteq> slash"
proof (induction cs rule: rev_induct)
  case (snoc c cs)
  then show ?case using last_component [of c] by (simp add: render_def)
qed simp

lemma normalize_eq:
  "normalize_path (Some s) VFS_MAX_PATH =
     (if length (render (components s)) + of_bool (components s \<noteq> [] \<and> last s = slash) < VFS_MAX_PATH
      then Some (render (components s)) else None)"
  using normalize_raw [of VFS_MAX_PATH s] by (simp add: VFS_MAX_PATH_def strip_raw raw_length)

definition normal :: "string \<Rightarrow> bool" where
  "normal n \<longleftrightarrow> normalize_path (Some n) VFS_MAX_PATH = Some n"

lemma normalE:
  assumes "normal n"
  obtains cs where "list_all component cs" "n = render cs" "components n = cs" "length n < VFS_MAX_PATH"
proof
  show "list_all component (components n)" by (rule components_ok)
  show "n = render (components n)" "length n < VFS_MAX_PATH"
    using assms by (auto simp: normal_def normalize_eq split: if_splits)
qed simp

lemma normal_render:
  assumes "list_all component cs" and "length (render cs) < VFS_MAX_PATH"
  shows "normal (render cs)"
proof (cases "cs = []")
  case True
  then show ?thesis using assms components_render [OF assms(1)] by (simp add: normal_def normalize_eq)
next
  case False
  then show ?thesis using assms components_render [OF assms(1)] last_render [OF assms(1)] by (simp add: normal_def normalize_eq)
qed

lemma normalize_normal:
  assumes "normalize_path p VFS_MAX_PATH = Some n"
  shows "normal n"
proof -
  obtain s where s: "p = Some s" using assms by (cases p) (auto simp: normalize_path_def)
  then have "n = render (components s)" "length (render (components s)) < VFS_MAX_PATH"
    using assms by (auto simp: normalize_eq split: if_splits)
  then show ?thesis using normal_render [OF components_ok] by simp
qed

lemma normalize_None [simp]: "normalize_path None cap = None"
  by (simp add: normalize_path_def)

lemma normal_root: "normal [slash]"
  using normal_render [of "[]"] by (simp add: render_def VFS_MAX_PATH_def)

section \<open>Parents\<close>

lemma find_slash_append: "slash \<notin> set w \<Longrightarrow> find_slash (xs @ slash # w) (length xs + 1 + k) = length xs" if "k \<le> length w"
  using that
proof (induction k)
  case (Suc k)
  then have "(xs @ slash # w) ! (length xs + 1 + k) = w ! k" by (simp add: nth_append)
  moreover have "w ! k \<noteq> slash" using Suc.prems by (metis Suc_le_eq nth_mem)
  ultimately show ?case using Suc by auto
qed (simp add: nth_append)

lemma find_slash_render:
  assumes "component c" and "list_all component cs"
  shows "find_slash (render (cs @ [c])) (length (render (cs @ [c]))) = (if cs = [] then 0 else length (render cs))"
proof -
  have "find_slash (concat (map (\<lambda>c. slash # c) cs) @ slash # c) (length (concat (map (\<lambda>c. slash # c) cs)) + 1 + length c) =
      length (concat (map (\<lambda>c. slash # c) cs))"
    using assms(1) by (intro find_slash_append) (simp_all add: component_def)
  then show ?thesis by (auto simp: render_def)
qed

section \<open>Normalization\<close>

text \<open>
  C21. \<open>normalize_path\<close> gives every path the same spelling as every other path with the same components: a slash before each
  component, no other slash, and a single slash for the path without components. It fails exactly when this, with one
  character more for a trailing slash of the input, does not fit the 256 bytes of the buffer, and leaves a normalized path alone.
\<close>

theorem normalize_path_correct:
  "normalize_path (Some s) VFS_MAX_PATH =
     (if length (render (components s)) + of_bool (components s \<noteq> [] \<and> last s = CHR ''/'') < 256
      then Some (render (components s)) else None) \<and>
   list_all component (components s) \<and> components (render (components s)) = components s \<and>
   (\<forall>n. normalize_path (Some s) VFS_MAX_PATH = Some n \<longrightarrow> normalize_path (Some n) VFS_MAX_PATH = Some n)"
  using normalize_eq [of s] components_ok [of s] components_render [OF components_ok] normalize_normal
  by (auto simp: normal_def VFS_MAX_PATH_def)

theorem normalize_path_correct_witness:
  "normalize_path (Some ''tmp//a/'') VFS_MAX_PATH = Some ''/tmp/a'' \<and> normalize_path (Some ''/tmp/a'') VFS_MAX_PATH = Some ''/tmp/a''"
proof -
  have "components ''tmp//a/'' = [''tmp'', ''a'']" by code_simp
  then have "normalize_path (Some ''tmp//a/'') VFS_MAX_PATH = Some ''/tmp/a''"
    using normalize_path_correct [of "''tmp//a/''"] by (simp add: render_def)
  then show ?thesis using normalize_path_correct [of "''tmp//a/''"] by blast
qed

end
