(* ===== verification/Vfs_Safe.thy ===== *)
theory Vfs_Safe
  imports Vfs_Paths
begin

text \<open>
  Memory safety and the abstract state of the file system. The invariant \<open>vfs_ok R\<close> says that the names are
  normalized and unique, that every entry describes its contents correctly, and that the blocks of the kernel
  heap in use are exactly those that the entries refer to and those of the multiset \<open>R\<close> of other users.
\<close>

interpretation fheap: heap_api heap_live "\<lambda>n. alloc n 8" free
proof unfold_locales
  fix h L n
  assume "heap_live h L"
  then show "\<exists>h' p. alloc n 8 h = Some (h', p) \<and> (p = 0 \<and> heap_live h' L \<or>
      p \<noteq> 0 \<and> (\<exists>m. unat n \<le> m \<and> (p, m) \<notin> L \<and> heap_live h' (insert (p, m) L)))"
    by (rule heap_new)
next
  show "free 0 h = Some h" for h by (simp add: free_def)
qed (rule heap_delete kheap.live_apart kheap.live_size kheap.live_addr; assumption)+

section \<open>The invariant\<close>

definition ptrs :: "vfs_entry \<Rightarrow> u64 multiset" where
  "ptrs e = {#entry_ptr e, name_ptr e#} + (if data_ptr e = 0 then {#} else {#data_ptr e#})"

definition own :: "vfs_entry list \<Rightarrow> u64 multiset" where
  "own es = sum_list (map ptrs es)"

definition entry_ok :: "vfs_entry \<Rightarrow> bool" where
  "entry_ok e \<longleftrightarrow> normal (ename e) \<and> name_ptr e \<noteq> 0 \<and> length (ename e) < name_cap e \<and> length (edata e) = unat (esize e) \<and>
     (data_ptr e = 0 \<longleftrightarrow> edata e = []) \<and> (edata e \<noteq> [] \<longrightarrow> etype e = NODE_FILE) \<and> (has_device_info e \<longrightarrow> etype e = NODE_DEVICE)"

definition entries_ok :: "vfs_entry list \<Rightarrow> bool" where
  "entries_ok es \<longleftrightarrow> (\<forall>e \<in> set es. entry_ok e) \<and> distinct (map ename es)"

definition vfs_ok :: "u64 multiset \<Rightarrow> vfs \<Rightarrow> bool" where
  "vfs_ok R v \<longleftrightarrow> owned heap_live (vheap v) (own (vroot v) + R) \<and> entries_ok (vroot v)"

type_synonym node = "node_type \<times> u8 list \<times> device_node_info option"

definition node :: "vfs_entry \<Rightarrow> node" where
  "node e = (etype e, edata e, if has_device_info e then Some (device_info e) else None)"

definition files :: "vfs \<Rightarrow> string \<Rightarrow> node option" where
  "files v = map_of (map (\<lambda>e. (ename e, node e)) (vroot v))"

section \<open>Lists of entries\<close>

lemma own_simps [simp]: "own [] = {#}" "own (e # es) = ptrs e + own es" "own (xs @ ys) = own xs + own ys"
  by (simp_all add: own_def)

lemma list_split: "i < length xs \<Longrightarrow> \<exists>ys zs. xs = ys @ xs ! i # zs \<and> length ys = i \<and> ys = take i xs \<and> zs = drop (Suc i) xs"
  using id_take_nth_drop [of i xs] by (intro exI [of _ "take i xs"] exI [of _ "drop (Suc i) xs"]) simp

lemma map_of_split:
  assumes "distinct (map fst (ys @ (n, x) # zs))"
  shows "\<lbrakk>m \<notin> fst ` set ys; m = n \<or> m \<notin> fst ` set zs\<rbrakk> \<Longrightarrow>
      map_of (ys @ (m, y) # zs) = (map_of (ys @ (n, x) # zs))(n := None, m \<mapsto> y)"
    and "map_of (ys @ zs) = (map_of (ys @ (n, x) # zs))(n := None)"
proof -
  have n: "map_of ys n = None" "map_of zs n = None" using assms by (auto simp: map_of_eq_None_iff)
  then show "map_of (ys @ zs) = (map_of (ys @ (n, x) # zs))(n := None)"
    by (auto simp: fun_eq_iff map_add_def split: option.split)
  show "map_of (ys @ (m, y) # zs) = (map_of (ys @ (n, x) # zs))(n := None, m \<mapsto> y)"
    if "m \<notin> fst ` set ys" "m = n \<or> m \<notin> fst ` set zs"
  proof -
    have "map_of ys m = None" using that(1) by (simp add: map_of_eq_None_iff)
    then show ?thesis using n by (auto simp: fun_eq_iff map_add_def split: option.split)
  qed
qed

lemma files_append:
  assumes "ename e \<notin> ename ` set es"
  shows "map_of (map (\<lambda>e. (ename e, node e)) (es @ [e])) = (map_of (map (\<lambda>e. (ename e, node e)) es))(ename e \<mapsto> node e)"
proof -
  have "map_of (map (\<lambda>e. (ename e, node e)) es) (ename e) = None" using assms by (auto simp: map_of_eq_None_iff)
  then show ?thesis by (auto simp: fun_eq_iff map_add_def split: option.split)
qed

text \<open>Looking up a path.\<close>

lemma find_entry_eq:
  assumes "entries_ok (vroot v)"
  shows "find_entry v p = (case normalize_path p VFS_MAX_PATH of None \<Rightarrow> None | Some n \<Rightarrow> find_idx (\<lambda>e. ename e = n) (vroot v))"
proof -
  have "find_idx (\<lambda>e. name_ptr e \<noteq> 0 \<and> string_equal (Some (ename e)) (Some n)) (vroot v) = find_idx (\<lambda>e. ename e = n) (vroot v)" for n
    using assms by (intro find_idx_cong) (auto simp: entries_ok_def entry_ok_def string_equal_def)
  then show ?thesis by (simp add: find_entry_def split: option.split)
qed

lemma files_nth:
  assumes "entries_ok (vroot v)" and "i < length (vroot v)"
  shows "files v (ename (vroot v ! i)) = Some (node (vroot v ! i))"
proof -
  have "distinct (map fst (map (\<lambda>e. (ename e, node e)) (vroot v)))"
    using assms(1) by (simp add: entries_ok_def comp_def)
  then show ?thesis unfolding files_def using assms(2) by (intro map_of_is_SomeI) auto
qed

lemma find_entry_SomeD:
  assumes "entries_ok (vroot v)" and "find_entry v p = Some i"
  shows "i < length (vroot v)" and "normalize_path p VFS_MAX_PATH = Some (ename (vroot v ! i))"
    and "files v (ename (vroot v ! i)) = Some (node (vroot v ! i))" and "entry_ok (vroot v ! i)"
proof -
  obtain n where n: "normalize_path p VFS_MAX_PATH = Some n" "find_idx (\<lambda>e. ename e = n) (vroot v) = Some i"
    using assms(2) find_entry_eq [OF assms(1), of p] by (auto split: option.splits)
  note f = find_idx_SomeD [OF n(2)]
  show i: "i < length (vroot v)" and "normalize_path p VFS_MAX_PATH = Some (ename (vroot v ! i))" using f n(1) by auto
  show "files v (ename (vroot v ! i)) = Some (node (vroot v ! i))" using files_nth [OF assms(1) i] .
  show "entry_ok (vroot v ! i)" using assms(1) i by (simp add: entries_ok_def)
qed

lemma find_entry_None_iff:
  assumes "entries_ok (vroot v)" and "normalize_path p VFS_MAX_PATH = Some n"
  shows "find_entry v p = None \<longleftrightarrow> files v n = None" and "files v n = None \<longleftrightarrow> n \<notin> ename ` set (vroot v)"
proof -
  show "files v n = None \<longleftrightarrow> n \<notin> ename ` set (vroot v)"
    by (auto simp: files_def map_of_eq_None_iff image_image)
  then show "find_entry v p = None \<longleftrightarrow> files v n = None"
    using find_entry_eq [OF assms(1), of p] assms(2) by (auto simp: find_idx_None_iff)
qed

lemma find_entry_files:
  assumes "entries_ok (vroot v)" and "normalize_path p VFS_MAX_PATH = Some n"
  shows "files v n = map_option (\<lambda>i. node (vroot v ! i)) (find_entry v p)"
  using find_entry_SomeD [OF assms(1), of p] find_entry_None_iff [OF assms] assms(2) by (cases "find_entry v p") auto

section \<open>Changing one entry\<close>

lemma vfs_okD: "vfs_ok R v \<Longrightarrow> owned heap_live (vheap v) (own (vroot v) + R)" "vfs_ok R v \<Longrightarrow> entries_ok (vroot v)"
  by (simp_all add: vfs_ok_def)

lemma ok_heap: "\<lbrakk>vfs_ok R v; owned heap_live h (own (vroot v) + R)\<rbrakk> \<Longrightarrow> vfs_ok R (v\<lparr>vheap := h\<rparr>)"
  by (simp add: vfs_ok_def)

lemma ok_append:
  assumes "vfs_ok R v" and "entry_ok e" and "files v (ename e) = None"
    and "owned heap_live h (ptrs e + (own (vroot v) + R))"
  shows "vfs_ok R (v\<lparr>vheap := h, vroot := vroot v @ [e]\<rparr>)"
    and "files (v\<lparr>vheap := h, vroot := vroot v @ [e]\<rparr>) = (files v)(ename e \<mapsto> node e)"
proof -
  have new: "ename e \<notin> ename ` set (vroot v)" using assms(3) by (auto simp: files_def map_of_eq_None_iff image_image)
  then show "vfs_ok R (v\<lparr>vheap := h, vroot := vroot v @ [e]\<rparr>)"
    using assms by (auto simp: vfs_ok_def entries_ok_def ac_simps)
  show "files (v\<lparr>vheap := h, vroot := vroot v @ [e]\<rparr>) = (files v)(ename e \<mapsto> node e)"
    using files_append [OF new] by (simp add: files_def)
qed

text \<open>What the entries other than the one at place \<open>i\<close> own.\<close>

definition rest_own :: "nat \<Rightarrow> vfs \<Rightarrow> u64 multiset" where
  "rest_own i v = own (take i (vroot v) @ drop (Suc i) (vroot v))"

lemma own_split: "i < length (vroot v) \<Longrightarrow> own (vroot v) = ptrs (vroot v ! i) + rest_own i v"
  using list_split [of i "vroot v"] by (metis (no_types, lifting) add.left_commute own_simps(2,3) rest_own_def)

lemma ok_set:
  assumes ok: "vfs_ok R v" and i: "i < length (vroot v)" and e: "entry_ok e"
    and h: "owned heap_live h (ptrs e + (rest_own i v + R))"
    and n: "ename e = ename (vroot v ! i) \<or> files v (ename e) = None"
  shows "vfs_ok R (set_entry i e (v\<lparr>vheap := h\<rparr>))"
    and "files (set_entry i e (v\<lparr>vheap := h\<rparr>)) = (files v)(ename (vroot v ! i) := None, ename e \<mapsto> node e)"
proof -
  let ?f = "\<lambda>e. (ename e, node e)"
  obtain ys zs where s: "vroot v = ys @ vroot v ! i # zs" "length ys = i" "ys = take i (vroot v)" "zs = drop (Suc i) (vroot v)"
    using list_split [OF i] by blast
  have upd: "(vroot v)[i := e] = ys @ e # zs" using s(1,2) by (metis list_update_length)
  have d: "distinct (map ename (ys @ vroot v ! i # zs))" using vfs_okD(2) [OF ok] s(1) by (simp add: entries_ok_def)
  have new: "ename e \<notin> ename ` set ys" "ename e = ename (vroot v ! i) \<or> ename e \<notin> ename ` set zs"
    "ename e \<notin> ename ` set zs"
  proof -
    have all: "ename ` set (vroot v) = ename ` set ys \<union> {ename (vroot v ! i)} \<union> ename ` set zs"
      using arg_cong [OF s(1), of "\<lambda>xs. ename ` set xs"] by auto
    have none: "files v (ename e) = None \<longleftrightarrow> ename e \<notin> ename ` set (vroot v)"
      by (auto simp: files_def map_of_eq_None_iff image_image)
    from n none all d show "ename e \<notin> ename ` set ys" "ename e = ename (vroot v ! i) \<or> ename e \<notin> ename ` set zs"
      "ename e \<notin> ename ` set zs" by auto
  qed
  have "entries_ok (ys @ e # zs)"
  proof -
    have "\<forall>x \<in> set (ys @ vroot v ! i # zs). entry_ok x" using vfs_okD(2) [OF ok] s(1) by (simp add: entries_ok_def)
    then show ?thesis using e d new by (auto simp: entries_ok_def)
  qed
  moreover have "own (ys @ e # zs) + R = ptrs e + (rest_own i v + R)" using s(3,4) by (simp add: rest_own_def ac_simps)
  then have "owned heap_live h (own (ys @ e # zs) + R)" using h by (simp only:)
  ultimately show "vfs_ok R (set_entry i e (v\<lparr>vheap := h\<rparr>))"
    unfolding vfs_ok_def set_entry_def using upd by simp
  have "distinct (map fst (map ?f ys @ (ename (vroot v ! i), node (vroot v ! i)) # map ?f zs))" using d by (simp add: comp_def)
  from map_of_split(1) [OF this, of "ename e" "node e"] new
  have "map_of (map ?f (ys @ e # zs)) = (map_of (map ?f (ys @ vroot v ! i # zs)))(ename (vroot v ! i) := None, ename e \<mapsto> node e)"
    by (auto simp: image_image)
  moreover have "files v = map_of (map ?f (ys @ vroot v ! i # zs))"
    using arg_cong [OF s(1), of "\<lambda>xs. map_of (map ?f xs)"] by (simp only: files_def)
  moreover have "files (set_entry i e (v\<lparr>vheap := h\<rparr>)) = map_of (map ?f (ys @ e # zs))"
    unfolding files_def set_entry_def using upd by simp
  ultimately show "files (set_entry i e (v\<lparr>vheap := h\<rparr>)) = (files v)(ename (vroot v ! i) := None, ename e \<mapsto> node e)"
    by (simp only:)
qed

lemma ok_unlink:
  assumes ok: "vfs_ok R v" and i: "i < length (vroot v)" and h: "owned heap_live h (rest_own i v + R)"
  shows "vfs_ok R ((unlink i v)\<lparr>vheap := h\<rparr>)" and "files ((unlink i v)\<lparr>vheap := h\<rparr>) = (files v)(ename (vroot v ! i) := None)"
proof -
  let ?f = "\<lambda>e. (ename e, node e)"
  obtain ys zs where s: "vroot v = ys @ vroot v ! i # zs" "ys = take i (vroot v)" "zs = drop (Suc i) (vroot v)"
    using list_split [OF i] by blast
  have d: "distinct (map ename (ys @ vroot v ! i # zs))" "\<forall>x \<in> set (ys @ vroot v ! i # zs). entry_ok x"
    using vfs_okD(2) [OF ok] s(1) by (simp_all add: entries_ok_def)
  then have "entries_ok (ys @ zs)" by (auto simp: entries_ok_def)
  then show "vfs_ok R ((unlink i v)\<lparr>vheap := h\<rparr>)"
    using h unfolding s(2,3) by (simp add: vfs_ok_def unlink_def rest_own_def)
  have "distinct (map fst (map ?f ys @ (ename (vroot v ! i), node (vroot v ! i)) # map ?f zs))" using d by (simp add: comp_def)
  from map_of_split(2) [OF this]
  have "map_of (map ?f (ys @ zs)) = (map_of (map ?f (ys @ vroot v ! i # zs)))(ename (vroot v ! i) := None)" by simp
  moreover have "files v = map_of (map ?f (ys @ vroot v ! i # zs))"
    using arg_cong [OF s(1), of "\<lambda>xs. map_of (map ?f xs)"] by (simp only: files_def)
  moreover have "files ((unlink i v)\<lparr>vheap := h\<rparr>) = map_of (map ?f (ys @ zs))" using s(2,3) by (simp add: files_def unlink_def)
  ultimately show "files ((unlink i v)\<lparr>vheap := h\<rparr>) = (files v)(ename (vroot v ! i) := None)" by (simp only:)
qed

section \<open>Allocating and freeing entries\<close>

lemma free_entry_ok:
  assumes "owned heap_live h (ptrs e + M)" and "name_ptr e \<noteq> 0"
  shows "\<exists>h'. free_entry e h = Some h' \<and> owned heap_live h' M"
proof -
  obtain h1 where h1: "(if data_ptr e \<noteq> 0 then free (data_ptr e) h else Some h) = Some h1"
    "owned heap_live h1 (add_mset (name_ptr e) (add_mset (entry_ptr e) M))"
  proof (cases "data_ptr e = 0")
    case True
    then show ?thesis using that [of h] assms(1) by (simp add: ptrs_def add_mset_commute)
  next
    case False
    then have "owned heap_live h (add_mset (data_ptr e) (add_mset (name_ptr e) (add_mset (entry_ptr e) M)))"
      using assms(1) by (simp add: ptrs_def add_mset_commute)
    from fheap.owned_del [OF this] show ?thesis using that False by auto
  qed
  obtain h2 where h2: "free (name_ptr e) h1 = Some h2" "owned heap_live h2 (add_mset (entry_ptr e) M)"
    using fheap.owned_del [OF h1(2)] by blast
  obtain h3 where "free (entry_ptr e) h2 = Some h3" "owned heap_live h3 M" using fheap.owned_del [OF h2(2)] by blast
  then show ?thesis using h1(1) h2(1) assms(2) by (simp add: free_entry_def)
qed

lemma unlink_free_ok:
  assumes ok: "vfs_ok R v" and i: "i < length (vroot v)"
  shows "\<exists>h. unlink_free i v = Some ((unlink i v)\<lparr>vheap := h\<rparr>) \<and> vfs_ok R ((unlink i v)\<lparr>vheap := h\<rparr>) \<and>
    files ((unlink i v)\<lparr>vheap := h\<rparr>) = (files v)(ename (vroot v ! i) := None)"
proof -
  have "owned heap_live (vheap v) (ptrs (vroot v ! i) + (rest_own i v + R))"
    using vfs_okD(1) [OF ok] own_split [OF i] by (simp add: ac_simps)
  moreover have "name_ptr (vroot v ! i) \<noteq> 0" using vfs_okD(2) [OF ok] i by (simp add: entries_ok_def entry_ok_def)
  ultimately obtain h where h: "free_entry (vroot v ! i) (vheap v) = Some h" "owned heap_live h (rest_own i v + R)"
    using free_entry_ok by blast
  then show ?thesis using ok_unlink [OF ok i h(2)] by (intro exI [of _ h]) (simp add: unlink_free_def)
qed

lemma alloc_blocks_cases:
  assumes "owned heap_live h M"
  obtains (fail) h' where "alloc_blocks n h = Some (h', None)" "owned heap_live h' M"
  | (made) h' np ep where "alloc_blocks n h = Some (h', Some (np, ep))" "np \<noteq> 0" "owned heap_live h' (add_mset ep (add_mset np M))"
proof -
  obtain h1 np where h1: "alloc (of_nat (length n + 1)) 8 h = Some (h1, np)"
    "np = 0 \<and> owned heap_live h1 M \<or> np \<noteq> 0 \<and> owned heap_live h1 (add_mset np M)"
    using fheap.owned_new [OF assms] by blast
  show thesis
  proof (cases "np = 0")
    case True
    then show thesis using h1 by (intro fail [of h1]) (simp_all add: alloc_blocks_def)
  next
    case np: False
    then have own1: "owned heap_live h1 (add_mset np M)" using h1(2) by simp
    obtain h2 ep where h2: "alloc sizeof_vfs_entry 8 h1 = Some (h2, ep)"
      "ep = 0 \<and> owned heap_live h2 (add_mset np M) \<or> ep \<noteq> 0 \<and> owned heap_live h2 (add_mset ep (add_mset np M))"
      using fheap.owned_new [OF own1] by blast
    show thesis
    proof (cases "ep = 0")
      case True
      then obtain h3 where "free np h2 = Some h3" "owned heap_live h3 M" using fheap.owned_del h2(2) by blast
      then show thesis using h1(1) h2(1) np True by (intro fail [of h3]) (simp_all add: alloc_blocks_def)
    next
      case False
      then show thesis using h1(1) h2 np by (intro made [of h2 np ep]) (simp_all add: alloc_blocks_def)
    qed
  qed
qed

lemma allocate_entry_cases:
  assumes ok: "vfs_ok R v"
  obtains (fail) h where "allocate_entry p t v = Some (v\<lparr>vheap := h\<rparr>, None)" "vfs_ok R (v\<lparr>vheap := h\<rparr>)"
  | (made) n h np ep where "normalize_path p VFS_MAX_PATH = Some n" "files v n = None" "n = [slash] \<or> parent_exists v (Some n)"
      "allocate_entry p t v = Some (v\<lparr>vheap := h, vroot := vroot v @ [new_entry ep np n t]\<rparr>, Some (length (vroot v)))"
      "vfs_ok R (v\<lparr>vheap := h, vroot := vroot v @ [new_entry ep np n t]\<rparr>)"
      "files (v\<lparr>vheap := h, vroot := vroot v @ [new_entry ep np n t]\<rparr>) = (files v)(n \<mapsto> (t, [], None))"
proof (cases "normalize_path p VFS_MAX_PATH")
  case None
  then show thesis using fail [of "vheap v"] ok by (simp add: allocate_entry_def)
next
  case (Some n)
  have n: "normal n" using normalize_normal [OF Some] .
  show thesis
  proof (cases "find_entry v (Some n) \<noteq> None \<or> n \<noteq> [slash] \<and> \<not> parent_exists v (Some n)")
    case True
    then show thesis using fail [of "vheap v"] ok Some by (auto simp: allocate_entry_def string_equal_def)
  next
    case False
    have none: "files v n = None"
      using False find_entry_None_iff(1) [OF vfs_okD(2) [OF ok], of "Some n" n] n by (simp add: normal_def)
    from vfs_okD(1) [OF ok] show thesis
    proof (cases rule: alloc_blocks_cases [of "vheap v" _ n])
      case (fail h)
      then show thesis using False Some ok_heap [OF ok] by (intro that(1) [of h]) (auto simp: allocate_entry_def string_equal_def)
    next
      case (made h np ep)
      let ?e = "new_entry ep np n t"
      have e: "entry_ok ?e" "ename ?e = n" "node ?e = (t, [], None)"
        using made(2) n by (simp_all add: entry_ok_def new_entry_def node_def)
      have "owned heap_live h (ptrs ?e + (own (vroot v) + R))" using made(3) by (simp add: ptrs_def new_entry_def)
      from ok_append [OF ok e(1) _ this] show thesis
        using that(2) [where n = n and h = h and ep = ep and np = np] Some none False made(1) e by (auto simp: allocate_entry_def string_equal_def)
    qed
  qed
qed

end
