(* ===== verification/Vfs_Ops.thy ===== *)
theory Vfs_Ops
  imports Vfs_Safe
begin

text \<open>
  What the operations of the file system do to its abstract state \<open>files\<close>, and that they keep the invariant:
  writing, reading, removing and renaming files, and the listing of directories.
\<close>

section \<open>Creating and writing files\<close>

definition readable :: "u8 list option \<Rightarrow> u32 \<Rightarrow> bool" where
  "readable data sz \<longleftrightarrow> (case data of None \<Rightarrow> True | Some d \<Rightarrow> unat sz \<le> length d)"

definition bytes :: "u8 list option \<Rightarrow> u32 \<Rightarrow> u8 list" where
  "bytes data sz = (case data of None \<Rightarrow> [] | Some d \<Rightarrow> take (unat sz) d)"

lemma buffer_bytes:
  assumes "readable data sz" and "data \<noteq> None"
  shows "buffer data sz = Some (bytes data sz)" and "length (bytes data sz) = unat sz"
  using assms by (auto simp: buffer_def bytes_def readable_def)

lemma u32_pos: "0 < unat (sz :: u32)" if "0 < sz"
  using that by (simp add: word_less_nat_alt)

lemma set_data_ok:
  assumes ok: "vfs_ok R v" and i: "i < length (vroot v)" and t: "etype (vroot v ! i) = NODE_FILE"
    and d: "length d = unat sz" "p = 0 \<longleftrightarrow> d = []"
    and h: "owned heap_live h (ptrs ((vroot v ! i)\<lparr>data_ptr := p, edata := d, esize := sz\<rparr>) + (rest_own i v + R))"
  shows "vfs_ok R (set_entry i ((vroot v ! i)\<lparr>data_ptr := p, edata := d, esize := sz\<rparr>) (v\<lparr>vheap := h\<rparr>))"
    and "files (set_entry i ((vroot v ! i)\<lparr>data_ptr := p, edata := d, esize := sz\<rparr>) (v\<lparr>vheap := h\<rparr>)) =
      (files v)(ename (vroot v ! i) \<mapsto> (NODE_FILE, d, None))"
proof -
  let ?e = "(vroot v ! i)\<lparr>data_ptr := p, edata := d, esize := sz\<rparr>"
  have old: "entry_ok (vroot v ! i)" using vfs_okD(2) [OF ok] i by (simp add: entries_ok_def)
  have e: "entry_ok ?e" "ename ?e = ename (vroot v ! i)" "node ?e = (NODE_FILE, d, None)"
    using old t d by (auto simp: entry_ok_def node_def)
  then show "vfs_ok R (set_entry i ?e (v\<lparr>vheap := h\<rparr>))" using ok_set(1) [OF ok i e(1) h] by simp
  show "files (set_entry i ?e (v\<lparr>vheap := h\<rparr>)) = (files v)(ename (vroot v ! i) \<mapsto> (NODE_FILE, d, None))"
    using ok_set(2) [OF ok i e(1) h] e by simp
qed

lemma replace_data:
  assumes "owned heap_live h ((if p = 0 then {#} else {#p#}) + (ptrs e + M))"
  shows "\<exists>h'. (if data_ptr e \<noteq> 0 then free (data_ptr e) h else Some h) = Some h' \<and>
    owned heap_live h' (ptrs (e\<lparr>data_ptr := p, edata := d, esize := sz\<rparr>) + M)"
proof (cases "data_ptr e = 0")
  case True
  then show ?thesis using assms by (auto simp: ptrs_def add_mset_commute)
next
  case False
  then have "owned heap_live h (add_mset (data_ptr e) (ptrs (e\<lparr>data_ptr := p, edata := d, esize := sz\<rparr>) + M))"
    using assms by (auto simp: ptrs_def add_mset_commute split: if_splits)
  then show ?thesis using fheap.owned_del False by auto
qed

text \<open>Giving data to an empty file that was just linked at the end of the list.\<close>

lemma fill_entry_cases:
  assumes ok: "vfs_ok R v" and v: "vroot v = es @ [e]" "etype e = NODE_FILE" "edata e = []" and d: "readable data sz" "sz = 0 \<or> data \<noteq> None"
  obtains (fail) h where "fill_entry (length es) data sz v = Some (v\<lparr>vroot := es, vheap := h\<rparr>, False)" "vfs_ok R (v\<lparr>vroot := es, vheap := h\<rparr>)"
  | (made) v' where "fill_entry (length es) data sz v = Some (v', True)" "vfs_ok R v'" "counters v' = counters v"
      "files v' = (files v)(ename e \<mapsto> (NODE_FILE, bytes data sz, None))"
proof -
  let ?i = "length es"
  have i: "?i < length (vroot v)" "vroot v ! ?i = e" using v(1) by simp_all
  have e: "entry_ok e" using vfs_okD(2) [OF ok] v(1) by (simp add: entries_ok_def)
  then have ptr: "data_ptr e = 0" "esize e = 0" using v(3) by (auto simp: entry_ok_def unat_eq_0)
  show thesis
  proof (cases "0 < sz")
    case False
    then have sz: "sz = 0" by (simp add: word_less_nat_alt unat_eq_0)
    have "e\<lparr>esize := 0\<rparr> = e" using ptr by simp
    then have "fill_entry ?i data sz v = Some (v, True)" using sz i v(1) by (simp add: fill_entry_def set_entry_def)
    moreover have "bytes data sz = []" using sz by (simp add: bytes_def split: option.split)
    moreover have "files v (ename e) = Some (NODE_FILE, [], None)"
      using files_nth [OF vfs_okD(2) [OF ok] i(1)] i(2) v(2,3) e by (auto simp: node_def entry_ok_def)
    ultimately show thesis using ok by (intro made [of v]) (auto simp: fun_eq_iff)
  next
    case True
    then have dn: "data \<noteq> None" using d(2) by auto
    note b = buffer_bytes [OF d(1) dn]
    obtain h p where al: "alloc (ucast sz) 8 (vheap v) = Some (h, p)"
      "p = 0 \<and> owned heap_live h (own (vroot v) + R) \<or> p \<noteq> 0 \<and> owned heap_live h (add_mset p (own (vroot v) + R))"
      using fheap.owned_new [OF vfs_okD(1) [OF ok], of "ucast sz"] by blast
    show thesis
    proof (cases "p = 0")
      case p: True
      then have "vfs_ok R (v\<lparr>vheap := h\<rparr>)" using al(2) ok_heap [OF ok] by simp
      from unlink_free_ok [OF this, of ?i] i obtain h2 where
        "unlink_free ?i (v\<lparr>vheap := h\<rparr>) = Some ((unlink ?i (v\<lparr>vheap := h\<rparr>))\<lparr>vheap := h2\<rparr>)"
        "vfs_ok R ((unlink ?i (v\<lparr>vheap := h\<rparr>))\<lparr>vheap := h2\<rparr>)" by auto
      then show thesis using True al(1) p v(1) by (intro fail [of h2]) (simp_all add: fill_entry_def unlink_def)
    next
      case p: False
      let ?e = "e\<lparr>data_ptr := p, edata := bytes data sz, esize := sz\<rparr>"
      have "owned heap_live h (ptrs ?e + (rest_own ?i v + R))"
        using al(2) p v(1) ptr by (simp add: rest_own_def ptrs_def ac_simps add_mset_commute)
      moreover have "bytes data sz \<noteq> []" using b(2) u32_pos [OF True] by auto
      ultimately show thesis
        using set_data_ok [OF ok i(1), of "bytes data sz" sz p h] i(2) v(2) b p True al(1)
        by (intro made [of "set_entry ?i ?e (v\<lparr>vheap := h\<rparr>)"]) (simp_all add: fill_entry_def set_entry_def)
    qed
  qed
qed

lemma create_file_cases:
  assumes ok: "vfs_ok R v" and d: "readable data sz"
  obtains (fail) v' where "create_file name data sz v = Some (v', False)" "vfs_ok R v'" "vroot v' = vroot v" "counters v' = counters v"
  | (made) v' n where "create_file name data sz v = Some (v', True)" "vfs_ok R v'" "counters v' = counters v"
      "normalize_path name VFS_MAX_PATH = Some n" "files v n = None" "files v' = (files v)(n \<mapsto> (NODE_FILE, bytes data sz, None))"
      "sz = 0 \<or> data \<noteq> None"
proof (cases "name = None \<or> 0 < sz \<and> data = None \<or> find_entry v name \<noteq> None")
  case True
  then show thesis using fail [of v] ok by (simp add: create_file_def)
next
  case new: False
  then have dn: "sz = 0 \<or> data \<noteq> None" by (auto simp: word_less_nat_alt unat_eq_0)
  from ok show thesis
  proof (cases rule: allocate_entry_cases [of R v name NODE_FILE])
    case (fail h)
    then have "create_file name data sz v = Some (v\<lparr>vheap := h\<rparr>, False)" using new by (auto simp: create_file_def)
    then show thesis using fail(2) by (rule that(1)) simp_all
  next
    case (made n h np ep)
    let ?e = "new_entry ep np n NODE_FILE"
    let ?v = "v\<lparr>vheap := h, vroot := vroot v @ [?e]\<rparr>"
    have e: "vroot ?v = vroot v @ [?e]" "etype ?e = NODE_FILE" "edata ?e = []" "ename ?e = n" by (simp_all add: new_entry_def)
    have eq: "create_file name data sz v = fill_entry (length (vroot v)) data sz ?v" using new made(4) by (auto simp: create_file_def)
    from made(5) e(1-3) d dn show thesis
    proof (cases rule: fill_entry_cases [of R ?v "vroot v" ?e data sz])
      case (fail h')
      then show thesis using eq by (intro that(1) [of "v\<lparr>vheap := h'\<rparr>"]) simp_all
    next
      case made': (made v')
      then show thesis using eq made(1,2,6) e(4) dn by (intro that(2) [of v' n]) simp_all
    qed
  qed
qed

lemma overwrite_entry_cases:
  assumes ok: "vfs_ok R v" and i: "i < length (vroot v)" and ty: "etype (vroot v ! i) = NODE_FILE"
    and d: "readable data sz" "sz = 0 \<or> data \<noteq> None"
  obtains (fail) h where "overwrite_entry i data sz v = Some (v\<lparr>vheap := h\<rparr>, False)" "vfs_ok R (v\<lparr>vheap := h\<rparr>)"
  | (made) v' where "overwrite_entry i data sz v = Some (v', True)" "vfs_ok R v'" "counters v' = counters v"
      "files v' = (files v)(ename (vroot v ! i) \<mapsto> (NODE_FILE, bytes data sz, None))"
proof -
  let ?e = "vroot v ! i" and ?d = "bytes data sz"
  have own: "owned heap_live (vheap v) (ptrs ?e + (rest_own i v + R))"
    using vfs_okD(1) [OF ok] own_split [OF i] by (simp add: ac_simps)
  obtain h p where al: "(if 0 < sz then alloc (ucast sz) 8 (vheap v) else Some (vheap v, 0)) = Some (h, p)"
    "owned heap_live h ((if p = 0 then {#} else {#p#}) + (ptrs ?e + (rest_own i v + R)))" "0 < sz \<or> p = 0"
    using fheap.owned_new [OF own, of "ucast sz"] own by (cases "0 < sz") auto
  show thesis
  proof (cases "0 < sz \<and> p = 0")
    case True
    moreover have "vfs_ok R (v\<lparr>vheap := h\<rparr>)" using ok_heap [OF ok] al(2) True own_split [OF i] by (simp add: ac_simps)
    ultimately show thesis using al(1) by (intro fail) (simp_all add: overwrite_entry_def)
  next
    case False
    have b: "(if 0 < sz then buffer data sz else Some []) = Some ?d" "length ?d = unat sz" "p = 0 \<longleftrightarrow> ?d = []"
      using buffer_bytes [OF d(1)] d(2) False al(3) u32_pos [of sz]
      by (auto simp: bytes_def word_less_nat_alt unat_eq_0 split: option.splits)
    obtain h' where h': "(if data_ptr ?e \<noteq> 0 then free (data_ptr ?e) h else Some h) = Some h'"
      "owned heap_live h' (ptrs (?e\<lparr>data_ptr := p, edata := ?d, esize := sz\<rparr>) + (rest_own i v + R))"
      using replace_data [OF al(2)] by blast
    have "overwrite_entry i data sz v = Some (set_entry i (?e\<lparr>data_ptr := p, edata := ?d, esize := sz\<rparr>) (v\<lparr>vheap := h'\<rparr>), True)"
      unfolding overwrite_entry_def al(1) bind.bind_lunit prod.case if_not_P [OF False] b(1) h'(1) by (rule refl)
    from this set_data_ok(1) [OF ok i ty b(2,3) h'(2)] _ set_data_ok(2) [OF ok i ty b(2,3) h'(2)]
    show thesis by (rule made) (simp add: set_entry_def)
  qed
qed

lemma write_file_cases:
  assumes ok: "vfs_ok R v" and d: "readable data sz"
  obtains (fail) v' where "write_file name data sz v = Some (v', False)" "vfs_ok R v'" "vroot v' = vroot v" "counters v' = counters v"
  | (made) v' n where "write_file name data sz v = Some (v', True)" "vfs_ok R v'" "counters v' = counters v"
      "normalize_path name VFS_MAX_PATH = Some n" "files v n = None \<or> (\<exists>old. files v n = Some (NODE_FILE, old, None))"
      "files v' = (files v)(n \<mapsto> (NODE_FILE, bytes data sz, None))" "sz = 0 \<or> data \<noteq> None"
proof (cases "name = None \<or> 0 < sz \<and> data = None")
  case True
  then show thesis using fail [of v] ok by (simp add: write_file_def)
next
  case given: False
  then have dn: "sz = 0 \<or> data \<noteq> None" by (auto simp: word_less_nat_alt unat_eq_0)
  show thesis
  proof (cases "find_entry v name")
    case None
    then have eq: "write_file name data sz v = create_file name data sz v" using given by (auto simp: write_file_def)
    from ok d show thesis
      by (cases rule: create_file_cases [of R v data sz name]) (use eq that in auto)
  next
    case (Some i)
    note f = find_entry_SomeD [OF vfs_okD(2) [OF ok] Some]
    show thesis
    proof (cases "etype (vroot v ! i) = NODE_FILE")
      case False
      then have "write_file name data sz v = Some (v, False)" using given Some by (auto simp: write_file_def)
      then show thesis using ok by (intro that(1)) simp_all
    next
      case True
      have old: "files v (ename (vroot v ! i)) = Some (NODE_FILE, edata (vroot v ! i), None)"
        using f(3,4) True by (auto simp: node_def entry_ok_def)
      have eq: "write_file name data sz v = overwrite_entry i data sz v" using given Some True by (auto simp: write_file_def)
      from ok f(1) True d dn show thesis
      proof (cases rule: overwrite_entry_cases [of R v i data sz])
        case (fail h)
        then show thesis using eq by (intro that(1) [of "v\<lparr>vheap := h\<rparr>"]) simp_all
      next
        case (made v')
        then show thesis using eq f(2) old dn by (intro that(2) [of v' "ename (vroot v ! i)"]) simp_all
      qed
    qed
  qed
qed

section \<open>Writing in the middle of a file\<close>

definition pwrite :: "u8 list \<Rightarrow> nat \<Rightarrow> u8 list \<Rightarrow> u8 list" where
  "pwrite old k d = take k (old @ replicate (k - length old) 0) @ d @ drop (k + length d) old"

lemma length_pwrite: "length (pwrite old k d) = max (k + length d) (length old)"
  by (auto simp: pwrite_def)

lemma patched_eq:
  assumes "n = max (unat base + length d) (length old)"
  shows "patched old base d n = Some (pwrite old (unat base) d)"
proof -
  let ?k = "unat base" and ?buf = "old @ replicate (n - length old) (0 :: u8)"
  have "take ?k ?buf = take ?k (old @ replicate (?k - length old) 0)" using assms by (auto simp: min_def)
  moreover have "drop (?k + length d) ?buf = drop (?k + length d) old" using assms by (auto simp: max_def)
  ultimately show ?thesis using assms by (simp add: patched_def pwrite_def Let_def)
qed

lemma free_buffer:
  assumes "vfs_ok (add_mset buf R) w"
  shows "\<exists>h'. free buf (vheap w) = Some h' \<and> vfs_ok R (w\<lparr>vheap := h'\<rparr>)"
proof -
  have "owned heap_live (vheap w) (add_mset buf (own (vroot w) + R))" using vfs_okD(1) [OF assms] by simp
  from fheap.owned_del [OF this] show ?thesis using vfs_okD(2) [OF assms] by (auto simp: vfs_ok_def)
qed

lemma splice_write_cases:
  assumes ok: "vfs_ok R v" and f: "find_entry v name = Some i" and ty: "etype (vroot v ! i) = NODE_FILE"
    and d: "readable data sz" "sz = 0 \<or> data \<noteq> None"
    and n: "unat new_size = max (unat base + unat sz) (length (edata (vroot v ! i)))"
  obtains (fail) v' where "splice_write name (vroot v ! i) base data sz new_size v = Some (v', False)" "vfs_ok R v'"
      "vroot v' = vroot v" "counters v' = counters v"
  | (made) v' where "splice_write name (vroot v ! i) base data sz new_size v = Some (v', True)" "vfs_ok R v'" "counters v' = counters v"
      "files v' = (files v)(ename (vroot v ! i) \<mapsto> (NODE_FILE, pwrite (edata (vroot v ! i)) (unat base) (bytes data sz), None))"
proof -
  note fe = find_entry_SomeD [OF vfs_okD(2) [OF ok] f]
  let ?e = "vroot v ! i" and ?d = "bytes data sz"
  let ?new = "pwrite (edata ?e) (unat base) ?d"
  have len: "length ?d = unat sz" using buffer_bytes(2) [OF d(1)] d(2) by (auto simp: bytes_def split: option.split)
  have new: "length ?new = unat new_size" using n len by (simp add: length_pwrite)
  have rd: "readable (Some ?new) new_size" "bytes (Some ?new) new_size = ?new" using new by (simp_all add: readable_def bytes_def)
  show thesis
  proof (cases "new_size = 0")
    case True
    then have eq: "splice_write name ?e base data sz new_size v = write_file name None new_size v" by (simp add: splice_write_def)
    have e: "bytes None new_size = ?new" using True new by (simp add: bytes_def)
    have "readable None new_size" by (simp add: readable_def)
    from ok this show thesis
      by (cases rule: write_file_cases [of R v None new_size name]) (use eq e fe(2) that in auto)
  next
    case False
    obtain h buf where al: "alloc (ucast new_size) 8 (vheap v) = Some (h, buf)"
      "buf = 0 \<and> owned heap_live h (own (vroot v) + R) \<or> buf \<noteq> 0 \<and> owned heap_live h (add_mset buf (own (vroot v) + R))"
      using fheap.owned_new [OF vfs_okD(1) [OF ok], of "ucast new_size"] by blast
    show thesis
    proof (cases "buf = 0")
      case True
      then have "splice_write name ?e base data sz new_size v = Some (v\<lparr>vheap := h\<rparr>, False)" using False al(1) by (simp add: splice_write_def)
      moreover have "vfs_ok R (v\<lparr>vheap := h\<rparr>)" using al(2) True ok_heap [OF ok] by simp
      ultimately show thesis by (rule that(1)) simp_all
    next
      case b: False
      let ?v = "v\<lparr>vheap := h\<rparr>"
      have ok': "vfs_ok (add_mset buf R) ?v" using al(2) b vfs_okD(2) [OF ok] by (simp add: vfs_ok_def)
      have "(if data_ptr ?e = 0 then [] else edata ?e) = edata ?e" using fe(4) by (auto simp: entry_ok_def)
      then have p: "patched (if data_ptr ?e = 0 then [] else edata ?e) base ?d (unat new_size) = Some ?new"
        using patched_eq [of "unat new_size" base ?d "edata ?e"] n len by simp
      have bd: "(if sz = 0 then Some [] else buffer data sz) = Some ?d"
        using buffer_bytes [OF d(1)] d(2) by (auto simp: bytes_def split: option.splits)
      have eq: "splice_write name ?e base data sz new_size v = do {
          (v, ok) \<leftarrow> write_file name (Some ?new) new_size ?v; h \<leftarrow> free buf (vheap v); Some (v\<lparr>vheap := h\<rparr>, ok) }"
        unfolding splice_write_def using False b by (simp add: al(1) bd p split del: if_split)
      from ok' rd(1) show thesis
      proof (cases rule: write_file_cases [of "add_mset buf R" ?v "Some ?new" new_size name])
        case (fail w)
        then show thesis using free_buffer [OF fail(2)] eq that(1) by auto
      next
        case (made w n)
        then have "n = ename ?e" using fe(2) by simp
        then show thesis using free_buffer [OF made(2)] eq made that(2) rd(2) by (auto simp: files_def)
      qed
    qed
  qed
qed

text \<open>The contents a file has before \<open>write_file_at\<close>, none when the call creates it.\<close>

definition old_data :: "vfs \<Rightarrow> string \<Rightarrow> u8 list" where
  "old_data v n = (case files v n of Some (t, d, i) \<Rightarrow> d | None \<Rightarrow> [])"

definition write_place :: "vfs \<Rightarrow> string \<Rightarrow> u64 \<Rightarrow> bool \<Rightarrow> nat" where
  "write_place v n off appending = (if appending then length (old_data v n) else unat off)"

lemma unat_ucast_32 [simp]: "unat (ucast (x :: u32) :: u64) = unat x"
  using unsigned_less [of x, where ?'a = nat] by (simp add: unsigned_ucast_eq take_bit_nat_eq_self)

lemma new_size_eq:
  fixes base :: u64 and sz old :: u32
  assumes "unat base + unat sz < 2 ^ 64" and "\<not> 0xffffffff < base + ucast sz"
  shows "unat (if ucast old < base + ucast sz then ucast (base + ucast sz) else old) = max (unat base + unat sz) (unat old)"
    and "base + ucast sz = of_nat (unat base + unat sz)" and "unat base + unat sz < 2 ^ 32"
proof -
  have u: "unat (base + ucast sz) = unat base + unat sz" using assms(1) by (simp add: unat_word_ariths(1))
  show "base + ucast sz = of_nat (unat base + unat sz)" using arg_cong [OF u [symmetric], of "of_nat :: nat \<Rightarrow> u64"] by simp
  have le: "unat (base + ucast sz) \<le> 0xffffffff" using assms(2) by (simp add: not_less word_le_nat_alt)
  then show "unat base + unat sz < 2 ^ 32" using u by simp
  then have "unat (ucast (base + ucast sz) :: u32) = unat base + unat sz"
    using u by (simp add: unsigned_ucast_eq take_bit_nat_eq_self)
  then show "unat (if ucast old < base + ucast sz then ucast (base + ucast sz) else old) = max (unat base + unat sz) (unat old)"
    using u by (simp add: word_less_nat_alt max_def)
qed

lemma write_entry_at_cases:
  assumes ok: "vfs_ok R v" and f: "find_entry v name = Some i" and n: "normalize_path name VFS_MAX_PATH = Some n"
    and d: "readable data sz" "sz = 0 \<or> data \<noteq> None" and off: "appending \<or> unat off + unat sz < 2 ^ 64"
  obtains (fail) v' where "write_entry_at name i off data sz appending v = Some (v', None)" "vfs_ok R v'"
      "vroot v' = vroot v" "counters v' = counters v"
  | (made) v' where "write_entry_at name i off data sz appending v = Some (v', Some (of_nat (write_place v n off appending + unat sz)))"
      "vfs_ok R v'" "counters v' = counters v" "files v n = Some (NODE_FILE, old_data v n, None)"
      "write_place v n off appending + unat sz < 2 ^ 32"
      "files v' = (files v)(n \<mapsto> (NODE_FILE, pwrite (old_data v n) (write_place v n off appending) (bytes data sz), None))"
proof -
  note fe = find_entry_SomeD [OF vfs_okD(2) [OF ok] f]
  let ?e = "vroot v ! i"
  define base where "base = (if appending then ucast (esize ?e) else off)"
  define new_size :: u32 where "new_size = (if ucast (esize ?e) < base + ucast sz then ucast (base + ucast sz) else esize ?e)"
  have eq: "write_entry_at name i off data sz appending v =
      (if etype ?e \<noteq> NODE_FILE \<or> 0xffffffff < base + ucast sz then Some (v, None)
       else do { (v, ok) \<leftarrow> splice_write name ?e base data sz new_size v; Some (v, if ok then Some (base + ucast sz) else None) })"
    by (simp only: write_entry_at_def Let_def base_def new_size_def)
  show thesis
  proof (cases "etype ?e \<noteq> NODE_FILE \<or> 0xffffffff < base + ucast sz")
    case True
    then show thesis using eq ok by (intro that(1)) simp_all
  next
    case False
    have ne: "n = ename ?e" and old: "old_data v n = edata ?e" "files v n = Some (NODE_FILE, old_data v n, None)"
      using fe n False by (auto simp: old_data_def node_def entry_ok_def)
    have place: "write_place v n off appending = unat base" using fe(4) old by (simp add: write_place_def base_def entry_ok_def)
    have "unat base + unat sz < 2 ^ 64" "\<not> 0xffffffff < base + ucast sz"
      using off False unsigned_less [of sz, where ?'a = nat] unsigned_less [of "esize ?e", where ?'a = nat] by (auto simp: base_def)
    note sz = new_size_eq(1) [OF this, of "esize ?e", folded new_size_def] new_size_eq(2,3) [OF this]
    have ty: "etype ?e = NODE_FILE" using False by simp
    have stop: "of_nat (write_place v n off appending + unat sz) = base + ucast sz" "write_place v n off appending + unat sz < 2 ^ 32"
      unfolding place using sz(2,3) by (simp_all only:)
    have "unat new_size = max (unat base + unat sz) (length (edata ?e))" using sz(1) fe(4) by (simp add: entry_ok_def)
    from ok f ty d this show thesis
    proof (cases rule: splice_write_cases [of R v name i data sz new_size base])
      case (fail v')
      then show thesis using eq False by (intro that(1) [of v']) simp_all
    next
      case (made v')
      then have "write_entry_at name i off data sz appending v = Some (v', Some (base + ucast sz))" using eq False by simp
      then show thesis using made(2-4) stop place old ne by (intro that(2) [of v']) (simp_all only:)
    qed
  qed
qed

lemma write_file_at_cases:
  assumes ok: "vfs_ok R v" and d: "readable data sz" and off: "appending \<or> unat off + unat sz < 2 ^ 64"
  obtains (fail) v' where "write_file_at name off data sz appending v = Some (v', None)" "vfs_ok R v'" "counters v' = counters v"
      "files v' = files v \<or> (\<exists>n. normalize_path name VFS_MAX_PATH = Some n \<and> files v n = None \<and> files v' = (files v)(n \<mapsto> (NODE_FILE, [], None)))"
  | (made) v' n where "write_file_at name off data sz appending v = Some (v', Some (of_nat (write_place v n off appending + unat sz)))"
      "vfs_ok R v'" "counters v' = counters v" "normalize_path name VFS_MAX_PATH = Some n"
      "files v n = None \<or> files v n = Some (NODE_FILE, old_data v n, None)" "write_place v n off appending + unat sz < 2 ^ 32"
      "files v' = (files v)(n \<mapsto> (NODE_FILE, pwrite (old_data v n) (write_place v n off appending) (bytes data sz), None))"
proof (cases "name = None \<or> sz \<noteq> 0 \<and> data = None")
  case True
  then show thesis using that(1) [of v] ok by (simp add: write_file_at_def)
next
  case given: False
  then have dn: "sz = 0 \<or> data \<noteq> None" by auto
  show thesis
  proof (cases "find_entry v name")
    case (Some i)
    then have eq: "write_file_at name off data sz appending v = write_entry_at name i off data sz appending v"
      using given by (auto simp: write_file_at_def)
    obtain n where n: "normalize_path name VFS_MAX_PATH = Some n" using find_entry_SomeD(2) [OF vfs_okD(2) [OF ok] Some] by blast
    from ok Some n d dn off show thesis
      by (cases rule: write_entry_at_cases [of R v name i n data sz appending off])
        (use eq n that in \<open>auto simp: files_def\<close>)
  next
    case None
    have "readable None 0" by (simp add: readable_def)
    from ok this show thesis
    proof (cases rule: create_file_cases [of R v None 0 name])
      case (fail v')
      then have "write_file_at name off data sz appending v = Some (v', None)" using given None by (auto simp: write_file_at_def)
      then show thesis using fail by (intro that(1) [of v']) (simp_all add: files_def)
    next
      case (made w n)
      have fw: "files w = (files v)(n \<mapsto> (NODE_FILE, [], None))" using made(6) by (simp add: bytes_def)
      then obtain i where i: "find_entry w name = Some i"
        using find_entry_None_iff(1) [OF vfs_okD(2) [OF made(2)] made(4)] by auto
      have eq: "write_file_at name off data sz appending v = write_entry_at name i off data sz appending w"
        using given None made(1) i by (auto simp: write_file_at_def)
      have same: "old_data w n = old_data v n" "write_place w n off appending = write_place v n off appending"
        using fw made(5) by (simp_all add: old_data_def write_place_def)
      from made(2) i made(4) d dn off show thesis
      proof (cases rule: write_entry_at_cases [of R w name i n data sz appending off])
        case (fail v')
        then show thesis using eq made fw by (intro that(1) [of v']) (auto simp: files_def)
      next
        case m2: (made v')
        then show thesis using eq made fw same by (intro that(2) [of v' n]) auto
      qed
    qed
  qed
qed

end
