(* ===== verification/Vfs_Nodes.thy ===== *)
theory Vfs_Nodes
  imports Vfs_Ops
begin

text \<open>
  The other operations of the file system: directories, removal, renaming, device nodes, the registration of devices with its
  search for a free name, and the initial directories.
\<close>

section \<open>Directories and device nodes\<close>

lemma create_directory_cases:
  assumes ok: "vfs_ok R v"
  obtains (fail) v' where "create_directory path v = Some (v', False)" "vfs_ok R v'" "vroot v' = vroot v" "counters v' = counters v"
  | (made) v' n where "create_directory path v = Some (v', True)" "vfs_ok R v'" "counters v' = counters v"
      "normalize_path path VFS_MAX_PATH = Some n" "files v n = None" "n = [slash] \<or> parent_exists v (Some n)"
      "files v' = (files v)(n \<mapsto> (NODE_DIRECTORY, [], None))"
proof (cases "path = None \<or> find_entry v path \<noteq> None")
  case True
  then show thesis using that(1) [of v] ok by (simp add: create_directory_def)
next
  case False
  from ok show thesis
  proof (cases rule: allocate_entry_cases [of R v path NODE_DIRECTORY])
    case (fail h)
    then show thesis using False by (intro that(1) [of "v\<lparr>vheap := h\<rparr>"]) (auto simp: create_directory_def)
  next
    case (made n h np ep)
    let ?v = "v\<lparr>vheap := h, vroot := vroot v @ [new_entry ep np n NODE_DIRECTORY]\<rparr>"
    have "create_directory path v = Some (?v, True)" using made(4) False by (auto simp: create_directory_def)
    then show thesis using made by (intro that(2) [of ?v n]) simp_all
  qed
qed

lemma create_device_node_cases:
  assumes ok: "vfs_ok R v"
  obtains (fail) v' where "create_device_node path info v = Some (v', False)" "vfs_ok R v'" "vroot v' = vroot v" "counters v' = counters v"
  | (made) v' n where "create_device_node path info v = Some (v', True)" "vfs_ok R v'" "counters v' = counters v"
      "normalize_path path VFS_MAX_PATH = Some n" "files v n = None"
      "files v' = (files v)(n \<mapsto> (NODE_DEVICE, [], Some info))"
proof (cases "path = None \<or> find_entry v path \<noteq> None")
  case True
  then show thesis using that(1) [of v] ok by (simp add: create_device_node_def)
next
  case False
  from ok show thesis
  proof (cases rule: allocate_entry_cases [of R v path NODE_DEVICE])
    case (fail h)
    then show thesis using False by (intro that(1) [of "v\<lparr>vheap := h\<rparr>"]) (auto simp: create_device_node_def)
  next
    case (made n h np ep)
    let ?e = "new_entry ep np n NODE_DEVICE"
    let ?v = "v\<lparr>vheap := h, vroot := vroot v @ [?e]\<rparr>" and ?i = "length (vroot v)"
    let ?e' = "?e\<lparr>device_info := info, has_device_info := True\<rparr>"
    have "entry_ok ?e" using vfs_okD(2) [OF made(5)] by (simp add: entries_ok_def)
    then have e: "entry_ok ?e'" "ename ?e' = n" "node ?e' = (NODE_DEVICE, [], Some info)" "ename ?e = n"
      by (auto simp: entry_ok_def new_entry_def node_def)
    have own: "owned heap_live h (ptrs ?e' + (rest_own ?i ?v + R))"
      using vfs_okD(1) [OF made(5)] by (simp add: rest_own_def ptrs_def new_entry_def ac_simps)
    have "vfs_ok R (set_entry ?i ?e' (?v\<lparr>vheap := h\<rparr>))"
      "files (set_entry ?i ?e' (?v\<lparr>vheap := h\<rparr>)) = (files ?v)(n := None, n \<mapsto> node ?e')"
      using ok_set [OF made(5), of ?i ?e' h] e own by simp_all
    moreover have "create_device_node path info v = Some (set_entry ?i ?e' (?v\<lparr>vheap := h\<rparr>), True)"
      using made(4) False by (auto simp: create_device_node_def set_entry_def)
    ultimately show thesis using made(1,2,6) e
      by (intro that(2) [of "set_entry ?i ?e' (?v\<lparr>vheap := h\<rparr>)" n]) (simp_all add: set_entry_def)
  qed
qed

section \<open>Removing and renaming\<close>

lemma remove_node_cases:
  assumes ok: "vfs_ok R v"
  obtains (fail) "remove_node t path v = Some (v, False)" "\<nexists>n d i. normalize_path path VFS_MAX_PATH = Some n \<and> files v n = Some (t, d, i)"
  | (made) v' n d i where "remove_node t path v = Some (v', True)" "vfs_ok R v'" "counters v' = counters v"
      "normalize_path path VFS_MAX_PATH = Some n" "files v n = Some (t, d, i)" "files v' = (files v)(n := None)"
proof (cases "find_entry v path")
  case None
  then have "files v n = None" if "normalize_path path VFS_MAX_PATH = Some n" for n
    using find_entry_None_iff(1) [OF vfs_okD(2) [OF ok] that] by simp
  then show thesis using None by (intro fail) (auto simp: remove_node_def)
next
  case (Some i)
  note f = find_entry_SomeD [OF vfs_okD(2) [OF ok] Some]
  show thesis
  proof (cases "etype (vroot v ! i) = t")
    case False
    then show thesis using Some f by (intro fail) (auto simp: remove_node_def node_def)
  next
    case True
    obtain h where h: "unlink_free i v = Some ((unlink i v)\<lparr>vheap := h\<rparr>)" "vfs_ok R ((unlink i v)\<lparr>vheap := h\<rparr>)"
      "files ((unlink i v)\<lparr>vheap := h\<rparr>) = (files v)(ename (vroot v ! i) := None)"
      using unlink_free_ok [OF ok f(1)] by blast
    let ?v = "(unlink i v)\<lparr>vheap := h\<rparr>"
    have "remove_node t path v = Some (?v, True)" using Some True h(1) by (simp add: remove_node_def)
    moreover have "counters ?v = counters v" by (simp add: unlink_def)
    moreover obtain d x where "files v (ename (vroot v ! i)) = Some (t, d, x)" using f(3) True by (auto simp: node_def)
    ultimately show thesis using h(2,3) f(2) that(2) by blast
  qed
qed

text \<open>
  Renaming is safe when the new name is no longer than the name the entry was created with.
\<close>

definition rename_fits :: "vfs \<Rightarrow> string option \<Rightarrow> string option \<Rightarrow> bool" where
  "rename_fits v old_path new_path \<longleftrightarrow>
     (\<forall>i n. find_entry v old_path = Some i \<and> normalize_path new_path VFS_MAX_PATH = Some n \<and> find_entry v new_path = None \<longrightarrow>
        length n < name_cap (vroot v ! i))"

lemma find_entry_normalized:
  assumes "normalize_path p VFS_MAX_PATH = Some n"
  shows "find_entry v (Some n) = find_entry v p"
  using normalize_normal [OF assms] assms by (simp add: find_entry_def normal_def)

lemma rename_cases:
  assumes ok: "vfs_ok R v" and fits: "rename_fits v old_path new_path"
  obtains (fail) "rename_path old_path new_path v = Some (v, False)"
  | (made) v' n m x where "rename_path old_path new_path v = Some (v', True)" "vfs_ok R v'" "counters v' = counters v"
      "normalize_path old_path VFS_MAX_PATH = Some n" "normalize_path new_path VFS_MAX_PATH = Some m"
      "files v n = Some x" "files v m = None" "files v' = (files v)(n := None, m \<mapsto> x)"
proof -
  consider "normalize_path old_path VFS_MAX_PATH = None \<or> normalize_path new_path VFS_MAX_PATH = None"
    | n m where "normalize_path old_path VFS_MAX_PATH = Some n" "normalize_path new_path VFS_MAX_PATH = Some m"
    by fastforce
  then show thesis
  proof cases
    case 1
    then show thesis by (intro fail) (auto simp: rename_path_def split: option.split)
  next
    case nm: 2
    have f: "find_entry v (Some n) = find_entry v old_path" "find_entry v (Some m) = find_entry v new_path"
      using find_entry_normalized nm by blast+
    have m: "normal m" "length m < VFS_MAX_PATH" using normalize_normal [OF nm(2)] by (auto elim: normalE)
    show thesis
    proof (cases "find_entry v old_path = None \<or> find_entry v new_path \<noteq> None")
      case True
      then show thesis using nm f by (intro fail) (auto simp: rename_path_def split: option.split)
    next
      case False
      then obtain i where i: "find_entry v old_path = Some i" "find_entry v new_path = None" by auto
      note fe = find_entry_SomeD [OF vfs_okD(2) [OF ok] i(1)]
      let ?e = "(vroot v ! i)\<lparr>ename := m\<rparr>"
      have cap: "length m < name_cap (vroot v ! i)" using fits i nm by (simp add: rename_fits_def)
      have none: "files v m = None" using find_entry_None_iff(1) [OF vfs_okD(2) [OF ok] nm(2)] i(2) by simp
      have e: "entry_ok ?e" "node ?e = node (vroot v ! i)" "ptrs ?e = ptrs (vroot v ! i)" using fe(4) m cap by (auto simp: entry_ok_def node_def ptrs_def)
      have "owned heap_live (vheap v) (ptrs ?e + (rest_own i v + R))"
        using vfs_okD(1) [OF ok] own_split [OF fe(1)] e(3) by (simp add: ac_simps)
      from ok_set [OF ok fe(1) e(1) this] none e(2)
      have "vfs_ok R (set_entry i ?e v)" "files (set_entry i ?e v) = (files v)(n := None, m \<mapsto> node (vroot v ! i))"
        using fe(2) nm(1) by simp_all
      moreover have "rename_path old_path new_path v = Some (set_entry i ?e v, True)"
        using nm f i cap m(2) by (simp add: rename_path_def)
      ultimately show thesis using nm none fe(2,3)
        by (intro that(2) [of "set_entry i ?e v" n m "node (vroot v ! i)"]) (auto simp: set_entry_def)
    qed
  qed
qed

section \<open>Names of devices\<close>

definition dec_value :: "string \<Rightarrow> nat" where
  "dec_value s = foldl (\<lambda>v c. v * 10 + (of_char c - 48)) 0 s"

definition decimal :: "u32 \<Rightarrow> string" where
  "decimal n = (if n = 0 then ''0'' else rev (reverse_digits 16 n))"

lemma digit_char:
  fixes v :: u32
  shows "of_char (char_of (48 + unat (v mod 10))) = 48 + unat (v mod 10)" and "char_of (48 + unat (v mod 10)) \<noteq> slash"
proof -
  have "unat (v mod 10) < 10" by (simp add: unat_mod)
  then have "(48 + unat (v mod 10)) mod 256 = 48 + unat (v mod 10)" by simp
  then show o: "of_char (char_of (48 + unat (v mod 10))) = 48 + unat (v mod 10)" by (simp only: of_char_of)
  show "char_of (48 + unat (v mod 10)) \<noteq> slash"
  proof
    assume "char_of (48 + unat (v mod 10)) = slash"
    then have "(of_char (char_of (48 + unat (v mod 10))) :: nat) = of_char slash" by (simp only:)
    then show False unfolding o by simp
  qed
qed

lemma reverse_digits_value: "unat v < 10 ^ room \<Longrightarrow> dec_value (rev (reverse_digits room v)) = unat v"
proof (induction room v rule: reverse_digits.induct)
  case (1 v)
  then show ?case by (simp add: dec_value_def)
next
  case (2 room v)
  show ?case
  proof (cases "0 < v")
    case True
    have "unat (v div 10) < 10 ^ room" using "2.prems" by (simp add: unat_div div_less_iff_less_mult mult.commute)
    then have "dec_value (rev (reverse_digits room (v div 10))) = unat (v div 10)" using "2.IH" True by simp
    then show ?thesis using True by (simp add: dec_value_def digit_char unat_div unat_mod)
  next
    case False
    then show ?thesis by (simp add: dec_value_def word_less_nat_alt)
  qed
qed

lemma reverse_digits_chars: "slash \<notin> set (reverse_digits room v)" "length (reverse_digits room v) \<le> room"
  by (induction room v rule: reverse_digits.induct) (auto simp: digit_char(2) [symmetric])

lemma decimal_facts: "dec_value (decimal n) = unat n" "component (decimal n)" "length (decimal n) \<le> 16"
proof -
  have "unat n < 10 ^ 16" using unsigned_less [of n, where ?'a = nat] by simp
  then show "dec_value (decimal n) = unat n" using reverse_digits_value [of n 16] by (simp add: decimal_def dec_value_def)
  show "length (decimal n) \<le> 16" using reverse_digits_chars(2) [of 16 n] by (simp add: decimal_def)
  have "reverse_digits 16 n \<noteq> []" if "n \<noteq> 0" using that by (simp add: numeral_eq_Suc word_neq_0_conv)
  then show "component (decimal n)" using reverse_digits_chars(1) [of 16 n] by (auto simp: decimal_def component_def)
qed

lemma decimal_inj: "decimal m = decimal n \<Longrightarrow> m = n"
  using decimal_facts(1) [of m] decimal_facts(1) [of n] by (simp add: word_unat_eq_iff)

text \<open>A directory for devices: a normalized path with room for a number.\<close>

definition device_dir :: "string list \<Rightarrow> bool" where
  "device_dir cs \<longleftrightarrow> cs \<noteq> [] \<and> list_all component cs \<and> length (render cs) \<le> 238"

lemma device_path:
  assumes "device_dir cs"
  shows "make_device_path (render cs) n VFS_MAX_PATH = Some (render (cs @ [decimal n]))" and "normal (render (cs @ [decimal n]))"
proof -
  have l: "last (render cs) \<noteq> slash" "render cs \<noteq> []" using assms last_render by (auto simp: device_dir_def render_def)
  show "make_device_path (render cs) n VFS_MAX_PATH = Some (render (cs @ [decimal n]))"
    unfolding make_device_path_def decimal_def [symmetric] Let_def
    using l assms decimal_facts(3) [of n] by (simp add: device_dir_def VFS_MAX_PATH_def) (simp add: render_def)
  have "length (render (cs @ [decimal n])) = length (render cs) + 1 + length (decimal n)" using assms by (simp add: render_def device_dir_def)
  then show "normal (render (cs @ [decimal n]))"
    using assms decimal_facts(2,3) [of n] by (intro normal_render) (simp_all add: device_dir_def VFS_MAX_PATH_def)
qed

lemma device_path_inj: "render (cs @ [decimal m]) = render (cs @ [decimal n]) \<Longrightarrow> m = n"
  using decimal_inj [of m n] by (simp add: render_def)

section \<open>The search for a free name\<close>

lemma exists_path_iff:
  assumes "entries_ok (vroot v)" and "normal n"
  shows "exists_path v (Some n) \<longleftrightarrow> n \<in> ename ` set (vroot v)"
  using find_entry_None_iff [OF assms(1), of "Some n" n] assms(2) by (auto simp: exists_path_def normal_def)

text \<open>Of more numbers than there are entries, one is free.\<close>

lemma some_number_free:
  assumes ok: "entries_ok (vroot v)" and dir: "device_dir cs" and few: "length (vroot v) < 2 ^ 32"
  shows "\<exists>j \<le> length (vroot v). \<not> exists_path v (Some (render (cs @ [decimal (c + of_nat j)])))"
proof (rule ccontr)
  assume "\<not> ?thesis"
  then have all: "render (cs @ [decimal (c + of_nat j)]) \<in> ename ` set (vroot v)" if "j \<le> length (vroot v)" for j
    using that exists_path_iff [OF ok device_path(2) [OF dir]] by blast
  let ?f = "\<lambda>j. render (cs @ [decimal (c + of_nat j)])"
  have "inj_on ?f {..length (vroot v)}"
  proof (rule inj_onI)
    fix i j
    assume ij: "i \<in> {..length (vroot v)}" "j \<in> {..length (vroot v)}" "?f i = ?f j"
    then have "c + of_nat i = c + of_nat j" using device_path_inj by blast
    then have "unat (of_nat i :: u32) = unat (of_nat j :: u32)" by simp
    then show "i = j" using ij few by (simp add: unsigned_of_nat take_bit_nat_eq_self)
  qed
  then have "card (?f ` {..length (vroot v)}) = Suc (length (vroot v))" by (simp add: card_image)
  moreover have "card (?f ` {..length (vroot v)}) \<le> card (ename ` set (vroot v))" using all by (intro card_mono) auto
  moreover have "card (ename ` set (vroot v)) \<le> length (vroot v)"
    using card_image_le [of "set (vroot v)" ename] card_length [of "vroot v"] by simp
  ultimately show False by simp
qed

lemma free_path_steps:
  assumes dir: "device_dir cs" and "\<And>j. j < k \<Longrightarrow> exists_path v (Some (render (cs @ [decimal (c + of_nat j)])))"
    and "\<not> exists_path v (Some (render (cs @ [decimal (c + of_nat k)])))"
  shows "free_path v (render cs) c (render (cs @ [decimal c])) = Some (c + of_nat k, Some (render (cs @ [decimal (c + of_nat k)])))"
  using assms(2,3)
proof (induction k arbitrary: c)
  case 0
  then show ?case by (subst free_path.simps) simp
next
  case (Suc k)
  have "exists_path v (Some (render (cs @ [decimal c])))" using Suc.prems(1) [of 0] by simp
  moreover have "free_path v (render cs) (c + 1) (render (cs @ [decimal (c + 1)])) =
      Some (c + 1 + of_nat k, Some (render (cs @ [decimal (c + 1 + of_nat k)])))"
  proof (rule Suc.IH)
    show "exists_path v (Some (render (cs @ [decimal (c + 1 + of_nat j)])))" if "j < k" for j
      using Suc.prems(1) [of "Suc j"] that by (simp add: ac_simps)
    show "\<not> exists_path v (Some (render (cs @ [decimal (c + 1 + of_nat k)])))" using Suc.prems(2) by (simp add: ac_simps)
  qed
  ultimately show ?case using device_path(1) [OF dir, of "c + 1"] by (subst free_path.simps) (simp add: ac_simps)
qed

lemma free_path_found:
  assumes ok: "entries_ok (vroot v)" and dir: "device_dir cs" and few: "length (vroot v) < 2 ^ 32"
  shows "\<exists>n. free_path v (render cs) c (render (cs @ [decimal c])) = Some (n, Some (render (cs @ [decimal n]))) \<and>
    \<not> exists_path v (Some (render (cs @ [decimal n])))"
proof -
  let ?P = "\<lambda>j. \<not> exists_path v (Some (render (cs @ [decimal (c + of_nat j)])))"
  obtain j where "?P j" using some_number_free [OF ok dir few] by blast
  then obtain k where k: "?P k" "\<And>j. j < k \<Longrightarrow> \<not> ?P j" using exists_least_iff [of ?P] by blast
  then show ?thesis using free_path_steps [OF dir, of k v c] by blast
qed

section \<open>Registration\<close>

lemma length_files: "entries_ok (vroot v) \<Longrightarrow> length (vroot v) = card (dom (files v))" "finite (dom (files v))"
proof -
  have d: "dom (files v) = ename ` set (vroot v)" by (auto simp: files_def dom_map_of_conv_image_fst image_image)
  then show "finite (dom (files v))" by simp
  show "length (vroot v) = card (dom (files v))" if "entries_ok (vroot v)"
    unfolding d using that distinct_card [of "map ename (vroot v)"] by (simp add: entries_ok_def)
qed

lemma length_create:
  assumes "entries_ok (vroot v)" "entries_ok (vroot v')" "files v n = None" "files v' = (files v)(n \<mapsto> x)"
  shows "length (vroot v') = length (vroot v) + 1"
  using assms length_files [of v] length_files(1) [of v'] by (simp add: domIff)

lemma ensure_path_cases:
  assumes ok: "vfs_ok R v"
  obtains v' b where "ensure_path d v = Some (v', b)" "vfs_ok R v'" "counters v' = counters v" "files v \<subseteq>\<^sub>m files v'"
    "length (vroot v') \<le> length (vroot v) + 1"
proof (cases "exists_path v (Some d)")
  case True
  then show thesis using that [of v True] ok by (simp add: ensure_path_def)
next
  case False
  then have eq: "ensure_path d v = create_directory (Some d) v" by (simp add: ensure_path_def)
  from ok show thesis
  proof (cases rule: create_directory_cases [of R v "Some d"])
    case (fail v')
    then show thesis using eq by (intro that [of v' False]) (simp_all add: files_def)
  next
    case (made v' n)
    have "length (vroot v') = length (vroot v) + 1"
      using length_create [OF vfs_okD(2) [OF ok] vfs_okD(2) [OF made(2)] made(5,7)] .
    then show thesis using made eq by (intro that [of v' True]) (auto simp: map_le_def)
  qed
qed

text \<open>The information of the node that a successful registration creates.\<close>

lemma set_counter_simps [simp]: "files (set_counter c n v) = files v" "vroot (set_counter c n v) = vroot v"
  "vfs_ok R (set_counter c n v) = vfs_ok R v" "counters (set_counter c n v) = (counters v)(c := n)"
  by (simp_all add: set_counter_def files_def vfs_ok_def)

lemma register_device_cases:
  assumes ok: "vfs_ok R v" and dir: "device_dir cs" and few: "length (vroot v) + 2 < 2 ^ 32"
  obtains (fail) v' where "register_device t (render cs) c info v = Some (v', False)" "vfs_ok R v'" "files v \<subseteq>\<^sub>m files v'"
  | (made) v' w n where "register_device t (render cs) c info v = Some (v', True)" "vfs_ok R v'" "files v \<subseteq>\<^sub>m files w"
      "files w (render (cs @ [decimal n])) = None"
      "files v' = (files w)(render (cs @ [decimal n]) \<mapsto> (NODE_DEVICE, [], Some (info\<lparr>dev_type := t, device_id := n\<rparr>)))"
      "counters v' = (counters v)(c := n + 1)"
proof -
  obtain v1 b1 where v1: "ensure_path ''/devices'' v = Some (v1, b1)" "vfs_ok R v1" "counters v1 = counters v" "files v \<subseteq>\<^sub>m files v1"
    "length (vroot v1) \<le> length (vroot v) + 1"
    using ensure_path_cases [OF ok] by blast
  obtain v2 b2 where v2: "ensure_path (render cs) v1 = Some (v2, b2)" "vfs_ok R v2" "counters v2 = counters v1" "files v1 \<subseteq>\<^sub>m files v2"
    "length (vroot v2) \<le> length (vroot v1) + 1"
    using ensure_path_cases [OF v1(2)] by blast
  have grow: "files v \<subseteq>\<^sub>m files v2" using v1(4) v2(4) by (rule map_le_trans)
  show thesis
  proof (cases "b1 \<and> b2")
    case False
    then show thesis using v1 v2 grow
      by (cases b1) (auto simp: register_device_def intro: that(1))
  next
    case True
    obtain n where n: "free_path v2 (render cs) (counters v2 c) (render (cs @ [decimal (counters v2 c)])) =
        Some (n, Some (render (cs @ [decimal n])))" "\<not> exists_path v2 (Some (render (cs @ [decimal n])))"
      using free_path_found [OF vfs_okD(2) [OF v2(2)] dir] few v1(5) v2(5) by fastforce
    let ?p = "render (cs @ [decimal n])" and ?i = "info\<lparr>dev_type := t, device_id := n\<rparr>" and ?w = "set_counter c n v2"
    have eq: "register_device t (render cs) c info v = do {
        (v, ok) \<leftarrow> create_device_node (Some ?p) ?i ?w; Some (if ok then (set_counter c (n + 1) v, True) else (v, False)) }"
      using v1(1) v2(1) True device_path(1) [OF dir, of "counters v2 c"] n(1) by (simp add: register_device_def)
    have ok_w: "vfs_ok R ?w" using v2(2) by simp
    from ok_w show thesis
    proof (cases rule: create_device_node_cases [of R ?w "Some ?p" ?i])
      case (fail v')
      then show thesis using eq grow by (intro that(1) [of v']) (simp_all add: files_def)
    next
      case (made v' m)
      have m: "m = ?p" using made(4) device_path(2) [OF dir, of n] by (simp add: normal_def)
      then show thesis using made eq grow v1(3) v2(3)
        by (intro that(2) [of "set_counter c (n + 1) v'" v2 n]) simp_all
    qed
  qed
qed

lemma ensure_all_ok: "vfs_ok R v \<Longrightarrow> \<exists>v'. ensure_all ds v = Some v' \<and> vfs_ok R v' \<and> counters v' = counters v \<and> files v \<subseteq>\<^sub>m files v'"
proof (induction ds arbitrary: v)
  case (Cons d ds)
  obtain w b where w: "ensure_path d v = Some (w, b)" "vfs_ok R w" "counters w = counters v" "files v \<subseteq>\<^sub>m files w"
    using ensure_path_cases [OF Cons.prems] by blast
  obtain v' where v': "ensure_all ds w = Some v'" "vfs_ok R v'" "counters v' = counters w" "files w \<subseteq>\<^sub>m files v'"
    using Cons.IH [OF w(2)] by blast
  then show ?case using w map_le_trans [OF w(4) v'(4)] by simp
qed simp

lemma initialize_devices_ok:
  assumes ok: "vfs_ok R v"
  shows "\<exists>v'. initialize_devices v = Some v' \<and> vfs_ok R v' \<and> counters v' = counters v \<and> files v \<subseteq>\<^sub>m files v'"
proof -
  have "\<exists>w x. (if find_entry v (Some [slash]) = None then allocate_entry (Some [slash]) NODE_DIRECTORY v else Some (v, None)) = Some (w, x) \<and>
      vfs_ok R w \<and> counters w = counters v \<and> files v \<subseteq>\<^sub>m files w"
    using ok
  proof (cases rule: allocate_entry_cases [of R v "Some [slash]" NODE_DIRECTORY])
    case (fail h)
    then show ?thesis using ok by (auto simp: files_def)
  next
    case (made n h np ep)
    then show ?thesis using ok by (fastforce simp: map_le_def)
  qed
  then obtain w x where w: "(if find_entry v (Some [slash]) = None then allocate_entry (Some [slash]) NODE_DIRECTORY v else Some (v, None)) = Some (w, x)"
    "vfs_ok R w" "counters w = counters v" "files v \<subseteq>\<^sub>m files w" by blast
  obtain v' where v': "ensure_all base_directories w = Some v'" "vfs_ok R v'" "counters v' = counters w" "files w \<subseteq>\<^sub>m files v'"
    using ensure_all_ok [OF w(2)] by blast
  then show ?thesis using w(2-4) map_le_trans [OF w(4) v'(4)] by (simp add: initialize_devices_def w(1))
qed

end
