(* ===== verification/Vfs_Listing.thy ===== *)
theory Vfs_Listing
  imports Vfs_Nodes
begin

text \<open>
  The listing of a directory: the loops of \<open>directory_entry_count\<close> and \<open>directory_entry_name\<close>, which compare
  prefixes of names, enumerate the entries whose path has one component more than the directory's.
\<close>

definition path_of :: "string list \<Rightarrow> string" where
  "path_of cs = concat (map (\<lambda>c. slash # c) cs)"

lemma render_path: "cs \<noteq> [] \<Longrightarrow> render cs = path_of cs"
  by (simp add: render_def path_of_def)

lemma path_of_simps [simp]: "path_of [] = []" "path_of (c # cs) = slash # c @ path_of cs" "path_of (xs @ ys) = path_of xs @ path_of ys"
  by (simp_all add: path_of_def)

lemma components_path: "list_all component cs \<Longrightarrow> components (path_of cs) = cs"
  using components_render [of cs] by (cases "cs = []") (auto simp: render_path components.simps [of "[]"])

lemma components_below: "list_all component cs \<Longrightarrow> components (path_of cs @ slash # r) = cs @ components r"
proof (induction cs)
  case Nil
  then show ?case by (simp add: components_slash)
next
  case (Cons c cs)
  show ?case
  proof (cases cs)
    case Nil
    then show ?thesis using Cons.prems by (simp add: components_slash components_step)
  next
    case (Cons d ds)
    then show ?thesis using Cons.IH Cons.prems components_step(1) [of c "d @ path_of ds @ slash # r"]
      by (simp add: components_slash)
  qed
qed

lemma slash_in_path:
  assumes "component c" and "list_all component cs"
  shows "slash \<in> set (c @ path_of cs) \<longleftrightarrow> cs \<noteq> []" and "c @ path_of cs \<noteq> []"
  using assms by (cases cs; auto simp: component_def)+

lemma below_iff:
  assumes ds: "list_all component ds" and cs: "list_all component cs" and name: "path_of ds = path_of cs @ slash # r"
  shows "\<exists>c es. ds = cs @ c # es \<and> r = c @ path_of es \<and> component c \<and> list_all component es"
proof -
  have "ds = cs @ components r" using components_path [OF ds] components_below [OF cs, of r] name by simp
  then have "slash # r = path_of (components r)" using name by simp
  then obtain c es where "components r = c # es" "r = c @ path_of es" by (cases "components r") auto
  then show ?thesis using \<open>ds = cs @ components r\<close> ds by auto
qed

lemma direct_child_root:
  assumes ds: "list_all component ds" "ename e = render ds" "name_ptr e \<noteq> 0"
  shows "direct_child (render []) e = Some c \<longleftrightarrow> ds = [c]"
proof (cases ds)
  case Nil
  then show ?thesis using ds by (simp add: direct_child_def string_equal_def)
next
  case (Cons d more)
  then have name: "ename e = slash # d @ path_of more" using ds(2) by (simp add: render_path)
  have d: "component d" "list_all component more" using ds(1) Cons by simp_all
  then obtain x xs where "d = x # xs" "x \<noteq> slash" by (cases d) (auto simp: component_def)
  then have "char_at (d @ path_of more) 0 \<noteq> slash" by (simp add: char_at_def)
  then have "direct_child (render []) e = (if more = [] then Some d else None)"
    using name slash_in_path [OF d] d ds(3) by (auto simp: direct_child_def string_equal_def render_def component_def)
  then show ?thesis using Cons by auto
qed

lemma direct_child_below:
  assumes ds: "list_all component ds" "ename e = render ds" "name_ptr e \<noteq> 0" and cs: "list_all component cs" "cs \<noteq> []"
  shows "direct_child (render cs) e = Some c \<longleftrightarrow> ds = cs @ [c]"
proof -
  let ?p = "path_of cs"
  have p: "render cs = ?p" "?p \<noteq> [slash]" "?p \<noteq> []" using cs by (auto simp: render_path component_def neq_Nil_conv)
  show ?thesis
  proof (cases "\<exists>r. ename e = ?p @ slash # r")
    case False
    then have "ds \<noteq> cs @ [c]" using ds(2) by (auto simp: render_path)
    moreover have "\<not> (take (length ?p) (ename e) = ?p \<and> char_at (ename e) (length ?p) = slash)"
    proof
      assume a: "take (length ?p) (ename e) = ?p \<and> char_at (ename e) (length ?p) = slash"
      then have lt: "length ?p < length (ename e)" "ename e ! length ?p = slash" by (auto simp: char_at_def split: if_splits)
      from id_take_nth_drop [OF lt(1)] have "ename e = ?p @ slash # drop (Suc (length ?p)) (ename e)"
        using a lt(2) by simp
      then show False using False by blast
    qed
    ultimately show ?thesis using p by (auto simp: direct_child_def Let_def split: if_splits)
  next
    case True
    then obtain r where r: "ename e = ?p @ slash # r" by blast
    then have "ds \<noteq> []" using ds(2) p(3) by (cases ds; cases "?p") (auto simp: render_def)
    then have "path_of ds = ?p @ slash # r" using r ds(2) by (simp add: render_path)
    from below_iff [OF ds(1) cs(1) this] obtain d es where d: "ds = cs @ d # es" "r = d @ path_of es" "component d" "list_all component es"
      by blast
    have "direct_child ?p e = (if es = [] then Some r else None)"
      using r p(2) ds(3) slash_in_path [OF d(3,4)] d(2,3)
      by (auto simp: direct_child_def string_equal_def char_at_def Let_def nth_append component_def)
    then show ?thesis using d p(1) by auto
  qed
qed

lemma direct_child_iff:
  assumes "entry_ok e" and "list_all component cs"
  shows "direct_child (render cs) e = Some c \<longleftrightarrow> components (ename e) = cs @ [c]"
proof -
  have ds: "list_all component (components (ename e))" "ename e = render (components (ename e))" "name_ptr e \<noteq> 0"
    using assms(1) by (auto simp: entry_ok_def elim: normalE)
  show ?thesis
  proof (cases "cs = []")
    case True
    then show ?thesis using direct_child_root [OF ds] by simp
  next
    case False
    then show ?thesis using direct_child_below [OF ds assms(2)] by simp
  qed
qed

text \<open>The children of the directory with components \<open>cs\<close>, in the order of the entries.\<close>

definition children :: "string list \<Rightarrow> vfs \<Rightarrow> string list" where
  "children cs v = map (\<lambda>e. last (components (ename e)))
     (filter (\<lambda>e. components (ename e) \<noteq> [] \<and> butlast (components (ename e)) = cs) (vroot v))"

lemma child_test:
  assumes "entry_ok e" and "list_all component cs"
  shows "direct_child (render cs) e = (if components (ename e) \<noteq> [] \<and> butlast (components (ename e)) = cs
    then Some (last (components (ename e))) else None)"
proof (cases "direct_child (render cs) e")
  case None
  then have "components (ename e) \<noteq> cs @ [last (components (ename e))]" using direct_child_iff [OF assms] by (metis option.distinct(1))
  then show ?thesis using None append_butlast_last_id [of "components (ename e)"] by auto
next
  case (Some c)
  then show ?thesis using direct_child_iff [OF assms, of c] by simp
qed

lemma child_loop_nth:
  "cur \<le> index \<Longrightarrow> child_loop prefix cur index es =
    (if index - cur < length (List.map_filter (direct_child prefix) es)
     then Some (List.map_filter (direct_child prefix) es ! (index - cur)) else None)"
proof (induction es arbitrary: cur)
  case (Cons e es)
  show ?case
  proof (cases "direct_child prefix e")
    case None
    then show ?thesis using Cons by (simp add: List.map_filter_simps)
  next
    case (Some c)
    show ?thesis
    proof (cases "cur = index")
      case True
      then show ?thesis using Some by (simp add: List.map_filter_simps)
    next
      case False
      then have "Suc cur \<le> index" "index - cur = Suc (index - Suc cur)" using Cons.prems by simp_all
      then show ?thesis using Some False Cons.IH [of "Suc cur"] by (simp add: List.map_filter_simps)
    qed
  qed
qed (simp add: List.map_filter_simps)

lemma children_map_filter:
  assumes "\<forall>e \<in> set (vroot v). entry_ok e" and "list_all component cs"
  shows "List.map_filter (direct_child (render cs)) (vroot v) = children cs v"
    and "length (filter (\<lambda>e. direct_child (render cs) e \<noteq> None) (vroot v)) = length (children cs v)"
proof -
  have t: "direct_child (render cs) e \<noteq> None \<longleftrightarrow> components (ename e) \<noteq> [] \<and> butlast (components (ename e)) = cs"
    "direct_child (render cs) e \<noteq> None \<Longrightarrow> the (direct_child (render cs) e) = last (components (ename e))" if "e \<in> set (vroot v)" for e
    using child_test [of e cs] assms that by (auto split: if_splits)
  have f: "filter (\<lambda>e. direct_child (render cs) e \<noteq> None) (vroot v) =
      filter (\<lambda>e. components (ename e) \<noteq> [] \<and> butlast (components (ename e)) = cs) (vroot v)"
    using t(1) by (intro filter_cong) auto
  then show "length (filter (\<lambda>e. direct_child (render cs) e \<noteq> None) (vroot v)) = length (children cs v)" by (simp add: children_def)
  have "map (the \<circ> direct_child (render cs)) (filter (\<lambda>e. direct_child (render cs) e \<noteq> None) (vroot v)) =
      map (\<lambda>e. last (components (ename e))) (filter (\<lambda>e. direct_child (render cs) e \<noteq> None) (vroot v))"
    using t(2) by (intro map_cong) auto
  then show "List.map_filter (direct_child (render cs)) (vroot v) = children cs v"
    unfolding List.map_filter_def children_def f [symmetric] .
qed

lemma listing_prefix_eq:
  assumes "normalize_path (Some p) VFS_MAX_PATH = Some n"
  shows "listing_prefix (Some p) = Some (render (components p))" and "n = render (components p)"
proof -
  show n: "n = render (components p)" using assms by (auto simp: normalize_eq split: if_splits)
  have "\<not> (1 < length n \<and> last n = slash)"
    using last_render [OF components_ok [of p]] n by (cases "components p = []") (auto simp: render_def)
  then show "listing_prefix (Some p) = Some (render (components p))" using assms n by (auto simp: listing_prefix_def)
qed

lemma listing_eq:
  assumes "vfs_ok R v"
  shows "(is_directory v (Some p) \<longrightarrow> directory_entry_count v (Some p) = length (children (components p) v) \<and>
      (\<forall>i. directory_entry_name v (Some p) i =
        (if i < length (children (components p) v) then Some (children (components p) v ! i) else None))) \<and>
    (\<not> is_directory v (Some p) \<longrightarrow> directory_entry_count v (Some p) = 0 \<and> (\<forall>i. directory_entry_name v (Some p) i = None))"
proof (cases "is_directory v (Some p)")
  case False
  then show ?thesis by (simp add: directory_entry_count_def directory_entry_name_def)
next
  case True
  have es: "\<forall>e \<in> set (vroot v). entry_ok e" using vfs_okD(2) [OF assms] by (simp add: entries_ok_def)
  obtain n where n: "normalize_path (Some p) VFS_MAX_PATH = Some n"
    using True by (auto simp: is_directory_def find_entry_def split: option.splits)
  note prefix = listing_prefix_eq(1) [OF n]
  have "char_at (ename e) 0 = slash" if "e \<in> set (vroot v)" for e
  proof -
    have "normal (ename e)" using that es by (simp add: entry_ok_def)
    then obtain cs where "ename e = render cs" by (rule normalE)
    then show ?thesis by (cases cs) (simp_all add: char_at_def render_def)
  qed
  then have "filter (\<lambda>e. char_at (ename e) 0 = slash \<and> direct_child (render (components p)) e \<noteq> None) (vroot v) =
      filter (\<lambda>e. direct_child (render (components p)) e \<noteq> None) (vroot v)"
    by (intro filter_cong) auto
  then have "directory_entry_count v (Some p) = length (children (components p) v)"
    using True prefix children_map_filter(2) [OF es components_ok] by (simp add: directory_entry_count_def)
  moreover have "directory_entry_name v (Some p) i =
      (if i < length (children (components p) v) then Some (children (components p) v ! i) else None)" for i
    using True prefix child_loop_nth [of 0 i] children_map_filter(1) [OF es components_ok] by (simp add: directory_entry_name_def)
  ultimately show ?thesis using True by blast
qed

end
