(* ===== verification/Vfs_Props.thy ===== *)
theory Vfs_Props
  imports Vfs_Listing
begin

text \<open>
  The properties of the file system: memory safety over sequences of calls, what reading sees after writing, writes
  at an offset, removal and renaming, registration of devices, and that creation succeeds when there is room.
\<close>

section \<open>Creation with enough room\<close>

lemma parent_exists_iff:
  assumes ok: "entries_ok (vroot v)" and n: "normal n" "n \<noteq> [slash]"
  shows "parent_exists v (Some n) \<longleftrightarrow> files v (render (butlast (components n))) \<noteq> None"
proof -
  obtain cs where cs: "list_all component cs" "n = render cs" "components n = cs" "length n < VFS_MAX_PATH"
    using n(1) by (rule normalE)
  then have "cs \<noteq> []" using n(2) by (auto simp: render_def)
  then obtain ds c where ds: "cs = ds @ [c]" by (metis append_butlast_last_id)
  then have c: "component c" "list_all component ds" using cs(1) by simp_all
  have slash: "find_slash n (length n) = (if ds = [] then 0 else length (render ds))"
    using find_slash_render [OF c] cs(2) ds by simp
  have eq: "parent_exists v (Some n) = (if ds = [] then find_entry v (Some [slash]) \<noteq> None
      else find_entry v (Some (take (length (render ds)) n)) \<noteq> None)"
  proof (cases "ds = []")
    case True
    then show ?thesis using n slash by (simp add: parent_exists_def normal_def string_equal_def)
  next
    case False
    then have "render ds \<noteq> []" "length (render ds) < VFS_MAX_PATH" using cs(2,4) ds by (auto simp: render_def)
    then show ?thesis using False n slash by (simp add: parent_exists_def normal_def string_equal_def)
  qed
  show ?thesis
  proof (cases "ds = []")
    case True
    then show ?thesis using eq find_entry_None_iff(1) [OF ok, of "Some [slash]" "[slash]"] normal_root cs(3) ds
      by (simp add: normal_def render_def del: not_None_eq)
  next
    case False
    then have t: "take (length (render ds)) n = render ds" using cs(2) ds by (simp add: render_def)
    have "normal (render ds)" using c(2) cs(2,4) ds False by (intro normal_render) (auto simp: render_def)
    then show ?thesis using eq t False find_entry_None_iff(1) [OF ok, of "Some (render ds)" "render ds"] cs(3) ds
      by (simp add: normal_def del: not_None_eq)
  qed
qed

lemma owned_room:
  assumes "owned heap_live h M" and "unat n + 64 \<le> heap_room h"
  shows "\<exists>h' p. alloc n 8 h = Some (h', p) \<and> p \<noteq> 0 \<and> owned heap_live h' (add_mset p M) \<and> heap_room h \<le> heap_room h' + (unat n + 64)"
proof -
  obtain L where L: "heap_live h L" "finite L" "M = image_mset fst (mset_set L)" using assms(1) by (auto simp: owned_def)
  obtain h' p m where h': "alloc n 8 h = Some (h', p)" "p \<noteq> 0" "(p, m) \<notin> L" "heap_live h' (insert (p, m) L)" "heap_room h \<le> heap_room h' + (unat n + 64)"
    using alloc_room [OF L(1) _ assms(2), of 8] by auto
  have "image_mset fst (mset_set (insert (p, m) L)) = add_mset p M" using h'(3) L(2,3) by simp
  then have "owned heap_live h' (add_mset p M)" using h'(4) L(2) by (metis finite.insertI owned_def)
  then show ?thesis using h' by blast
qed

lemma allocate_entry_room:
  assumes ok: "vfs_ok R v" and n: "normalize_path p VFS_MAX_PATH = Some n" and new: "files v n = None"
    and parent: "n = [slash] \<or> files v (render (butlast (components n))) \<noteq> None" and room: "456 \<le> heap_room (vheap v)"
  shows "\<exists>h np ep. allocate_entry p t v = Some (v\<lparr>vheap := h, vroot := vroot v @ [new_entry ep np n t]\<rparr>, Some (length (vroot v))) \<and>
    vfs_ok R (v\<lparr>vheap := h, vroot := vroot v @ [new_entry ep np n t]\<rparr>) \<and>
    files (v\<lparr>vheap := h, vroot := vroot v @ [new_entry ep np n t]\<rparr>) = (files v)(n \<mapsto> (t, [], None)) \<and> heap_room (vheap v) \<le> heap_room h + 456"
proof -
  have nn: "normal n" "length n < 256" using normalize_normal [OF n] by (auto simp: VFS_MAX_PATH_def elim: normalE)
  have un: "unat (of_nat (length n + 1) :: u64) = length n + 1" using nn(2) by (intro unat_of_nat_64) simp
  obtain h1 np where h1: "alloc (of_nat (length n + 1)) 8 (vheap v) = Some (h1, np)" "np \<noteq> 0"
    "owned heap_live h1 (add_mset np (own (vroot v) + R))" "heap_room (vheap v) \<le> heap_room h1 + (length n + 65)"
    using owned_room [OF vfs_okD(1) [OF ok], of "of_nat (length n + 1)"] un nn(2) room by auto
  have s: "unat sizeof_vfs_entry = 72" by (simp add: sizeof_vfs_entry_def)
  obtain h ep where h: "alloc sizeof_vfs_entry 8 h1 = Some (h, ep)" "ep \<noteq> 0" "heap_room h1 \<le> heap_room h + 136"
    using owned_room [OF h1(3), of sizeof_vfs_entry] s h1(4) nn(2) room by auto
  have f: "find_entry v (Some n) = None" using find_entry_None_iff(1) [OF vfs_okD(2) [OF ok], of "Some n" n] nn(1) new by (simp add: normal_def)
  have "n = [slash] \<or> parent_exists v (Some n)" using parent parent_exists_iff [OF vfs_okD(2) [OF ok] nn(1)] by auto
  then have eq: "allocate_entry p t v = Some (v\<lparr>vheap := h, vroot := vroot v @ [new_entry ep np n t]\<rparr>, Some (length (vroot v)))"
    using n f h1(1,2) h(1,2) by (auto simp: allocate_entry_def alloc_blocks_def string_equal_def)
  from ok show ?thesis
  proof (cases rule: allocate_entry_cases [of R v p t])
    case (fail h')
    then show ?thesis using eq by simp
  next
    case (made m h' np' ep')
    have "vheap (fst (the (allocate_entry p t v))) = h" by (simp add: eq)
    moreover have "vheap (fst (the (allocate_entry p t v))) = h'" by (simp add: made(4))
    ultimately have "heap_room (vheap v) \<le> heap_room h' + 456" using h1(4) h(3) nn(2) by simp
    moreover have "m = n" using made(1) n by simp
    ultimately show ?thesis using made(4-6) by blast
  qed
qed

lemma create_directory_room:
  assumes ok: "vfs_ok R v" and n: "normalize_path p VFS_MAX_PATH = Some n" and new: "files v n = None"
    and parent: "n = [slash] \<or> files v (render (butlast (components n))) \<noteq> None" and room: "456 \<le> heap_room (vheap v)"
  shows "\<exists>v'. create_directory p v = Some (v', True) \<and> vfs_ok R v' \<and> files v' = (files v)(n \<mapsto> (NODE_DIRECTORY, [], None)) \<and>
    counters v' = counters v \<and> heap_room (vheap v) \<le> heap_room (vheap v') + 456"
proof -
  have "p \<noteq> None" using n by (cases p) auto
  moreover have "find_entry v p = None" using find_entry_None_iff(1) [OF vfs_okD(2) [OF ok] n] new by simp
  ultimately show ?thesis using allocate_entry_room [OF ok n new parent room, of NODE_DIRECTORY] by (auto simp: create_directory_def)
qed

lemma create_file_room:
  assumes ok: "vfs_ok R v" and n: "normalize_path p VFS_MAX_PATH = Some n" and new: "files v n = None"
    and parent: "n = [slash] \<or> files v (render (butlast (components n))) \<noteq> None"
    and d: "readable data sz" "sz = 0 \<or> data \<noteq> None" and room: "520 + unat sz \<le> heap_room (vheap v)"
  shows "\<exists>v'. create_file p data sz v = Some (v', True) \<and> heap_room (vheap v) \<le> heap_room (vheap v') + 520 + unat sz"
proof -
  have "456 \<le> heap_room (vheap v)" using room by simp
  from allocate_entry_room [OF ok n new parent this, of NODE_FILE] obtain h np ep where
    a: "allocate_entry p NODE_FILE v = Some (v\<lparr>vheap := h, vroot := vroot v @ [new_entry ep np n NODE_FILE]\<rparr>, Some (length (vroot v)))"
    "vfs_ok R (v\<lparr>vheap := h, vroot := vroot v @ [new_entry ep np n NODE_FILE]\<rparr>)" "heap_room (vheap v) \<le> heap_room h + 456" by blast
  have "p \<noteq> None" using n by (cases p) auto
  moreover have "find_entry v p = None" using find_entry_None_iff(1) [OF vfs_okD(2) [OF ok] n] new by simp
  moreover have "\<not> (0 < sz \<and> data = None)" using d(2) by auto
  ultimately have eq: "create_file p data sz v =
      fill_entry (length (vroot v)) data sz (v\<lparr>vheap := h, vroot := vroot v @ [new_entry ep np n NODE_FILE]\<rparr>)"
    using a(1) by (auto simp: create_file_def)
  show ?thesis
  proof (cases "0 < sz")
    case False
    then show ?thesis using a(3) by (simp add: eq fill_entry_def set_entry_def)
  next
    case True
    then have "data \<noteq> None" using d(2) by auto
    then have b: "buffer data sz = Some (bytes data sz)" using buffer_bytes(1) d(1) by blast
    have "unat (ucast sz :: u64) + 64 \<le> heap_room h" using a(3) room by simp
    then obtain h' q where "alloc (ucast sz) 8 h = Some (h', q)" "q \<noteq> 0" "heap_room h \<le> heap_room h' + (unat sz + 64)"
      using owned_room [of h "own (vroot v @ [new_entry ep np n NODE_FILE]) + R" "ucast sz"] vfs_okD(1) [OF a(2)] by auto
    then show ?thesis using True b a(3) by (simp add: eq fill_entry_def set_entry_def)
  qed
qed

text \<open>The file system before the first call, and one with a root directory for the examples.\<close>

definition boot_vfs :: "heap \<Rightarrow> vfs" where
  "boot_vfs h = \<lparr>vheap = h, vroot = [], counters = (\<lambda>_. 0)\<rparr>"

definition demo_vfs :: vfs where
  "demo_vfs = fst (the (create_directory (Some ''/'') (boot_vfs demo_heap)))"

lemma boot_vfs_ok: "owned heap_live h R \<Longrightarrow> vfs_ok R (boot_vfs h)"
  by (simp add: vfs_ok_def boot_vfs_def entries_ok_def)

lemma demo_heap_owned: "owned heap_live demo_heap {#}"
  using demo_heap_live by (auto simp: owned_def)

lemma demo_heap_room: "heap_room demo_heap = 8192"
proof -
  have "heap_off demo_heap = 0" using demo_heap_live by (rule heap_live_empty)
  moreover have "unat (heap_size demo_heap) = 8192"
    unfolding demo_heap_def using heap_init_inv(3) [of 4096 8192] by (simp add: slack_def)
  ultimately show ?thesis by (simp add: heap_room_def)
qed

lemma demo_vfs: "create_directory (Some ''/'') (boot_vfs demo_heap) = Some (demo_vfs, True)" "vfs_ok {#} demo_vfs"
  "files demo_vfs = [''/'' \<mapsto> (NODE_DIRECTORY, [], None)]" "7736 \<le> heap_room (vheap demo_vfs)" "counters demo_vfs = (\<lambda>_. 0)"
proof -
  have n: "normalize_path (Some ''/'') VFS_MAX_PATH = Some [slash]" using normal_root by (simp add: normal_def)
  obtain v' where v': "create_directory (Some ''/'') (boot_vfs demo_heap) = Some (v', True)" "vfs_ok {#} v'"
    "files v' = (files (boot_vfs demo_heap))([slash] \<mapsto> (NODE_DIRECTORY, [], None))" "counters v' = counters (boot_vfs demo_heap)"
    "heap_room (vheap (boot_vfs demo_heap)) \<le> heap_room (vheap v') + 456"
    using create_directory_room [OF boot_vfs_ok [OF demo_heap_owned] n] by (auto simp: boot_vfs_def files_def demo_heap_room)
  have "demo_vfs = v'" by (simp add: demo_vfs_def v'(1))
  then show "create_directory (Some ''/'') (boot_vfs demo_heap) = Some (demo_vfs, True)" "vfs_ok {#} demo_vfs"
    "files demo_vfs = [''/'' \<mapsto> (NODE_DIRECTORY, [], None)]" "7736 \<le> heap_room (vheap demo_vfs)" "counters demo_vfs = (\<lambda>_. 0)"
    using v' by (auto simp: boot_vfs_def files_def demo_heap_room)
qed

section \<open>Sequences of calls\<close>

definition register_as :: "counter \<Rightarrow> device_node_info \<Rightarrow> vfs \<Rightarrow> (vfs \<times> bool) option" where
  "register_as c = (case c of disk_counter \<Rightarrow> register_disk | network_counter \<Rightarrow> register_network_device
     | usb_counter \<Rightarrow> register_usb_device | gpu_counter \<Rightarrow> register_gpu_device | input_counter \<Rightarrow> register_input_device
     | audio_counter \<Rightarrow> register_audio_device)"

definition class_type :: "counter \<Rightarrow> device_type" where
  "class_type c = (case c of disk_counter \<Rightarrow> DEVICE_DISK | network_counter \<Rightarrow> DEVICE_NETWORK | usb_counter \<Rightarrow> DEVICE_USB
     | gpu_counter \<Rightarrow> DEVICE_GPU | input_counter \<Rightarrow> DEVICE_INPUT | audio_counter \<Rightarrow> DEVICE_AUDIO)"

definition class_dir :: "counter \<Rightarrow> string list" where
  "class_dir c = [''devices'', case c of disk_counter \<Rightarrow> ''disk'' | network_counter \<Rightarrow> ''net'' | usb_counter \<Rightarrow> ''usb''
     | gpu_counter \<Rightarrow> ''gpu'' | input_counter \<Rightarrow> ''input'' | audio_counter \<Rightarrow> ''audio'']"

lemma register_as_eq: "register_as c info v = register_device (class_type c) (render (class_dir c)) c info v"
  by (cases c) (simp_all add: register_as_def class_type_def class_dir_def render_def register_disk_def register_network_device_def
    register_usb_device_def register_gpu_device_def register_input_device_def register_audio_device_def)

lemma class_dir_ok: "device_dir (class_dir c)"
  by (cases c) (simp_all add: device_dir_def class_dir_def render_def component_def)

text \<open>The calls that change the file system. A call without a result did not return or left a buffer.\<close>

datatype vfs_call = Create "string option" "u8 list option" u32 | Write "string option" "u8 list option" u32
  | WriteAt "string option" u64 "u8 list option" u32 bool | Truncate "string option" u32 | Mkdir "string option"
  | Remove "string option" | Rmdir "string option" | Rename "string option" "string option" | Mknod "string option" device_node_info
  | Rmnod "string option" | Register counter device_node_info | InitDevices

fun vfs_exec :: "vfs_call \<Rightarrow> vfs \<Rightarrow> vfs option" where
  "vfs_exec (Create p d n) v = map_option fst (create_file p d n v)"
| "vfs_exec (Write p d n) v = map_option fst (write_file p d n v)"
| "vfs_exec (WriteAt p off d n ap) v = map_option fst (write_file_at p off d n ap v)"
| "vfs_exec (Truncate p n) v = map_option fst (truncate_file p n v)"
| "vfs_exec (Mkdir p) v = map_option fst (create_directory p v)"
| "vfs_exec (Remove p) v = map_option fst (remove_file p v)"
| "vfs_exec (Rmdir p) v = map_option fst (remove_directory p v)"
| "vfs_exec (Rename p q) v = map_option fst (rename_path p q v)"
| "vfs_exec (Mknod p i) v = map_option fst (create_device_node p i v)"
| "vfs_exec (Rmnod p) v = map_option fst (remove_device_node p v)"
| "vfs_exec (Register c i) v = map_option fst (register_as c i v)"
| "vfs_exec InitDevices v = initialize_devices v"

text \<open>
  What a caller has to respect: buffers as long as it says, no write whose end passes \<open>2 ^ 64\<close>, no renaming to
  a name that does not fit the old name's block, and fewer than \<open>2 ^ 32 - 2\<close> entries when a device is registered.
\<close>

fun safe_call :: "vfs_call \<Rightarrow> vfs \<Rightarrow> bool" where
  "safe_call (Create p d n) v \<longleftrightarrow> readable d n"
| "safe_call (Write p d n) v \<longleftrightarrow> readable d n"
| "safe_call (WriteAt p off d n ap) v \<longleftrightarrow> readable d n \<and> (ap \<or> unat off + unat n < 2 ^ 64)"
| "safe_call (Rename p q) v \<longleftrightarrow> rename_fits v p q"
| "safe_call (Register c i) v \<longleftrightarrow> length (vroot v) + 2 < 2 ^ 32"
| "safe_call _ v \<longleftrightarrow> True"

fun vfs_run :: "vfs_call list \<Rightarrow> vfs \<Rightarrow> vfs option" where
  "vfs_run [] v = Some v"
| "vfs_run (c # cs) v = do { v \<leftarrow> vfs_exec c v; vfs_run cs v }"

fun safe_run :: "vfs_call list \<Rightarrow> vfs \<Rightarrow> bool" where
  "safe_run [] v \<longleftrightarrow> True"
| "safe_run (c # cs) v \<longleftrightarrow> safe_call c v \<and> (case vfs_exec c v of None \<Rightarrow> True | Some v \<Rightarrow> safe_run cs v)"

lemma vfs_exec_ok:
  assumes ok: "vfs_ok R v" and safe: "safe_call c v"
  shows "\<exists>v'. vfs_exec c v = Some v' \<and> vfs_ok R v'"
proof (cases c)
  case (Create p d n)
  then have d: "readable d n" using safe by simp
  from ok d show ?thesis by (cases rule: create_file_cases [of R v d n p]) (simp_all add: Create)
next
  case (Write p d n)
  then have d: "readable d n" using safe by simp
  from ok d show ?thesis by (cases rule: write_file_cases [of R v d n p]) (simp_all add: Write)
next
  case (WriteAt p off d n ap)
  then have d: "readable d n" "ap \<or> unat off + unat n < 2 ^ 64" using safe by simp_all
  from ok d show ?thesis by (cases rule: write_file_at_cases [of R v d n ap off p]) (simp_all add: WriteAt)
next
  case (Truncate p n)
  have d: "readable None n" by (simp add: readable_def)
  from ok d show ?thesis
    by (cases rule: write_file_cases [of R v None n p]) (use ok in \<open>auto simp: Truncate truncate_file_def\<close>)
next
  case (Mkdir p)
  from ok show ?thesis by (cases rule: create_directory_cases [of R v p]) (simp_all add: Mkdir)
next
  case (Remove p)
  from ok show ?thesis by (cases rule: remove_node_cases [of R v NODE_FILE p]) (use ok in \<open>simp_all add: Remove remove_file_def\<close>)
next
  case (Rmdir p)
  from ok show ?thesis
    by (cases rule: remove_node_cases [of R v NODE_DIRECTORY p])
      (use ok in \<open>auto simp: Rmdir remove_directory_def split: option.split\<close>)
next
  case (Rename p q)
  then have "rename_fits v p q" using safe by simp
  from ok this show ?thesis by (cases rule: rename_cases [of R v p q]) (use ok in \<open>simp_all add: Rename\<close>)
next
  case (Mknod p i)
  from ok show ?thesis by (cases rule: create_device_node_cases [of R v p i]) (simp_all add: Mknod)
next
  case (Rmnod p)
  from ok show ?thesis by (cases rule: remove_node_cases [of R v NODE_DEVICE p]) (use ok in \<open>simp_all add: Rmnod remove_device_node_def\<close>)
next
  case (Register d i)
  then have "length (vroot v) + 2 < 2 ^ 32" using safe by simp
  from ok class_dir_ok [of d] this show ?thesis
    by (cases rule: register_device_cases [of R v "class_dir d" "class_type d" d i]) (simp_all add: Register register_as_eq)
next
  case InitDevices
  then show ?thesis using initialize_devices_ok [OF ok] by auto
qed

lemma vfs_run_ok: "\<lbrakk>vfs_ok R v; safe_run cs v\<rbrakk> \<Longrightarrow> \<exists>v'. vfs_run cs v = Some v' \<and> vfs_ok R v'"
proof (induction cs arbitrary: v)
  case (Cons c cs)
  then obtain v1 where "vfs_exec c v = Some v1" "vfs_ok R v1" using vfs_exec_ok [of R v c] by auto
  then show ?case using Cons by simp
qed simp

text \<open>
  C22. Any sequence of file system calls from the empty file system returns, without a read or write outside a
  buffer, as long as every call respects the conditions of \<open>safe_call\<close>: data buffers are as long as the call says,
  no write at an offset ends past \<open>2 ^ 64\<close>, no path is renamed to a name that does not fit the block of the name it was
  created with, and devices are registered while there are fewer than \<open>2 ^ 32 - 2\<close> entries. Afterwards every name is normalized and
  unique, every entry's size, data pointer and type agree, and the blocks in use in the kernel heap are exactly the
  entries', their names' and their contents' and those that were in use at the start: nothing leaks and nothing is freed twice.
\<close>

theorem vfs_calls_safe:
  assumes "owned heap_live h R" and "safe_run cs (boot_vfs h)"
  shows "\<exists>v. vfs_run cs (boot_vfs h) = Some v \<and> entries_ok (vroot v) \<and> owned heap_live (vheap v) (own (vroot v) + R)"
  using vfs_run_ok [OF boot_vfs_ok [OF assms(1)] assms(2)] by (auto simp: vfs_ok_def)

theorem vfs_calls_safe_witness:
  "\<exists>v. vfs_run [InitDevices, Create (Some ''/tmp/a'') (Some [1, 2, 3]) 3, WriteAt (Some ''tmp//a'') 5 (Some [7]) 1 False,
       Write (Some ''/tmp/a'') (Some [9]) 1, Remove (Some ''/tmp/a''), Truncate (Some ''/x'') 4] (boot_vfs demo_heap) = Some v \<and>
     entries_ok (vroot v) \<and> owned heap_live (vheap v) (own (vroot v) + {#})"
  by (rule vfs_calls_safe [OF demo_heap_owned]) (simp add: readable_def split: option.split)

section \<open>Reading and writing\<close>

text \<open>What \<open>read_file\<close> returns for a node.\<close>

definition node_read :: "node option \<Rightarrow> u8 list option \<times> u32" where
  "node_read x = (case x of Some (NODE_FILE, d, i) \<Rightarrow> (if d = [] then None else Some d, of_nat (length d)) | _ \<Rightarrow> (None, 0))"

lemma read_file_files:
  assumes "entries_ok (vroot v)"
  shows "read_file v p = node_read (case normalize_path p VFS_MAX_PATH of None \<Rightarrow> None | Some n \<Rightarrow> files v n)"
proof (cases "find_entry v p")
  case None
  then have "(case normalize_path p VFS_MAX_PATH of None \<Rightarrow> None | Some n \<Rightarrow> files v n) = None"
    using find_entry_None_iff(1) [OF assms, of p] by (auto split: option.split)
  then show ?thesis using None by (simp add: read_file_def node_read_def)
next
  case (Some i)
  note f = find_entry_SomeD [OF assms Some]
  then have "read_file v p = node_read (Some (node (vroot v ! i)))"
    using Some by (cases "etype (vroot v ! i)") (auto simp: read_file_def Let_def node_read_def node_def entry_ok_def)
  then show ?thesis using f by simp
qed

lemma is_directory_files:
  assumes "entries_ok (vroot v)" and "normalize_path p VFS_MAX_PATH = Some n"
  shows "is_directory v p \<longleftrightarrow> (\<exists>d i. files v n = Some (NODE_DIRECTORY, d, i))"
  using find_entry_files [OF assms] by (cases "find_entry v p") (auto simp: is_directory_def node_def)

lemma get_device_info_files:
  assumes "entries_ok (vroot v)" and "normalize_path p VFS_MAX_PATH = Some n" and "files v n = Some (NODE_DEVICE, d, Some info)"
  shows "get_device_info v p = Some info"
  using find_entry_files [OF assms(1,2)] assms(3)
  by (cases "find_entry v p") (auto simp: get_device_info_def node_def split: if_splits)

lemma read_after:
  assumes "entries_ok (vroot v)" "entries_ok (vroot v')" and "normalize_path p VFS_MAX_PATH = Some n" and "files v' = (files v)(n \<mapsto> x)"
  shows "read_file v' p = node_read (Some x)"
    and "normalize_path q VFS_MAX_PATH \<noteq> normalize_path p VFS_MAX_PATH \<Longrightarrow> read_file v' q = read_file v q"
  using assms by (auto simp: read_file_files split: option.split)

lemma read_same: "\<lbrakk>entries_ok (vroot v); entries_ok (vroot v'); files v' = files v\<rbrakk> \<Longrightarrow> read_file v' p = read_file v p"
  by (simp add: read_file_files split: option.split)

lemma bytes_read:
  assumes "readable data sz" and "sz = 0 \<or> data \<noteq> None"
  shows "node_read (Some (NODE_FILE, bytes data sz, i)) = (if sz = 0 then None else Some (take (unat sz) (the data)), sz)"
proof (cases data)
  case None
  then show ?thesis using assms by (simp add: node_read_def bytes_def)
next
  case (Some d)
  then have "length (take (unat sz) d) = unat sz" using assms(1) by (simp add: readable_def)
  then show ?thesis using Some by (auto simp: node_read_def bytes_def unat_eq_0 simp flip: length_0_conv)
qed

text \<open>
  C23. \<open>write_file\<close> always returns. When it succeeds, \<open>read_file\<close> of the same path returns the bytes written (the null pointer
  for an empty file) and their number, and every path that names another file reads as before. When it fails, every path
  reads as before.
\<close>

theorem write_file_correct:
  assumes "vfs_ok R v" and "readable data sz"
  shows "\<exists>v' ok. write_file name data sz v = Some (v', ok) \<and> vfs_ok R v' \<and>
    (if ok then read_file v' name = (if sz = 0 then None else Some (take (unat sz) (the data)), sz) \<and>
       (\<forall>other. normalize_path other VFS_MAX_PATH \<noteq> normalize_path name VFS_MAX_PATH \<longrightarrow> read_file v' other = read_file v other)
     else \<forall>other. read_file v' other = read_file v other)"
  using assms
proof (cases rule: write_file_cases [of R v data sz name])
  case (fail v')
  have "read_file v' other = read_file v other" for other
    using read_same [OF vfs_okD(2) [OF assms(1)] vfs_okD(2) [OF fail(2)]] fail(3) by (simp add: files_def)
  then show ?thesis using fail(1,2) by (intro exI [of _ v'] exI [of _ False]) simp
next
  case (made v' n)
  note r = read_after [OF vfs_okD(2) [OF assms(1)] vfs_okD(2) [OF made(2)] made(4,6)]
  then show ?thesis using made(1,2) bytes_read [OF assms(2) made(7)] by (intro exI [of _ v'] exI [of _ True]) auto
qed

lemma demo_file:
  obtains v where "create_file (Some ''/a'') (Some [1, 2, 3]) 3 demo_vfs = Some (v, True)" "vfs_ok {#} v"
    "files v = [''/'' \<mapsto> (NODE_DIRECTORY, [], None), ''/a'' \<mapsto> (NODE_FILE, [1, 2, 3], None)]" "7000 \<le> heap_room (vheap v)"
proof -
  have n: "normalize_path (Some ''/a'') VFS_MAX_PATH = Some ''/a''" by code_simp
  have d: "readable (Some [1, 2, 3]) 3" by (simp add: readable_def)
  have "components ''/a'' = [''a'']" by code_simp
  then have root: "render (butlast (components ''/a'')) = ''/''" by (simp add: render_def)
  obtain v where v: "create_file (Some ''/a'') (Some [1, 2, 3]) 3 demo_vfs = Some (v, True)" "7000 \<le> heap_room (vheap v)"
    using create_file_room [OF demo_vfs(2) n _ _ d] demo_vfs(3,4) root by fastforce
  from demo_vfs(2) d show thesis
    by (cases rule: create_file_cases [of "{#}" demo_vfs "Some [1, 2, 3]" 3 "Some ''/a''"])
      (use v n that in \<open>auto simp: demo_vfs(3) bytes_def\<close>)
qed

lemma two_elements:
  assumes "distinct xs" and "set xs = {a, b}" and "a \<noteq> b"
  shows "xs = [a, b] \<or> xs = [b, a]"
proof -
  have "length xs = 2" using distinct_card [OF assms(1)] assms(2,3) by simp
  then obtain x y where "xs = [x, y]" by (auto simp: length_Suc_conv numeral_2_eq_2)
  then show ?thesis using assms by (auto simp: doubleton_eq_iff)
qed

lemma demo_children:
  assumes "entries_ok (vroot v)" and "files v = [''/'' \<mapsto> x, ''/a'' \<mapsto> y]"
  shows "children [] v = [''a'']"
proof -
  have "dom (files v) = ename ` set (vroot v)" by (simp add: files_def dom_map_of_conv_image_fst image_image)
  then have "set (map ename (vroot v)) = {''/'', ''/a''}" unfolding assms(2) by (simp add: insert_commute)
  then have ns: "map ename (vroot v) = [''/'', ''/a''] \<or> map ename (vroot v) = [''/a'', ''/'']"
    using assms(1) by (intro two_elements) (simp_all add: entries_ok_def)
  have "children [] v = map (\<lambda>n. last (components n)) (filter (\<lambda>n. components n \<noteq> [] \<and> butlast (components n) = []) (map ename (vroot v)))"
    by (simp add: children_def filter_map comp_def)
  moreover have "components ''/'' = []" "components ''/a'' = [''a'']" by code_simp+
  ultimately show ?thesis using ns by (elim disjE) simp_all
qed

theorem write_file_correct_witness:
  "\<exists>v v'. create_file (Some ''/a'') (Some [1, 2, 3]) 3 demo_vfs = Some (v, True) \<and>
     (write_file (Some ''a'') (Some [5, 6]) 2 v = Some (v', True) \<and> read_file v' (Some ''a'') = (Some [5, 6], 2) \<or>
      write_file (Some ''a'') (Some [5, 6]) 2 v = Some (v', False) \<and> read_file v' (Some ''a'') = read_file v (Some ''a''))"
proof -
  obtain v where v: "create_file (Some ''/a'') (Some [1, 2, 3]) 3 demo_vfs = Some (v, True)" "vfs_ok {#} v" by (rule demo_file)
  have "readable (Some [5, 6]) 2" by (simp add: readable_def)
  from write_file_correct [OF v(2) this, of "Some ''a''"] show ?thesis using v(1) by (auto split: if_splits)
qed

text \<open>
  C24. \<open>write_file_at\<close> with an end below \<open>2 ^ 64\<close> always returns and keeps the invariant. When it succeeds it creates the file or
  replaces its contents by the old ones, padded with zeros up to the offset, with the bytes written over them from the
  offset (the old end when appending), and reports the offset behind them, which is below \<open>2 ^ 32\<close>; no other path changes. When it
  fails nothing changes, except that a path that did not exist may have become an empty file.
\<close>

theorem write_file_at_correct:
  assumes "vfs_ok R v" and "readable data sz" and "appending \<or> unat off + unat sz < 2 ^ 64"
  shows "\<exists>v' r. write_file_at name off data sz appending v = Some (v', r) \<and> vfs_ok R v' \<and>
    (case r of Some e \<Rightarrow> \<exists>n. normalize_path name VFS_MAX_PATH = Some n \<and> unat e = write_place v n off appending + unat sz \<and>
         unat e < 2 ^ 32 \<and>
         files v' = (files v)(n \<mapsto> (NODE_FILE, pwrite (old_data v n) (write_place v n off appending) (bytes data sz), None))
     | None \<Rightarrow> files v' = files v \<or>
         (\<exists>n. normalize_path name VFS_MAX_PATH = Some n \<and> files v n = None \<and> files v' = (files v)(n \<mapsto> (NODE_FILE, [], None))))"
  using assms
proof (cases rule: write_file_at_cases [of R v data sz appending off name])
  case (fail v')
  then show ?thesis by (intro exI [of _ v'] exI [of _ None]) simp
next
  case (made v' n)
  have "unat (of_nat (write_place v n off appending + unat sz) :: u64) = write_place v n off appending + unat sz"
    using made(6) by (intro unat_of_nat_64) simp
  then show ?thesis using made by (intro exI [of _ v'] exI [of _ "Some (of_nat (write_place v n off appending + unat sz))"]) simp
qed

theorem write_file_at_correct_witness:
  "\<exists>v v'. create_file (Some ''/a'') (Some [1, 2, 3]) 3 demo_vfs = Some (v, True) \<and>
     (write_file_at (Some ''/a'') 5 (Some [9]) 1 False v = Some (v', Some 6) \<and> files v' ''/a'' = Some (NODE_FILE, [1, 2, 3, 0, 0, 9], None) \<or>
      write_file_at (Some ''/a'') 5 (Some [9]) 1 False v = Some (v', None) \<and> files v' = files v)"
proof -
  obtain v where v: "create_file (Some ''/a'') (Some [1, 2, 3]) 3 demo_vfs = Some (v, True)" "vfs_ok {#} v"
    "files v = [''/'' \<mapsto> (NODE_DIRECTORY, [], None), ''/a'' \<mapsto> (NODE_FILE, [1, 2, 3], None)]" by (rule demo_file)
  have n: "normalize_path (Some ''/a'') VFS_MAX_PATH = Some ''/a''" by code_simp
  have d: "readable (Some [9]) 1" "False \<or> unat (5 :: u64) + unat (1 :: u32) < 2 ^ 64" by (simp_all add: readable_def)
  have od: "old_data v ''/a'' = [1, 2, 3]" by (simp add: old_data_def v(3))
  have "pwrite [1, 2, 3] 5 (bytes (Some [9]) 1) = [1, 2, 3, 0, 0, 9]" by (simp add: bytes_def pwrite_def numeral_2_eq_2)
  then have old: "write_place v ''/a'' 5 False = 5" "pwrite (old_data v ''/a'') 5 (bytes (Some [9]) 1) = [1, 2, 3, 0, 0, 9]"
    by (simp_all only: od) (simp add: write_place_def)
  have six: "e = 6" if "unat e = 6" for e :: u64 using that by (simp add: word_unat_eq_iff)
  from write_file_at_correct [OF v(2) d, of "Some ''/a''"] show ?thesis
    using v(1,3) n old by (fastforce split: option.splits dest: six)
qed

text \<open>
  C25. For a directory, \<open>directory_entry_count\<close> is the number of entries whose path is the directory's with
  one component more, and \<open>directory_entry_name\<close> enumerates their last components in the order of the entries, and returns the null
  pointer for every index from that number on. For anything but a directory the listing is empty.
\<close>

theorem directory_listing_correct:
  assumes "vfs_ok R v"
  shows "(is_directory v (Some p) \<longrightarrow> directory_entry_count v (Some p) = length (children (components p) v) \<and>
      (\<forall>i. directory_entry_name v (Some p) i =
        (if i < length (children (components p) v) then Some (children (components p) v ! i) else None))) \<and>
    (\<not> is_directory v (Some p) \<longrightarrow> directory_entry_count v (Some p) = 0 \<and> (\<forall>i. directory_entry_name v (Some p) i = None))"
  using assms by (rule listing_eq)

theorem directory_listing_correct_witness:
  "\<exists>v. create_file (Some ''/a'') (Some [1, 2, 3]) 3 demo_vfs = Some (v, True) \<and> directory_entry_count v (Some ''/'') = 1 \<and>
     directory_entry_name v (Some ''/'') 0 = Some ''a'' \<and> directory_entry_name v (Some ''/'') 1 = None \<and>
     directory_entry_count v (Some ''/a'') = 0"
proof -
  obtain v where v: "create_file (Some ''/a'') (Some [1, 2, 3]) 3 demo_vfs = Some (v, True)" "vfs_ok {#} v"
    "files v = [''/'' \<mapsto> (NODE_DIRECTORY, [], None), ''/a'' \<mapsto> (NODE_FILE, [1, 2, 3], None)]" by (rule demo_file)
  have n: "normalize_path (Some ''/'') VFS_MAX_PATH = Some ''/''" "normalize_path (Some ''/a'') VFS_MAX_PATH = Some ''/a''" by code_simp+
  have c: "components ''/'' = []" "components ''/a'' = [''a'']" by code_simp+
  note f = is_directory_files [OF vfs_okD(2) [OF v(2)]]
  have dirs: "is_directory v (Some ''/'')" "\<not> is_directory v (Some ''/a'')"
    using f [OF n(1)] f [OF n(2)] by (simp_all add: v(3))
  have "children [] v = [''a'']"
    by (rule demo_children [OF vfs_okD(2) [OF v(2)] v(3)])
  then show ?thesis using v(1) dirs directory_listing_correct [OF v(2), of "''/''"] directory_listing_correct [OF v(2), of "''/a''"] c
    by auto
qed

section \<open>Removing and renaming nodes\<close>

text \<open>
  C26. \<open>remove_file\<close>, \<open>remove_device_node\<close> and \<open>remove_directory\<close> always return. They succeed exactly on a path that names a
  file, a device and a directory other than the root without children; then exactly this path is gone and its blocks are
  free, otherwise nothing changes.
\<close>

theorem removal_correct:
  assumes "vfs_ok R v"
  shows "\<forall>(remove, t) \<in> {(remove_file, NODE_FILE), (remove_device_node, NODE_DEVICE), (remove_directory, NODE_DIRECTORY)}.
    if \<exists>n d i. normalize_path path VFS_MAX_PATH = Some n \<and> files v n = Some (t, d, i) \<and>
         (t = NODE_DIRECTORY \<longrightarrow> n \<noteq> ''/'' \<and> children (components n) v = [])
    then \<exists>v'. remove path v = Some (v', True) \<and> vfs_ok R v' \<and> files v' = (files v)(the (normalize_path path VFS_MAX_PATH) := None)
    else remove path v = Some (v, False)"
proof -
  have node: "if \<exists>n d i. normalize_path path VFS_MAX_PATH = Some n \<and> files v n = Some (t, d, i)
    then \<exists>v'. remove_node t path v = Some (v', True) \<and> vfs_ok R v' \<and> files v' = (files v)(the (normalize_path path VFS_MAX_PATH) := None)
    else remove_node t path v = Some (v, False)" for t
    using assms by (cases rule: remove_node_cases [of R v t path]) auto
  have count: "directory_entry_count v (Some n) = length (children (components n) v)"
    if "normalize_path path VFS_MAX_PATH = Some n" "files v n = Some (NODE_DIRECTORY, d, i)" for n d i
  proof -
    have "normalize_path (Some n) VFS_MAX_PATH = Some n" using normalize_normal [OF that(1)] by (simp add: normal_def)
    then have "is_directory v (Some n)" using is_directory_files [OF vfs_okD(2) [OF assms], of "Some n" n] that(2) by blast
    then show ?thesis using listing_eq [OF assms] by blast
  qed
  show ?thesis using node [of NODE_FILE] node [of NODE_DEVICE] node [of NODE_DIRECTORY] count
    by (auto simp: remove_file_def remove_device_node_def remove_directory_def string_equal_def split: option.split if_splits)
qed

theorem removal_correct_witness:
  "\<exists>v v'. create_file (Some ''/a'') (Some [1, 2, 3]) 3 demo_vfs = Some (v, True) \<and> remove_file (Some ''//a/'') v = Some (v', True) \<and>
     files v' = [''/'' \<mapsto> (NODE_DIRECTORY, [], None)] \<and> remove_directory (Some ''/'') v = Some (v, False)"
proof -
  obtain v where v: "create_file (Some ''/a'') (Some [1, 2, 3]) 3 demo_vfs = Some (v, True)" "vfs_ok {#} v"
    "files v = [''/'' \<mapsto> (NODE_DIRECTORY, [], None), ''/a'' \<mapsto> (NODE_FILE, [1, 2, 3], None)]" by (rule demo_file)
  have n: "normalize_path (Some ''/'') VFS_MAX_PATH = Some ''/''" "normalize_path (Some ''//a/'') VFS_MAX_PATH = Some ''/a''" by code_simp+
  obtain v' where "remove_file (Some ''//a/'') v = Some (v', True)" "files v' = (files v)(''/a'' := None)"
    using removal_correct [OF v(2), of "Some ''//a/''"] n(2) by (auto simp: v(3) split: if_splits)
  moreover have "remove_directory (Some ''/'') v = Some (v, False)"
    using removal_correct [OF v(2), of "Some ''/''"] n(1) by (auto split: if_splits)
  ultimately show ?thesis using v(1) by (auto simp: v(3))
qed

lemma rename_path_None:
  assumes ok: "vfs_ok R v" and nm: "normalize_path old_path VFS_MAX_PATH = Some n" "normalize_path new_path VFS_MAX_PATH = Some m"
    and i: "find_entry v old_path = Some i" and free: "files v m = None" and long: "\<not> length m < name_cap (vroot v ! i)"
  shows "rename_path old_path new_path v = None"
proof -
  have "find_entry v (Some n) = Some i" "find_entry v (Some m) = None"
    using find_entry_normalized [OF nm(1)] find_entry_normalized [OF nm(2)] i
      find_entry_None_iff(1) [OF vfs_okD(2) [OF ok] nm(2)] free by simp_all
  moreover have "length m < VFS_MAX_PATH" using normalize_normal [OF nm(2)] by (auto elim: normalE)
  ultimately show ?thesis using nm long by (simp add: rename_path_def)
qed

lemma rename_path_rejects:
  assumes ok: "vfs_ok R v" and nm: "normalize_path old_path VFS_MAX_PATH = Some n" "normalize_path new_path VFS_MAX_PATH = Some m"
    and bad: "files v n = None \<or> files v m \<noteq> None"
  shows "rename_path old_path new_path v = Some (v, False)"
proof -
  have "find_entry v (Some n) = None \<or> find_entry v (Some m) \<noteq> None"
    using find_entry_normalized [OF nm(1)] find_entry_normalized [OF nm(2)]
      find_entry_None_iff(1) [OF vfs_okD(2) [OF ok]] nm bad by auto
  then show ?thesis using nm by (auto simp: rename_path_def split: option.split)
qed

text \<open>
  C27. \<open>rename_path\<close> fails and changes nothing when a path is not valid, the old path does not exist or the new one does.
  Otherwise it moves the node with its type, contents and device information when the new name, with its terminator,
  fits the block that was allocated for the name the entry was created with; and when it does not fit, the copy of
  the name leaves the block, which is the missing result.
\<close>

theorem rename_path_correct:
  assumes "vfs_ok R v"
  shows "case (normalize_path old_path VFS_MAX_PATH, normalize_path new_path VFS_MAX_PATH) of
      (Some n, Some m) \<Rightarrow>
        if files v n = None \<or> files v m \<noteq> None then rename_path old_path new_path v = Some (v, False)
        else \<exists>i. find_entry v old_path = Some i \<and>
          (if length m < name_cap (vroot v ! i)
           then \<exists>v'. rename_path old_path new_path v = Some (v', True) \<and> vfs_ok R v' \<and>
                  files v' = (files v)(n := None, m := files v n)
           else rename_path old_path new_path v = None)
    | _ \<Rightarrow> rename_path old_path new_path v = Some (v, False)"
proof (cases "normalize_path old_path VFS_MAX_PATH = None \<or> normalize_path new_path VFS_MAX_PATH = None")
  case True
  then show ?thesis by (auto simp: rename_path_def split: option.split)
next
  case False
  then obtain n m where nm: "normalize_path old_path VFS_MAX_PATH = Some n" "normalize_path new_path VFS_MAX_PATH = Some m"
    by auto
  show ?thesis
  proof (cases "files v n = None \<or> files v m \<noteq> None")
    case True
    then show ?thesis using rename_path_rejects [OF assms nm True] nm by simp
  next
    case False
    then have free: "files v n \<noteq> None" "files v m = None" by (simp_all del: not_None_eq)
    then obtain i where i: "find_entry v old_path = Some i"
      using find_entry_None_iff(1) [OF vfs_okD(2) [OF assms] nm(1)] by auto
    show ?thesis
    proof (cases "length m < name_cap (vroot v ! i)")
      case True
      then have "rename_fits v old_path new_path" using i nm by (simp add: rename_fits_def)
      from assms this show ?thesis
      proof (cases rule: rename_cases [of R v old_path new_path])
        case fail
        have "find_entry v (Some n) = Some i" "find_entry v (Some m) = None"
          using find_entry_normalized [OF nm(1)] find_entry_normalized [OF nm(2)] i
            find_entry_None_iff(1) [OF vfs_okD(2) [OF assms] nm(2)] free(2) by simp_all
        then show ?thesis
          using fail nm True normalize_normal [OF nm(2)] by (auto simp: rename_path_def elim: normalE)
      qed (use nm free i True in auto)
    next
      case False
      then show ?thesis using rename_path_None [OF assms nm i free(2) False] free i nm by simp
    qed
  qed
qed

theorem rename_path_correct_witness:
  "\<exists>v v'. create_file (Some ''/a'') (Some [1, 2, 3]) 3 demo_vfs = Some (v, True) \<and> rename_path (Some ''/a'') (Some ''b'') v = Some (v', True) \<and>
     files v' = [''/'' \<mapsto> (NODE_DIRECTORY, [], None), ''/b'' \<mapsto> (NODE_FILE, [1, 2, 3], None)]"
proof -
  obtain v where v: "create_file (Some ''/a'') (Some [1, 2, 3]) 3 demo_vfs = Some (v, True)" "vfs_ok {#} v"
    "files v = [''/'' \<mapsto> (NODE_DIRECTORY, [], None), ''/a'' \<mapsto> (NODE_FILE, [1, 2, 3], None)]" by (rule demo_file)
  have n: "normalize_path (Some ''/a'') VFS_MAX_PATH = Some ''/a''" "normalize_path (Some ''b'') VFS_MAX_PATH = Some ''/b''" by code_simp+
  have "length ''/b'' < name_cap (vroot v ! i)" if "find_entry v (Some ''/a'') = Some i" for i
  proof -
    have "ename (vroot v ! i) = ''/a''" "entry_ok (vroot v ! i)"
      using find_entry_SomeD [OF vfs_okD(2) [OF v(2)] that] n(1) by auto
    then show ?thesis by (auto simp: entry_ok_def)
  qed
  then obtain v' where
    "rename_path (Some ''/a'') (Some ''b'') v = Some (v', True)" "files v' = (files v)(''/a'' := None, ''/b'' := files v ''/a'')"
    using rename_path_correct [OF v(2), of "Some ''/a''" "Some ''b''"] n by (auto simp: v(3))
  then show ?thesis using v(1) by (auto simp: v(3) fun_eq_iff)
qed

end
