(* ===== verification/Vfs_Limits.thy ===== *)
theory Vfs_Limits
  imports Vfs_Props
begin

text \<open>
  Registration of devices, creation of files while there is room on the heap, and the offsets for which
  \<open>write_file_at\<close> leaves its buffer.
\<close>

lemma map_le_None: "f \<subseteq>\<^sub>m g \<Longrightarrow> g x = None \<Longrightarrow> f x = None"
  unfolding map_le_def by (metis domIff)

lemma map_le_new: "f \<subseteq>\<^sub>m g \<Longrightarrow> f x = None \<Longrightarrow> f \<subseteq>\<^sub>m g(x \<mapsto> y)"
  unfolding map_le_def by (metis domIff fun_upd_other)

text \<open>
  Registering a disk, network, USB, GPU, input or audio device always returns, as long as there are fewer than
  \<open>2 ^ 32 - 2\<close> entries, and every path that existed keeps its node. When it succeeds, the device got a number whose
  path in the directory of its class was free, \<open>get_device_info\<close> of that path returns the description passed in with this
  number and the class, and the next device of the class starts from the following number.
\<close>

lemma register_device_correct:
  assumes "vfs_ok R v" and "length (vroot v) + 2 < 2 ^ 32"
  shows "\<exists>v' ok. register_as c info v = Some (v', ok) \<and> vfs_ok R v' \<and> files v \<subseteq>\<^sub>m files v' \<and>
    (ok \<longrightarrow> (\<exists>n. counters v' c = n + 1 \<and> files v (render (class_dir c @ [decimal n])) = None \<and>
      get_device_info v' (Some (render (class_dir c @ [decimal n]))) = Some (info\<lparr>dev_type := class_type c, device_id := n\<rparr>)))"
  using assms(1) class_dir_ok [of c] assms(2)
proof (cases rule: register_device_cases [of R v "class_dir c" "class_type c" c info])
  case (fail v')
  then show ?thesis by (intro exI [of _ v'] exI [of _ False]) (simp add: register_as_eq)
next
  case (made v' w n)
  let ?p = "render (class_dir c @ [decimal n])"
  have free: "files v ?p = None" using made(3,4) by (rule map_le_None)
  have "normal ?p" using device_path(2) [OF class_dir_ok] .
  then have "get_device_info v' (Some ?p) = Some (info\<lparr>dev_type := class_type c, device_id := n\<rparr>)"
    using get_device_info_files [OF vfs_okD(2) [OF made(2)]] made(5) by (simp add: normal_def)
  moreover have "files v \<subseteq>\<^sub>m files v'" unfolding made(5) using made(3) free by (rule map_le_new)
  moreover have "counters v' c = n + 1" using made(6) by simp
  ultimately show ?thesis using made(1,2) free unfolding register_as_eq by blast
qed

lemma register_device_correct_witness:
  "\<exists>v' ok. register_as disk_counter zero_info demo_vfs = Some (v', ok) \<and> files v' ''/'' = Some (NODE_DIRECTORY, [], None) \<and>
     (if ok then \<exists>n. get_device_info v' (Some (render ([''devices'', ''disk''] @ [decimal n]))) =
        Some (zero_info\<lparr>dev_type := DEVICE_DISK, device_id := n\<rparr>) else True)"
proof -
  have "length (vroot demo_vfs) = 1" using length_files(1) [OF vfs_okD(2) [OF demo_vfs(2)]] by (simp add: demo_vfs(3))
  then have "length (vroot demo_vfs) + 2 < 2 ^ 32" by simp
  from register_device_correct [OF demo_vfs(2) this, of disk_counter zero_info]
  obtain v' ok where "register_as disk_counter zero_info demo_vfs = Some (v', ok)" "files demo_vfs \<subseteq>\<^sub>m files v'"
    "ok \<longrightarrow> (\<exists>n. get_device_info v' (Some (render ([''devices'', ''disk''] @ [decimal n]))) =
      Some (zero_info\<lparr>dev_type := DEVICE_DISK, device_id := n\<rparr>))"
    by (auto simp: class_dir_def class_type_def)
  then show ?thesis by (intro exI [of _ v'] exI [of _ ok]) (auto simp: demo_vfs(3) map_le_def)
qed

text \<open>
  C28. \<open>create_file\<close> of a new path whose parent exists succeeds while the unused part of the arena has space for the
  contents and 520 bytes more, and the file then holds the bytes given.
\<close>

theorem create_file_succeeds:
  assumes "vfs_ok R v" and "normalize_path name VFS_MAX_PATH = Some n" and "files v n = None"
    and "files v (render (butlast (components n))) \<noteq> None" and "readable data sz" and "sz = 0 \<or> data \<noteq> None"
    and "520 + unat sz \<le> heap_room (vheap v)"
  shows "\<exists>v'. create_file name data sz v = Some (v', True) \<and> vfs_ok R v' \<and> files v' = (files v)(n \<mapsto> (NODE_FILE, bytes data sz, None))"
proof -
  obtain w where w: "create_file name data sz v = Some (w, True)" using create_file_room [OF assms(1-3) _ assms(5-7)] assms(4) by blast
  from assms(1,5) show ?thesis
    by (cases rule: create_file_cases [of R v data sz name]) (use w assms(2) in auto)
qed

theorem create_file_succeeds_witness:
  "\<exists>v. create_file (Some ''a'') (Some [4]) 1 demo_vfs = Some (v, True) \<and>
     files v = [''/'' \<mapsto> (NODE_DIRECTORY, [], None), ''/a'' \<mapsto> (NODE_FILE, [4], None)]"
proof -
  have n: "normalize_path (Some ''a'') VFS_MAX_PATH = Some ''/a''" "components ''/a'' = [''a'']" by code_simp+
  have "render (butlast (components ''/a'')) = ''/''" by (simp add: n(2) render_def)
  then show ?thesis using create_file_succeeds [OF demo_vfs(2) n(1), of "Some [4]" 1] demo_vfs(3,4)
    by (auto simp: readable_def bytes_def)
qed

text \<open>
  C29. When the end of the write passes \<open>2 ^ 64\<close>, the sum wraps to a small number and the test against \<open>UINT32_MAX\<close> lets it
  through: on a file with contents, with space for the temporary buffer, \<open>write_file_at\<close> then writes outside that buffer.
\<close>

theorem write_file_at_wraps:
  assumes ok: "vfs_ok R v" and n: "normalize_path name VFS_MAX_PATH = Some n" and old: "files v n = Some (NODE_FILE, old, i)" "old \<noteq> []"
    and sz: "unat sz \<le> length d" and wrap: "2 ^ 64 \<le> unat off + unat sz"
    and room: "length old + unat sz + 64 \<le> heap_room (vheap v)"
  shows "write_file_at name off (Some d) sz False v = None"
proof -
  obtain k where k: "find_entry v name = Some k" "node (vroot v ! k) = (NODE_FILE, old, i)"
    using find_entry_files [OF vfs_okD(2) [OF ok] n] old(1) by (cases "find_entry v name") auto
  define e where "e = vroot v ! k"
  have e: "etype e = NODE_FILE" "edata e = old" "length old = unat (esize e)" "data_ptr e \<noteq> 0"
    using k(2) find_entry_SomeD(4) [OF vfs_okD(2) [OF ok] k(1)] old(2) by (auto simp: node_def entry_ok_def e_def)
  have lt: "unat off < 2 ^ 64" "unat sz < 2 ^ 32" using unsigned_less [of off, where ?'a = nat] unsigned_less [of sz, where ?'a = nat] by simp_all
  have "unat (off + ucast sz) = (unat off + unat sz) mod 2 ^ 64" by (simp add: unat_word_ariths(1))
  also have "\<dots> = unat off + unat sz - 2 ^ 64" using wrap lt by (simp add: mod_if)
  finally have sum: "unat (off + ucast sz) = unat off + unat sz - 2 ^ 64" .
  then have small: "unat (off + ucast sz) < unat sz" using lt wrap by linarith
  then have guard: "\<not> 0xffffffff < off + ucast sz" using lt(2) by (simp add: word_less_nat_alt)
  define ns :: u32 where "ns = (if ucast (esize e) < off + ucast sz then ucast (off + ucast sz) else esize e)"
  have cast: "unat (ucast (off + ucast sz) :: u32) = unat (off + ucast sz)"
    using small lt(2) by (simp add: unsigned_ucast_eq take_bit_nat_eq_self)
  have ns: "0 < unat ns" "unat ns < 2 ^ 32" "unat ns + 64 \<le> heap_room (vheap v)"
    using cast small room e(3) old(2) unsigned_less [of ns, where ?'a = nat]
    by (auto simp: ns_def word_less_nat_alt simp flip: length_greater_0_conv)
  obtain h b where h: "alloc (ucast ns) 8 (vheap v) = Some (h, b)" "b \<noteq> 0"
    using owned_room [OF vfs_okD(1) [OF ok], of "ucast ns"] ns(3) by auto
  have "sz \<noteq> 0" using small by auto
  moreover have "patched old off (take (unat sz) d) (unat ns) = None"
    using sz wrap ns(2) \<open>sz \<noteq> 0\<close> by (cases "d = []") (auto simp: patched_def Let_def unat_eq_0)
  moreover have "ns \<noteq> 0" using ns(1) by auto
  ultimately have "splice_write name e off (Some d) sz ns v = None"
    using h sz e by (simp add: splice_write_def buffer_def)
  moreover have "name \<noteq> None" using n by (cases name) auto
  ultimately show ?thesis using k(1) e(1) guard by (auto simp: write_file_at_def write_entry_at_def Let_def ns_def e_def)
qed

theorem write_file_at_wraps_witness:
  "\<exists>v. create_file (Some ''/a'') (Some [1, 2, 3]) 3 demo_vfs = Some (v, True) \<and> write_file_at (Some ''/a'') (-1) (Some [8, 9]) 2 False v = None"
proof -
  obtain v where v: "create_file (Some ''/a'') (Some [1, 2, 3]) 3 demo_vfs = Some (v, True)" "vfs_ok {#} v"
    "files v = [''/'' \<mapsto> (NODE_DIRECTORY, [], None), ''/a'' \<mapsto> (NODE_FILE, [1, 2, 3], None)]" "7000 \<le> heap_room (vheap v)" by (rule demo_file)
  have n: "normalize_path (Some ''/a'') VFS_MAX_PATH = Some ''/a''" by code_simp
  have "unat (-1 :: u64) = 2 ^ 64 - 1" by (simp add: unsigned_minus_1_eq_mask mask_eq_exp_minus_1)
  then have "2 ^ 64 \<le> unat (-1 :: u64) + unat (2 :: u32)" by simp
  moreover have "length [1, 2, 3 :: u8] + unat (2 :: u32) + 64 \<le> heap_room (vheap v)" using v(4) by simp
  ultimately have "write_file_at (Some ''/a'') (-1) (Some [8, 9]) 2 False v = None"
    by (intro write_file_at_wraps [OF v(2) n, where old = "[1, 2, 3]" and i = None]) (simp_all add: v(3))
  then show ?thesis using v(1) by blast
qed

end
