(* ===== verification/Initramfs.thy ===== *)
theory Initramfs
  imports Vfs_Limits
begin

unbundle bit_operations_syntax

text \<open>
  Mounting the initial archive, \<^verbatim>\<open>fs/initramfs.cpp\<close>: the parser of the newc CPIO format with its 64-bit offsets, the
  conversion of archive names to paths, and the installation of the entries in the file system. The archive is the list
  of its bytes; a read outside of it has no result. \<open>vfs::set_mode\<close> is not defined in the sources and is a parameter.
\<close>

section \<open>Reading the archive\<close>

definition CPIO_HEADER_SIZE :: u64 where "CPIO_HEADER_SIZE = 110"
definition CPIO_FIELD_MODE :: nat where "CPIO_FIELD_MODE = 14"
definition CPIO_FIELD_FILESIZE :: nat where "CPIO_FIELD_FILESIZE = 54"
definition CPIO_FIELD_NAMESIZE :: nat where "CPIO_FIELD_NAMESIZE = 94"
definition MAX_PATH :: nat where "MAX_PATH = 256"
definition S_IFMT_VALUE :: u32 where "S_IFMT_VALUE = 0xF000"
definition S_IFREG_VALUE :: u32 where "S_IFREG_VALUE = 0x8000"
definition S_IFDIR_VALUE :: u32 where "S_IFDIR_VALUE = 0x4000"

definition hex_value :: "u8 \<Rightarrow> u32 option" where
  "hex_value c =
     (if 0x30 \<le> c \<and> c \<le> 0x39 then Some (ucast c - 0x30)
      else if 0x61 \<le> c \<and> c \<le> 0x66 then Some (ucast c - 0x61 + 10)
      else if 0x41 \<le> c \<and> c \<le> 0x46 then Some (ucast c - 0x41 + 10)
      else None)"

fun hex_loop :: "u8 list \<Rightarrow> u32 \<Rightarrow> u32 option" where
  "hex_loop [] value = Some value"
| "hex_loop (c # cs) value = (case hex_value c of None \<Rightarrow> None | Some digit \<Rightarrow> hex_loop cs (push_bit 4 value OR digit))"

text \<open>The eight bytes at place \<open>k\<close> of the header.\<close>

definition hex_field :: "u8 list \<Rightarrow> nat \<Rightarrow> u32 option" where
  "hex_field header k = hex_loop (take 8 (drop k header)) 0"

definition align4 :: "u64 \<Rightarrow> u64" where
  "align4 value = (value + 3) AND NOT 3"

text \<open>The \<open>n\<close> bytes from an offset, without result when they are not all in the archive.\<close>

definition archive_bytes :: "u8 list \<Rightarrow> u64 \<Rightarrow> nat \<Rightarrow> u8 list option" where
  "archive_bytes archive off n = (if unat off + n \<le> length archive then Some (take n (drop (unat off) archive)) else None)"

definition newc_magic :: "u8 list" where "newc_magic = [0x30, 0x37, 0x30, 0x37, 0x30, 0x31]"

text \<open>The name \<open>TRAILER!!!\<close> with its NUL byte.\<close>

definition trailer_name :: "u8 list" where
  "trailer_name = [0x54, 0x52, 0x41, 0x49, 0x4c, 0x45, 0x52, 0x21, 0x21, 0x21, 0]"

datatype cpio_item = Reject | Trailer | Entry "u8 list" u32 "u8 list" u32 u64

text \<open>
  One round of the loop of \<open>mount\<close> up to the installation: the entry's name without its NUL byte, mode, contents, size and
  the offset of the next header.
\<close>

definition parse_body :: "u8 list \<Rightarrow> u64 \<Rightarrow> u32 \<Rightarrow> u32 \<Rightarrow> u32 \<Rightarrow> cpio_item option" where
  "parse_body archive off mode file_size name_size =
     (let archive_size = of_nat (length archive); name_offset = off + CPIO_HEADER_SIZE
      in if name_size < 2 \<or> archive_size - off - CPIO_HEADER_SIZE < ucast name_size then Some Reject
         else do {
           name \<leftarrow> archive_bytes archive name_offset (unat name_size);
           if last name \<noteq> 0 \<or> 0 \<in> set (butlast name) then Some Reject
           else
             let data_offset = align4 (name_offset + ucast name_size);
                 next_offset = align4 (data_offset + ucast file_size)
             in if data_offset < name_offset \<or> archive_size < data_offset \<or> archive_size - data_offset < ucast file_size
                then Some Reject
                else if next_offset < data_offset \<or> archive_size < next_offset then Some Reject
                else if name = trailer_name then Some Trailer
                else do {
                  data \<leftarrow> archive_bytes archive data_offset (unat file_size);
                  Some (Entry (butlast name) mode data file_size next_offset)
                }
         })"

definition parse_entry :: "u8 list \<Rightarrow> u64 \<Rightarrow> cpio_item option" where
  "parse_entry archive off =
     (if of_nat (length archive) - off < CPIO_HEADER_SIZE then Some Reject
      else do {
        header \<leftarrow> archive_bytes archive off (unat CPIO_HEADER_SIZE);
        if take 6 header \<noteq> newc_magic then Some Reject
        else case (hex_field header CPIO_FIELD_MODE, hex_field header CPIO_FIELD_FILESIZE, hex_field header CPIO_FIELD_NAMESIZE) of
          (Some mode, Some file_size, Some name_size) \<Rightarrow> parse_body archive off mode file_size name_size
        | _ \<Rightarrow> Some Reject
      })"

section \<open>Names\<close>

fun skip_dots :: "u8 list \<Rightarrow> u8 list" where
  "skip_dots (a # b # cs) = (if a = 0x2e \<and> b = 0x2f then skip_dots cs else a # b # cs)"
| "skip_dots cs = cs"

function path_loop :: "nat \<Rightarrow> u8 list \<Rightarrow> string \<Rightarrow> string option" where
  "path_loop capacity name out =
     (let rest = dropWhile (\<lambda>c. c = 0x2f) name
      in if rest = [] then Some out
         else
           let comp = takeWhile (\<lambda>c. c \<noteq> 0x2f) rest; name' = dropWhile (\<lambda>c. c \<noteq> 0x2f) rest
           in if 0 \<in> set comp then None
              else if comp = [0x2e] then path_loop capacity name' out
              else if comp = [0x2e, 0x2e] then None
              else if 1 < length out \<and> capacity \<le> length out + 1 then None
              else
                let out' = (if 1 < length out then out @ [CHR ''/''] else out)
                in if capacity - length out' \<le> length comp then None
                   else path_loop capacity name' (out' @ map (\<lambda>c. char_of (unat c)) comp))"
  by pat_completeness auto

lemma drop_component:
  assumes "rest = dropWhile (\<lambda>c. c = b) name" and "rest \<noteq> []"
  shows "length (dropWhile (\<lambda>c. c \<noteq> b) rest) < length name"
proof -
  have "hd rest = b \<longrightarrow> False" using hd_dropWhile [of "\<lambda>c. c = b" name] assms by auto
  then have "length (dropWhile (\<lambda>c. c \<noteq> b) rest) < length rest"
    using assms(2) length_dropWhile_le [of "\<lambda>c. c \<noteq> b" "tl rest"] by (cases rest) auto
  also have "\<dots> \<le> length name" unfolding assms(1) by (rule length_dropWhile_le)
  finally show ?thesis .
qed

termination path_loop
  by (relation "measure (\<lambda>(cap, name, out). length name)") (auto simp: drop_component)

declare path_loop.simps [simp del]

definition make_path :: "u8 list \<Rightarrow> nat \<Rightarrow> string option" where
  "make_path name capacity =
     (if capacity < 2 \<or> name = [] then None
      else
        let rest = skip_dots name
        in if rest = [] \<or> rest = [0x2e] then Some ''/''
           else if hd rest = 0x2f then None
           else path_loop capacity rest ''/'')"

section \<open>Installing entries\<close>

fun ensure_loop :: "string \<Rightarrow> nat list \<Rightarrow> vfs \<Rightarrow> (vfs \<times> bool) option" where
  "ensure_loop path [] v = Some (v, True)"
| "ensure_loop path (i # is) v =
     (if i < length path \<and> path ! i \<noteq> CHR ''/'' then ensure_loop path is v
      else
        let parent = Some (take i path)
        in if \<not> exists_path v parent
           then do { (v, ok) \<leftarrow> create_directory parent v; if ok then ensure_loop path is v else Some (v, False) }
           else if \<not> is_directory v parent then Some (v, False)
           else ensure_loop path is v)"

definition ensure_directory :: "string \<Rightarrow> vfs \<Rightarrow> (vfs \<times> bool) option" where
  "ensure_directory path v =
     (if char_at path 0 \<noteq> CHR ''/'' then Some (v, False)
      else if length path = 1 then Some (v, True)
      else if MAX_PATH \<le> length path then Some (v, False)
      else ensure_loop path [1..<length path + 1] v)"

text \<open>The part of \<open>install_entry\<close> after the parent directories.\<close>

definition install_node ::
  "(string \<Rightarrow> u32 \<Rightarrow> vfs \<Rightarrow> vfs) \<Rightarrow> string \<Rightarrow> u32 \<Rightarrow> u8 list \<Rightarrow> u32 \<Rightarrow> vfs \<Rightarrow> (vfs \<times> bool) option" where
  "install_node set_mode path mode data sz v =
     (let type = mode AND S_IFMT_VALUE
      in if type = S_IFDIR_VALUE then
           if exists_path v (Some path) then Some (v, is_directory v (Some path)) else create_directory (Some path) v
         else if type \<noteq> S_IFREG_VALUE then Some (v, False)
         else if exists_path v (Some path) then Some (v, False)
         else do {
           (v, ok) \<leftarrow> create_file (Some path) (Some data) sz v;
           Some (if ok then (set_mode path (mode AND 0xFFF) v, True) else (v, False))
         })"

definition install_entry ::
  "(string \<Rightarrow> u32 \<Rightarrow> vfs \<Rightarrow> vfs) \<Rightarrow> string \<Rightarrow> u32 \<Rightarrow> u8 list \<Rightarrow> u32 \<Rightarrow> vfs \<Rightarrow> (vfs \<times> bool) option" where
  "install_entry set_mode path mode data sz v =
     (if path = ''/'' then Some (v, mode AND S_IFMT_VALUE = S_IFDIR_VALUE)
      else if MAX_PATH \<le> length path then Some (v, False)
      else
        let slash = find_slash path (length path)
        in do {
          (v, ok) \<leftarrow> (if 0 < slash then ensure_directory (take slash path) v else Some (v, True));
          if ok then install_node set_mode path mode data sz v else Some (v, False)
        })"

definition valid_shell :: "vfs \<Rightarrow> bool" where
  "valid_shell v =
     (case read_file v (Some ''/bin/sh'') of
        (Some shell, sz) \<Rightarrow> 5 \<le> sz \<and> take 5 shell = [0x7f, 0x45, 0x4c, 0x46, 2]
      | _ \<Rightarrow> False)"

section \<open>The loop over the archive\<close>

lemma header_fits:
  fixes off size :: u64
  assumes "\<not> size - off < CPIO_HEADER_SIZE" and "off < size"
  shows "unat off + 110 \<le> unat size" and "unat (off + CPIO_HEADER_SIZE) = unat off + 110"
    and "unat (size - off - CPIO_HEADER_SIZE) = unat size - unat off - 110"
proof -
  have d: "unat (size - off) = unat size - unat off" using assms(2) by (simp add: unat_sub order_less_imp_le)
  moreover have "110 \<le> unat (size - off)" using assms(1) by (simp add: CPIO_HEADER_SIZE_def not_less word_le_nat_alt)
  ultimately show le: "unat off + 110 \<le> unat size" by simp
  show "unat (size - off - CPIO_HEADER_SIZE) = unat size - unat off - 110"
    using d assms(1) by (simp add: unat_sub not_less CPIO_HEADER_SIZE_def)
  have "unat off + 110 < 2 ^ 64" using le unsigned_less [of size, where ?'a = nat] by simp
  then show "unat (off + CPIO_HEADER_SIZE) = unat off + 110" by (simp add: CPIO_HEADER_SIZE_def unat_word_ariths(1))
qed

lemma parse_entry_body:
  assumes "parse_entry archive off = Some (Entry name mode data sz nx)"
  obtains m s ns where "parse_body archive off m s ns = Some (Entry name mode data sz nx)" "\<not> of_nat (length archive) - off < CPIO_HEADER_SIZE"
  using assms by (auto simp: parse_entry_def bind_eq_Some_conv split: if_splits option.splits)

lemma parse_entry_next:
  assumes "parse_entry archive off = Some (Entry name mode data sz nx)" and "off < of_nat (length archive)"
  shows "off < nx" and "nx \<le> of_nat (length archive)"
proof -
  obtain m s ns where b: "parse_body archive off m s ns = Some (Entry name mode data sz nx)" "\<not> of_nat (length archive) - off < CPIO_HEADER_SIZE"
    using parse_entry_body [OF assms(1)] .
  have "unat off < unat (off + CPIO_HEADER_SIZE)" using header_fits(2) [OF b(2) assms(2)] by simp
  then have "off < off + CPIO_HEADER_SIZE" by (simp add: word_less_nat_alt)
  moreover have "off + CPIO_HEADER_SIZE \<le> nx \<and> nx \<le> of_nat (length archive)"
    using b(1) by (auto simp: parse_body_def Let_def bind_eq_Some_conv not_less split: if_splits)
  ultimately show "off < nx" "nx \<le> of_nat (length archive)" by auto
qed

text \<open>The loop of \<open>mount\<close> from an offset; the result says whether it left through the trailer.\<close>

function mount_loop :: "(string \<Rightarrow> u32 \<Rightarrow> vfs \<Rightarrow> vfs) \<Rightarrow> u8 list \<Rightarrow> u64 \<Rightarrow> vfs \<Rightarrow> (vfs \<times> bool) option" where
  "mount_loop set_mode archive off v =
     (if \<not> off < of_nat (length archive) then Some (v, False)
      else case parse_entry archive off of
        None \<Rightarrow> None
      | Some Reject \<Rightarrow> Some (v, False)
      | Some Trailer \<Rightarrow> Some (v, True)
      | Some (Entry name mode data sz nx) \<Rightarrow>
          (case make_path name MAX_PATH of
             None \<Rightarrow> Some (v, False)
           | Some path \<Rightarrow>
               (case install_entry set_mode path mode data sz v of
                  None \<Rightarrow> None
                | Some (v, ok) \<Rightarrow> if ok then mount_loop set_mode archive nx v else Some (v, False))))"
  by pat_completeness auto

termination mount_loop
proof (relation "measure (\<lambda>(set_mode, archive, off, v). 2 ^ 64 - unat off)", goal_cases)
  case (2 set_mode archive off v i name mode data sz nx)
  then have "unat off < unat nx" using parse_entry_next(1) [of archive off name mode data sz nx] by (simp add: word_less_nat_alt)
  then show ?case using unsigned_less [of nx, where ?'a = nat] by simp
qed simp

declare mount_loop.simps [simp del]

definition mount :: "(string \<Rightarrow> u32 \<Rightarrow> vfs \<Rightarrow> vfs) \<Rightarrow> u8 list \<Rightarrow> vfs \<Rightarrow> (vfs \<times> bool) option" where
  "mount set_mode archive v =
     (if archive = [] then Some (v, False)
      else do {
        v \<leftarrow> initialize_devices v;
        (v, found_trailer) \<leftarrow> mount_loop set_mode archive 0 v;
        Some (v, found_trailer \<and> valid_shell v)
      })"

section \<open>The parser\<close>

text \<open>Every read of the parser is inside the archive, and what it passes on is complete.\<close>

lemma parse_entry_total:
  assumes "off < of_nat (length archive)" and "length archive < 2 ^ 64"
  shows "\<exists>r. parse_entry archive off = Some r \<and> (case r of Entry name mode data sz nx \<Rightarrow> length data = unat sz \<and> 0 \<notin> set name | _ \<Rightarrow> True)"
proof (cases "of_nat (length archive) - off < CPIO_HEADER_SIZE")
  case True
  then show ?thesis by (simp add: parse_entry_def)
next
  case False
  have len: "unat (of_nat (length archive) :: u64) = length archive" using assms(2) by (intro unat_of_nat_64) simp
  note h = header_fits [OF False assms(1), unfolded len]
  have "archive_bytes archive off (unat CPIO_HEADER_SIZE) \<noteq> None" using h(1) by (simp add: archive_bytes_def CPIO_HEADER_SIZE_def)
  moreover have "\<exists>r. parse_body archive off mode sz ns = Some r \<and>
      (case r of Entry name mode data sz nx \<Rightarrow> length data = unat sz \<and> 0 \<notin> set name | _ \<Rightarrow> True)" for mode sz ns
  proof (cases "of_nat (length archive) - off - CPIO_HEADER_SIZE < ucast ns")
    case True
    then show ?thesis by (simp add: parse_body_def)
  next
    case in1: False
    then have "archive_bytes archive (off + CPIO_HEADER_SIZE) (unat ns) = Some (take (unat ns) (drop (unat off + 110) archive))"
      using h by (simp add: archive_bytes_def not_less word_le_nat_alt)
    moreover have "\<exists>d. archive_bytes archive x (unat sz) = Some d \<and> length d = unat sz"
      if "\<not> of_nat (length archive) < x" "\<not> of_nat (length archive) - x < ucast sz" for x
    proof -
      have "unat x \<le> length archive" using that(1) len by (simp add: not_less word_le_nat_alt)
      moreover have "unat (of_nat (length archive) - x) = length archive - unat x" using that(1) len by (simp add: unat_sub not_less)
      ultimately show ?thesis using that(2) by (simp add: archive_bytes_def not_less word_le_nat_alt)
    qed
    ultimately show ?thesis by (fastforce simp: parse_body_def Let_def split: option.split)
  qed
  ultimately show ?thesis using False by (auto simp: parse_entry_def split: option.split)
qed

end
