(* ===== verification/Initramfs_Names.thy ===== *)
theory Initramfs_Names
  imports Initramfs
begin

text \<open>
  The names of the archive: \<open>make_path\<close> computes the path of the components other than the dot, and rejects absolute names and
  names with two dots as a component.
\<close>

lemma components_dropWhile: "components (dropWhile (\<lambda>c. c = slash) s) = components s"
  by (simp add: components.simps [of s] components.simps [of "dropWhile (\<lambda>c. c = slash) s"] dropWhile_idem)

lemma components_Nil [simp]: "components [] = []"
  by (simp add: components.simps [of "[]"])

lemma first_component:
  assumes "t = dropWhile (\<lambda>c. c = slash) s" and "t \<noteq> []"
  obtains w t' where "t = w @ t'" "component w" "t' = [] \<or> (\<exists>u. t' = slash # u)" "w = takeWhile (\<lambda>c. c \<noteq> slash) t"
    "t' = dropWhile (\<lambda>c. c \<noteq> slash) t"
proof
  let ?w = "takeWhile (\<lambda>c. c \<noteq> slash) t" and ?t = "dropWhile (\<lambda>c. c \<noteq> slash) t"
  have "hd t \<noteq> slash" using hd_dropWhile [of "\<lambda>c. c = slash" s] assms by auto
  then show "component ?w" using assms(2) by (cases t) (auto simp: component_def dest: set_takeWhileD)
  show "?t = [] \<or> (\<exists>u. ?t = slash # u)" using hd_dropWhile [of "\<lambda>c. c \<noteq> slash" t] by (cases ?t) auto
qed simp_all

lemma components_append: "components (xs @ slash # ys) = components xs @ components ys"
proof (induction xs rule: components.induct)
  case (1 xs)
  define t where "t = dropWhile (\<lambda>c. c = slash) xs"
  show ?case
  proof (cases "t = []")
    case True
    then have "dropWhile (\<lambda>c. c = slash) (xs @ slash # ys) = dropWhile (\<lambda>c. c = slash) ys"
      unfolding t_def by (induction xs) (auto split: if_splits)
    moreover have "components xs = []" using True by (simp add: components.simps [of xs] t_def)
    ultimately show ?thesis by (metis append_Nil components_dropWhile)
  next
    case False
    obtain w t' where w: "t = w @ t'" "component w" "t' = [] \<or> (\<exists>u. t' = slash # u)" "t' = dropWhile (\<lambda>c. c \<noteq> slash) t"
      using first_component [OF t_def False] by metis
    have d: "dropWhile (\<lambda>c. c = slash) (xs @ slash # ys) = t @ slash # ys"
      using False unfolding t_def by (induction xs) (auto split: if_splits)
    have IH: "components (t' @ slash # ys) = components t' @ components ys" using 1 [OF t_def False] w(4) by simp
    have step: "components (w @ r) = w # components r" if "r = [] \<or> (\<exists>u. r = slash # u)" for r
      using components_step [OF w(2)] that by (auto simp: components_slash)
    have "components xs = components t" using components_dropWhile [of xs] by (simp add: t_def)
    then have "components xs = w # components t'" using step [OF w(3)] w(1) by simp
    moreover have "components (t @ slash # ys) = w # components (t' @ slash # ys)"
      using step [of "t' @ slash # ys"] w(1,3) by auto
    ultimately show ?thesis using IH d components_dropWhile [of "xs @ slash # ys"] by simp
  qed
qed

section \<open>Bytes and characters\<close>

definition chars :: "u8 list \<Rightarrow> string" where
  "chars bs = map (\<lambda>c. char_of (unat c)) bs"

lemma char_byte: "(char_of (unat (c :: u8)) = ch) \<longleftrightarrow> unat c = of_char ch" "inj (\<lambda>c :: u8. char_of (unat c) :: char)"
proof -
  have "unat c < 256" for c :: u8 using unsigned_less [of c, where ?'a = nat] by simp
  then have of: "of_char (char_of (unat c)) = unat c" for c :: u8 by simp
  show "(char_of (unat c) = ch) \<longleftrightarrow> unat c = of_char ch" using of [of c] by auto
  show "inj (\<lambda>c :: u8. char_of (unat c) :: char)" by (rule injI) (metis of word_unat_eq_iff)
qed

lemma slash_byte: "(char_of (unat (c :: u8)) = slash) \<longleftrightarrow> c = 0x2f"
  by (simp add: char_byte word_unat_eq_iff)

lemma chars_while:
  "takeWhile (\<lambda>c. c \<noteq> slash) (chars bs) = chars (takeWhile (\<lambda>c. c \<noteq> 0x2f) bs)"
  "dropWhile (\<lambda>c. c \<noteq> slash) (chars bs) = chars (dropWhile (\<lambda>c. c \<noteq> 0x2f) bs)"
  "dropWhile (\<lambda>c. c = slash) (chars bs) = chars (dropWhile (\<lambda>c. c = 0x2f) bs)"
  by (simp_all add: chars_def takeWhile_map dropWhile_map comp_def slash_byte)

lemma chars_dots: "chars bs = ''.'' \<longleftrightarrow> bs = [0x2e]" "chars bs = ''..'' \<longleftrightarrow> bs = [0x2e, 0x2e]" "chars bs = [] \<longleftrightarrow> bs = []"
proof -
  have inj: "chars as = chars bs \<longleftrightarrow> as = bs" for as unfolding chars_def by (rule inj_map_eq_map [OF char_byte(2)])
  have dot: "char_of (46 :: nat) = CHR ''.''" by (simp add: char_of_eq_iff)
  have "''.'' = chars [0x2e]" "''..'' = chars [0x2e, 0x2e]" "[] = chars []" by (simp_all add: chars_def dot)
  then show "chars bs = ''.'' \<longleftrightarrow> bs = [0x2e]" "chars bs = ''..'' \<longleftrightarrow> bs = [0x2e, 0x2e]" "chars bs = [] \<longleftrightarrow> bs = []"
    using inj by metis+
qed

abbreviation (input) proper :: "string list \<Rightarrow> string list" where
  "proper cs \<equiv> filter (\<lambda>c. c \<noteq> ''.'') cs"

lemma render_snoc: "render (ds @ [c]) = (if 1 < length (render ds) \<and> ds \<noteq> [] then render ds @ [slash] else render ds) @ c" if "list_all component ds"
proof (cases ds)
  case (Cons d es)
  then have "1 < length (render ds)" using that by (cases d) (auto simp: render_def component_def)
  then show ?thesis using Cons by (simp add: render_def)
qed (simp add: render_def)

lemma length_render_append: "length (render ds) \<le> length (render (ds @ cs))"
  by (cases "ds = []"; cases "cs = []"; cases cs; auto simp: render_def)

lemma path_loop_step:
  fixes name :: "u8 list" and ds :: "string list" and cap :: nat
  defines "rest \<equiv> dropWhile (\<lambda>c. c = 0x2f) name"
  defines "cmp \<equiv> takeWhile (\<lambda>c. c \<noteq> 0x2f) rest" and "name' \<equiv> dropWhile (\<lambda>c. c \<noteq> 0x2f) rest"
  assumes ok: "0 \<notin> set name" "list_all component ds" and ne: "rest \<noteq> []"
  shows "components (chars name) = chars cmp # components (chars name')" and "component (chars cmp)"
    and "length name' < length name" and "0 \<notin> set name'"
    and "path_loop cap name (render ds) = (if cmp = [0x2e] then path_loop cap name' (render ds) else if cmp = [0x2e, 0x2e] then None
        else if cap \<le> length (render (ds @ [chars cmp])) then None else path_loop cap name' (render (ds @ [chars cmp])))"
proof -
  show cs: "components (chars name) = chars cmp # components (chars name')"
    using ne by (simp add: components.simps [of "chars name"] chars_while chars_dots rest_def [symmetric] cmp_def name'_def Let_def)
  show "length name' < length name" unfolding name'_def using drop_component [OF meta_eq_to_obj_eq [OF rest_def] ne] .
  show "0 \<notin> set name'" using ok(1) unfolding name'_def rest_def by (auto dest!: set_dropWhileD)
  show c: "component (chars cmp)" using components_ok [of "chars name"] cs by simp
  let ?out = "if 1 < length (render ds) then render ds @ [slash] else render ds"
  have "1 < length (render ds) \<longleftrightarrow> ds \<noteq> []"
    using ok(2) by (cases ds; cases "hd ds") (auto simp: render_def component_def)
  then have nxt: "?out @ chars cmp = render (ds @ [chars cmp])" using render_snoc [OF ok(2)] by auto
  have len: "length ?out + length cmp = length (render (ds @ [chars cmp]))"
    unfolding nxt [symmetric] by (simp add: chars_def)
  have "0 \<notin> set cmp" using ok(1) unfolding cmp_def rest_def by (auto dest!: set_takeWhileD set_dropWhileD)
  moreover have "cap \<le> length (render ds) + 1 \<Longrightarrow> 1 < length (render ds) \<Longrightarrow> cap \<le> length (render (ds @ [chars cmp]))"
    using len c by (simp add: component_def chars_def)
  moreover have "cap - length ?out \<le> length cmp \<longleftrightarrow> cap \<le> length (render (ds @ [chars cmp]))" using len by linarith
  ultimately show "path_loop cap name (render ds) = (if cmp = [0x2e] then path_loop cap name' (render ds) else if cmp = [0x2e, 0x2e] then None
        else if cap \<le> length (render (ds @ [chars cmp])) then None else path_loop cap name' (render (ds @ [chars cmp])))"
    using ne nxt
    by (simp add: path_loop.simps [of cap name] rest_def [symmetric] cmp_def [symmetric] name'_def [symmetric] Let_def chars_def)
qed

lemma path_loop_eq:
  assumes "0 \<notin> set name" and "list_all component ds" and "length (render ds) < cap"
  shows "path_loop cap name (render ds) =
    (if ''..'' \<in> set (components (chars name)) \<or> cap \<le> length (render (ds @ proper (components (chars name)))) then None
     else Some (render (ds @ proper (components (chars name)))))"
  using assms
proof (induction "length name" arbitrary: name ds rule: less_induct)
  case less
  define rest where "rest = dropWhile (\<lambda>c. c = 0x2f) name"
  show ?case
  proof (cases "rest = []")
    case True
    then have "components (chars name) = []" by (simp add: components.simps [of "chars name"] chars_while chars_dots rest_def)
    then show ?thesis using True less.prems(3) by (simp add: path_loop.simps [of cap name] rest_def [symmetric])
  next
    case False
    define cmp where "cmp = takeWhile (\<lambda>c. c \<noteq> 0x2f) rest"
    define name' where "name' = dropWhile (\<lambda>c. c \<noteq> 0x2f) rest"
    note step = path_loop_step [OF less.prems(1,2), folded rest_def, OF False, folded cmp_def name'_def]
    have ok': "list_all component (ds @ [chars cmp])" using less.prems(2) step(2) by simp
    note IH = less.hyps [OF step(3,4)]
    have dots: "chars cmp = ''.'' \<longleftrightarrow> cmp = [0x2e]" "chars cmp = ''..'' \<longleftrightarrow> cmp = [0x2e, 0x2e]" by (simp_all add: chars_dots)
    have long: "cap \<le> length (render (ds @ [chars cmp])) \<Longrightarrow> cap \<le> length (render (ds @ chars cmp # proper (components (chars name'))))"
      using length_render_append [of "ds @ [chars cmp]" "proper (components (chars name'))"] by simp
    show ?thesis
      using IH [OF less.prems(2,3)] IH [OF ok'] step(1,5) dots long by (cases "cmp = [0x2e]"; cases "cmp = [0x2e, 0x2e]") auto
  qed
qed

section \<open>The path of a name\<close>

lemma skip_dots_facts:
  "''..'' \<in> set (components (chars (skip_dots name))) \<longleftrightarrow> ''..'' \<in> set (components (chars name))"
  "proper (components (chars (skip_dots name))) = proper (components (chars name))"
  "set (skip_dots name) \<subseteq> set name"
proof (induction name rule: skip_dots.induct)
  case (1 a b cs)
  have "chars (0x2e # 0x2f # cs) = ''.'' @ slash # chars cs" using chars_dots(1) [of "[0x2e]"] slash_byte [of "0x2f"] by (simp add: chars_def)
  then have "components (chars (0x2e # 0x2f # cs)) = ''.'' # components (chars cs)"
    using components_step(1) [of "''.''" "chars cs"] by (simp add: component_def)
  then show "''..'' \<in> set (components (chars (skip_dots (a # b # cs)))) \<longleftrightarrow> ''..'' \<in> set (components (chars (a # b # cs)))"
    "proper (components (chars (skip_dots (a # b # cs)))) = proper (components (chars (a # b # cs)))"
    "set (skip_dots (a # b # cs)) \<subseteq> set (a # b # cs)"
    using 1 by auto
qed auto

lemma make_path_eq:
  assumes "0 \<notin> set name"
  shows "make_path name MAX_PATH =
    (if name = [] \<or> (skip_dots name \<noteq> [] \<and> hd (skip_dots name) = 0x2f) \<or> ''..'' \<in> set (components (chars name)) \<or>
        MAX_PATH \<le> length (render (proper (components (chars name))))
     then None else Some (render (proper (components (chars name)))))"
proof -
  note f = skip_dots_facts [of name]
  have root: "render [] = ''/''" by (simp add: render_def)
  show ?thesis
  proof (cases "skip_dots name = [] \<or> skip_dots name = [0x2e]")
    case True
    then have cs: "components (chars (skip_dots name)) = [] \<or> components (chars (skip_dots name)) = [''.'']"
      using chars_dots(1,3) [of "skip_dots name"] components_step(2) [of "''.''"] by (auto simp: component_def)
    then have "proper (components (chars name)) = []" "''..'' \<notin> set (components (chars name))" using f(1,2) by auto
    then show ?thesis using True root by (auto simp: make_path_def MAX_PATH_def)
  next
    case False
    have "0 \<notin> set (skip_dots name)" using f(3) assms by blast
    then have "path_loop MAX_PATH (skip_dots name) (render []) = (if ''..'' \<in> set (components (chars name)) \<or>
        MAX_PATH \<le> length (render (proper (components (chars name)))) then None else Some (render (proper (components (chars name)))))"
      using path_loop_eq [of "skip_dots name" "[]" MAX_PATH] f(1,2) root by (simp add: MAX_PATH_def)
    then show ?thesis using False root by (auto simp: make_path_def MAX_PATH_def Let_def)
  qed
qed

text \<open>
  For a name without NUL bytes, \<open>make_path\<close> fails on the empty name, on an absolute name (one that starts with a slash
  behind any number of leading dot-slashes), on a name with the component \<open>..\<close> and when the path does not fit; otherwise it gives the
  absolute path of the components other than \<open>.\<close>. So no archive name leads out of the directory it is installed in.
\<close>

lemma make_path_correct:
  assumes "0 \<notin> set name"
  shows "make_path name MAX_PATH =
    (if name = [] \<or> (skip_dots name \<noteq> [] \<and> hd (skip_dots name) = 0x2f) \<or> ''..'' \<in> set (components (chars name)) \<or>
        MAX_PATH \<le> length (render (proper (components (chars name))))
     then None else Some (render (proper (components (chars name)))))"
  using assms by (rule make_path_eq)

lemma make_path_correct_witness:
  "make_path [0x2e, 0x2f, 0x62, 0x2f, 0x2f, 0x2e, 0x2f, 0x73] MAX_PATH = Some ''/b/s'' \<and> make_path [0x62, 0x2f, 0x2e, 0x2e] MAX_PATH = None"
proof -
  have c: "components (chars [0x2e, 0x2f, 0x62, 0x2f, 0x2f, 0x2e, 0x2f, 0x73]) = [''.'', ''b'', ''.'', ''s'']"
    "components (chars [0x62, 0x2f, 0x2e, 0x2e]) = [''b'', ''..'']"
    by code_simp+
  show ?thesis
    using make_path_correct [of "[0x2e, 0x2f, 0x62, 0x2f, 0x2f, 0x2e, 0x2f, 0x73]"] make_path_correct [of "[0x62, 0x2f, 0x2e, 0x2e]"]
    by (simp add: c render_def MAX_PATH_def)
qed

end
