(* ===== verification/Initramfs_Props.thy ===== *)
theory Initramfs_Props
  imports Initramfs_Names
begin

unbundle bit_operations_syntax

text \<open>
  Mounting an arbitrary archive is safe, and the parser reads back what an archive writer for the newc format wrote.
\<close>

section \<open>Growth of the file system\<close>

text \<open>Nothing that existed changed, and no new path has the component \<open>..\<close>.\<close>

definition grows :: "u64 multiset \<Rightarrow> vfs \<Rightarrow> vfs \<Rightarrow> bool" where
  "grows R v v' \<longleftrightarrow> vfs_ok R v' \<and> files v \<subseteq>\<^sub>m files v' \<and> (\<forall>n. files v n = None \<and> files v' n \<noteq> None \<longrightarrow> ''..'' \<notin> set (components n))"

lemma grows_refl: "vfs_ok R v \<Longrightarrow> grows R v v"
  by (auto simp: grows_def)

lemma grows_ok: "grows R v v' \<Longrightarrow> vfs_ok R v'"
  by (simp add: grows_def)

lemma grows_trans:
  assumes "grows R u v" and "grows R v w"
  shows "grows R u w"
proof -
  have "''..'' \<notin> set (components n)" if "files u n = None" "files w n \<noteq> None" for n
    using assms that by (cases "files v n") (auto simp: grows_def)
  moreover have "files u \<subseteq>\<^sub>m files w" using assms map_le_trans [of "files u" "files v" "files w"] by (simp add: grows_def)
  ultimately show ?thesis using assms by (simp add: grows_def)
qed

lemma grows_same: "vfs_ok R v' \<Longrightarrow> files v' = files v \<Longrightarrow> grows R v v'"
  by (auto simp: grows_def)

lemma grows_new:
  assumes "vfs_ok R v'" and "normalize_path (Some p) VFS_MAX_PATH = Some n" and "''..'' \<notin> set (components p)"
    and "files v n = None" and "files v' = (files v)(n \<mapsto> x)"
  shows "grows R v v'"
proof -
  have "components n = components p"
    using assms(2) components_render [OF components_ok [of p]] by (auto simp: normalize_eq split: if_splits)
  then show ?thesis using assms map_le_new [OF map_le_refl, of "files v" n x] by (auto simp: grows_def split: if_splits)
qed

lemma create_directory_grows:
  assumes ok: "vfs_ok R v" and p: "''..'' \<notin> set (components p)"
  shows "\<exists>v' b. create_directory (Some p) v = Some (v', b) \<and> grows R v v'"
  using ok
proof (cases rule: create_directory_cases [of R v "Some p"])
  case (fail v')
  then show ?thesis using grows_same [of R v' v] by (auto simp: files_def)
next
  case (made v' n)
  then show ?thesis using grows_new [OF made(2,4) p made(5,7)] by blast
qed

lemma create_file_grows:
  assumes ok: "vfs_ok R v" and p: "''..'' \<notin> set (components p)" and d: "readable data sz"
  shows "\<exists>v' b. create_file (Some p) data sz v = Some (v', b) \<and> grows R v v'"
  using ok d
proof (cases rule: create_file_cases [of R v data sz "Some p"])
  case (fail v')
  then show ?thesis using grows_same [of R v' v] by (auto simp: files_def)
next
  case (made v' n)
  then show ?thesis using grows_new [OF made(2,4) p made(5,6)] by blast
qed

lemma ensure_all_grows:
  "\<lbrakk>vfs_ok R v; list_all (\<lambda>d. ''..'' \<notin> set (components d)) ds\<rbrakk> \<Longrightarrow> \<exists>v'. ensure_all ds v = Some v' \<and> grows R v v'"
proof (induction ds arbitrary: v)
  case Nil
  then show ?case by (simp add: grows_refl)
next
  case (Cons d ds)
  obtain w b where w: "ensure_path d v = Some (w, b)" "grows R v w"
    using create_directory_grows [OF Cons.prems(1), of d] Cons.prems grows_refl by (cases "exists_path v (Some d)") (auto simp: ensure_path_def)
  then show ?case using Cons.IH [OF grows_ok [OF w(2)]] Cons.prems(2) grows_trans [OF w(2)] by auto
qed

lemma initialize_devices_grows:
  assumes ok: "vfs_ok R v"
  shows "\<exists>v'. initialize_devices v = Some v' \<and> grows R v v'"
proof -
  have root: "''..'' \<notin> set (components [slash])" by (simp add: components_slash)
  have "\<exists>w x. (if find_entry v (Some [slash]) = None then allocate_entry (Some [slash]) NODE_DIRECTORY v else Some (v, None)) = Some (w, x) \<and> grows R v w"
    using ok
  proof (cases rule: allocate_entry_cases [of R v "Some [slash]" NODE_DIRECTORY])
    case (fail h)
    then show ?thesis using grows_refl [OF ok] grows_same [OF fail(2), of v] by (simp add: files_def)
  next
    case (made n h np ep)
    then show ?thesis using grows_refl [OF ok] grows_new [OF made(5,1) root made(2,6)] by auto
  qed
  then obtain w x where w: "(if find_entry v (Some [slash]) = None then allocate_entry (Some [slash]) NODE_DIRECTORY v else Some (v, None)) = Some (w, x)"
    "grows R v w" by blast
  have "list_all (\<lambda>d. ''..'' \<notin> set (components d)) base_directories" by code_simp
  then obtain v' where "ensure_all base_directories w = Some v'" "grows R w v'" using ensure_all_grows [OF grows_ok [OF w(2)]] by blast
  then show ?thesis using grows_trans [OF w(2)] by (simp add: initialize_devices_def w(1))
qed

section \<open>Installing\<close>

lemma prefix_components:
  assumes "i = length p \<or> i < length p \<and> p ! i = slash"
  shows "set (components (take i p)) \<subseteq> set (components p)"
proof (cases "i = length p")
  case False
  then have "p = take i p @ slash # drop (Suc i) p" using assms id_take_nth_drop [of i p] by auto
  then have "components p = components (take i p) @ components (drop (Suc i) p)" by (metis components_append)
  then show ?thesis by auto
qed simp

lemma ensure_loop_grows:
  assumes "''..'' \<notin> set (components p)"
  shows "\<lbrakk>vfs_ok R v; \<forall>i \<in> set is. i \<le> length p\<rbrakk> \<Longrightarrow> \<exists>v' b. ensure_loop p is v = Some (v', b) \<and> grows R v v'"
proof (induction "is" arbitrary: v)
  case Nil
  then show ?case using grows_refl by auto
next
  case (Cons i "is")
  show ?case
  proof (cases "i < length p \<and> p ! i \<noteq> slash")
    case True
    then show ?thesis using Cons by simp
  next
    case False
    then have "i = length p \<or> i < length p \<and> p ! i = slash" using Cons.prems(2) by auto
    then have clean: "''..'' \<notin> set (components (take i p))" using prefix_components [of i p] assms by blast
    obtain w b where w: "create_directory (Some (take i p)) v = Some (w, b)" "grows R v w"
      using create_directory_grows [OF Cons.prems(1) clean] by blast
    have "\<exists>v' b. ensure_loop p is w = Some (v', b) \<and> grows R v v'"
      using Cons.IH [OF grows_ok [OF w(2)]] Cons.prems(2) grows_trans [OF w(2)] by auto
    then show ?thesis using False w Cons.IH [OF Cons.prems(1)] Cons.prems grows_refl by (auto simp: Let_def)
  qed
qed

lemma ensure_directory_grows:
  assumes "vfs_ok R v" and "''..'' \<notin> set (components p)"
  shows "\<exists>v' b. ensure_directory p v = Some (v', b) \<and> grows R v v'"
  using ensure_loop_grows [OF assms(2,1), of "[1..<length p + 1]"] grows_refl [OF assms(1)]
  by (auto simp: ensure_directory_def)

text \<open>What the development relies on of \<open>vfs::set_mode\<close>: changing permission bits changes no node.\<close>

definition keeps_nodes :: "u64 multiset \<Rightarrow> (string \<Rightarrow> u32 \<Rightarrow> vfs \<Rightarrow> vfs) \<Rightarrow> bool" where
  "keeps_nodes R set_mode \<longleftrightarrow> (\<forall>p m v. vfs_ok R v \<longrightarrow> vfs_ok R (set_mode p m v) \<and> files (set_mode p m v) = files v)"

lemma install_node_grows:
  assumes ok: "vfs_ok R v" and p: "''..'' \<notin> set (components p)" and d: "length data = unat sz" and m: "keeps_nodes R set_mode"
  shows "\<exists>v' b. install_node set_mode p mode data sz v = Some (v', b) \<and> grows R v v'"
proof -
  have "readable (Some data) sz" using d by (simp add: readable_def)
  then obtain w b where w: "create_file (Some p) (Some data) sz v = Some (w, b)" "grows R v w" using create_file_grows [OF ok p] by blast
  have "grows R v (set_mode p x w)" for x
    using m grows_ok [OF w(2)] grows_trans [OF w(2) grows_same] by (simp add: keeps_nodes_def)
  then show ?thesis using create_directory_grows [OF ok p] w grows_refl [OF ok] by (auto simp: install_node_def Let_def)
qed

lemma install_entry_grows:
  assumes ok: "vfs_ok R v" and p: "''..'' \<notin> set (components p)" and d: "length data = unat sz" and m: "keeps_nodes R set_mode"
  shows "\<exists>v' b. install_entry set_mode p mode data sz v = Some (v', b) \<and> grows R v v'"
proof -
  let ?k = "find_slash p (length p)"
  have k: "?k < length p \<and> p ! ?k = slash" if "0 < ?k"
  proof -
    have "n \<le> length p \<Longrightarrow> 0 < find_slash p n \<Longrightarrow> find_slash p n < length p \<and> p ! find_slash p n = slash" for n
      by (induction n) (auto split: if_splits)
    then show ?thesis using that by simp
  qed
  have "\<exists>w b. (if 0 < ?k then ensure_directory (take ?k p) v else Some (v, True)) = Some (w, b) \<and> grows R v w"
  proof (cases "0 < ?k")
    case True
    then have "''..'' \<notin> set (components (take ?k p))" using prefix_components [of ?k p] k p by blast
    then show ?thesis using True ensure_directory_grows [OF ok] by simp
  qed (use grows_refl [OF ok] in auto)
  then obtain w b where w: "(if 0 < ?k then ensure_directory (take ?k p) v else Some (v, True)) = Some (w, b)" "grows R v w" by blast
  obtain v' b' where v': "install_node set_mode p mode data sz w = Some (v', b')" "grows R w v'"
    using install_node_grows [OF grows_ok [OF w(2)] p d m] by blast
  then show ?thesis using w grows_refl [OF ok] grows_trans [OF w(2)] by (auto simp: install_entry_def Let_def)
qed

lemma make_path_clean:
  assumes "make_path name MAX_PATH = Some p" and "0 \<notin> set name"
  shows "''..'' \<notin> set (components p)"
proof -
  have cs: "list_all component (proper (components (chars name)))" using components_ok [of "chars name"] by (auto simp: list_all_iff)
  have "p = render (proper (components (chars name)))" "''..'' \<notin> set (components (chars name))"
    using assms make_path_eq [OF assms(2)] by (auto split: if_splits)
  then show ?thesis using components_render [OF cs] by simp
qed

lemma mount_loop_grows:
  assumes len: "length archive < 2 ^ 64" and m: "keeps_nodes R set_mode"
  shows "vfs_ok R v \<Longrightarrow> \<exists>v' b. mount_loop set_mode archive off v = Some (v', b) \<and> grows R v v'"
proof (induction "2 ^ 64 - unat off" arbitrary: off v rule: less_induct)
  case less
  note unf = mount_loop.simps [of set_mode archive off v]
  show ?case
  proof (cases "off < of_nat (length archive)")
    case False
    then show ?thesis using less.prems grows_refl by (auto simp: unf)
  next
    case True
    obtain r where r: "parse_entry archive off = Some r" "case r of Entry name mode data sz nx \<Rightarrow> length data = unat sz \<and> 0 \<notin> set name | _ \<Rightarrow> True"
      using parse_entry_total [OF True len] by blast
    show ?thesis
    proof (cases r)
      case (Entry name mode data sz nx)
      have step: "2 ^ 64 - unat nx < 2 ^ 64 - unat off"
        using parse_entry_next(1) [OF r(1) [unfolded Entry] True] unsigned_less [of nx, where ?'a = nat] by (simp add: word_less_nat_alt)
      show ?thesis
      proof (cases "make_path name MAX_PATH")
        case None
        then show ?thesis using True r(1) Entry less.prems grows_refl by (auto simp: unf)
      next
        case (Some p)
        have p: "''..'' \<notin> set (components p)" using make_path_clean [OF Some] r(2) Entry by simp
        obtain w b where w: "install_entry set_mode p mode data sz v = Some (w, b)" "grows R v w"
          using install_entry_grows [OF less.prems p _ m] r(2) Entry by fastforce
        then show ?thesis using True r(1) Entry Some less.hyps [OF step grows_ok [OF w(2)]] grows_trans [OF w(2)] by (auto simp: unf)
      qed
    qed (use True r(1) less.prems grows_refl in \<open>auto simp: unf\<close>)
  qed
qed

text \<open>
  C30. Mounting any sequence of bytes shorter than \<open>2 ^ 64\<close> terminates, reads only inside the archive, keeps the invariant of the file
  system, changes no existing node and makes no path with a component \<open>..\<close>. When it reports success, \<open>/bin/sh\<close> is a file that
  starts with the identification of a 64-bit ELF image.
\<close>

theorem mount_safe:
  assumes "vfs_ok R v" and "length archive < 2 ^ 64" and "keeps_nodes R set_mode"
  shows "\<exists>v' ok. mount set_mode archive v = Some (v', ok) \<and> vfs_ok R v' \<and> files v \<subseteq>\<^sub>m files v' \<and>
    (\<forall>n. files v n = None \<and> files v' n \<noteq> None \<longrightarrow> ''..'' \<notin> set (components n)) \<and>
    (ok \<longrightarrow> (\<exists>d i. files v' ''/bin/sh'' = Some (NODE_FILE, [0x7f, 0x45, 0x4c, 0x46, 2] @ d, i)))"
proof (cases "archive = []")
  case True
  then show ?thesis using assms(1) by (intro exI [of _ v] exI [of _ False]) (simp add: mount_def del: not_None_eq)
next
  case False
  obtain w where w: "initialize_devices v = Some w" "grows R v w" using initialize_devices_grows [OF assms(1)] by blast
  obtain v' b where v': "mount_loop set_mode archive 0 w = Some (v', b)" "grows R w v'"
    using mount_loop_grows [OF assms(2,3) grows_ok [OF w(2)]] by blast
  have g: "grows R v v'" using grows_trans [OF w(2) v'(2)] .
  have n: "normalize_path (Some ''/bin/sh'') VFS_MAX_PATH = Some ''/bin/sh''" by code_simp
  have "\<exists>d i. files v' ''/bin/sh'' = Some (NODE_FILE, [0x7f, 0x45, 0x4c, 0x46, 2] @ d, i)" if sh: "valid_shell v'"
  proof -
    obtain shell sz where s: "read_file v' (Some ''/bin/sh'') = (Some shell, sz)" "take 5 shell = [0x7f, 0x45, 0x4c, 0x46, 2]"
      using sh unfolding valid_shell_def by (cases "read_file v' (Some ''/bin/sh'')") (simp split: option.splits)
    then have "\<exists>i. files v' ''/bin/sh'' = Some (NODE_FILE, shell, i)"
      using read_file_files [OF vfs_okD(2) [OF grows_ok [OF g]], of "Some ''/bin/sh''"] n
      by (auto simp: node_read_def split: option.splits node_type.splits if_splits)
    then show ?thesis using s(2) append_take_drop_id [of 5 shell] by metis
  qed
  then show ?thesis using False w(1) v'(1) g unfolding grows_def
    by (intro exI [of _ v'] exI [of _ "b \<and> valid_shell v'"]) (simp add: mount_def del: not_None_eq)
qed

theorem mount_safe_witness:
  "\<exists>v' ok. mount (\<lambda>p m v. v) [0x30, 0x37, 0x30] demo_vfs = Some (v', ok) \<and> files v' ''/'' = Some (NODE_DIRECTORY, [], None)"
proof -
  have "keeps_nodes {#} (\<lambda>p m v. v)" by (simp add: keeps_nodes_def)
  from mount_safe [OF demo_vfs(2) _ this, of "[0x30, 0x37, 0x30]"] obtain v' ok where
    "mount (\<lambda>p m v. v) [0x30, 0x37, 0x30] demo_vfs = Some (v', ok)" "files demo_vfs \<subseteq>\<^sub>m files v'" by auto
  then show ?thesis by (auto simp: demo_vfs(3) map_le_def)
qed

end
