(* ===== verification/Initramfs_Archive.thy ===== *)
theory Initramfs_Archive
  imports Initramfs_Props
begin

unbundle bit_operations_syntax

text \<open>
  A writer for the newc format as the reference: a magic number, thirteen numbers in eight hexadecimal digits, the name with a
  NUL byte and the contents, both padded to a multiple of four bytes.
\<close>

definition hex_char :: "u32 \<Rightarrow> u8" where
  "hex_char d = (if d < 10 then ucast d + 0x30 else ucast d + 0x57)"

definition hex8 :: "u32 \<Rightarrow> u8 list" where
  "hex8 n = map (\<lambda>k. hex_char (drop_bit (4 * k) n AND 15)) [7, 6, 5, 4, 3, 2, 1, 0]"

definition pad4 :: "nat \<Rightarrow> u8 list" where
  "pad4 n = replicate (slack 4 n) 0"

definition newc_name :: "u32 list \<Rightarrow> u8 list \<Rightarrow> u8 list" where
  "newc_name nums name = newc_magic @ concat (map hex8 nums) @ name @ [0]"

definition newc :: "u32 list \<Rightarrow> u8 list \<Rightarrow> u8 list \<Rightarrow> u8 list" where
  "newc nums name data =
     (let b = newc_name nums name; b = b @ pad4 (length b) @ data in b @ pad4 (length b))"

section \<open>Numbers\<close>

lemma hex_value_char: "d < 16 \<Longrightarrow> hex_value (hex_char d) = Some d"
proof -
  assume "d < 16"
  then have "unat d < 16" by (simp add: word_less_nat_alt)
  then have "unat d \<in> {0, 1, 2, 3, 4, 5, 6, 7, 8, 9, 10, 11, 12, 13, 14, 15}" unfolding insert_iff empty_iff by presburger
  then have "(of_nat (unat d) :: u32) \<in> of_nat ` {0, 1, 2, 3, 4, 5, 6, 7, 8, 9, 10, 11, 12, 13, 14, 15 :: nat}" by (rule imageI)
  then have "d \<in> {0, 1, 2, 3, 4, 5, 6, 7, 8, 9, 10, 11, 12, 13, 14, 15}" by simp
  then show ?thesis by (elim insertE emptyE) (simp_all add: hex_value_def hex_char_def)
qed

lemma hex_step: "hex_loop (hex_char (drop_bit (4 * k) n AND 15) # cs) (drop_bit (4 * k + 4) n) = hex_loop cs (drop_bit (4 * k) n)"
proof -
  have m: "(15 :: u32) = mask 4" by (simp add: mask_eq_exp_minus_1)
  define x where "x = drop_bit (4 * k) n"
  have d: "drop_bit (4 * k + 4) n = drop_bit 4 x" by (simp add: x_def ac_simps)
  have "x AND mask 4 < 2 ^ 4" by (rule and_mask_less') simp
  then have "hex_value (hex_char (x AND 15)) = Some (x AND 15)" unfolding m by (intro hex_value_char) simp
  moreover have "push_bit 4 (drop_bit 4 x) OR (x AND 15) = x"
    unfolding m by (rule bit_eqI) (auto simp: bit_simps)
  ultimately show ?thesis unfolding d x_def [symmetric] by simp
qed

lemma hex8_roundtrip: "hex_loop (hex8 n) 0 = Some n"
proof -
  have "(0 :: u32) = drop_bit 32 n" by (rule bit_eqI) (simp add: bit_simps)
  then show ?thesis
    using hex_step [of 7 n] hex_step [of 6 n] hex_step [of 5 n] hex_step [of 4 n] hex_step [of 3 n] hex_step [of 2 n] hex_step [of 1 n]
      hex_step [of 0 n] by (simp only: hex8_def list.map) (simp del: hex_loop.simps(2))
qed

lemma length_hex [simp]: "length (hex8 n) = 8" "length (concat (map hex8 nums)) = 8 * length nums"
proof -
  show e: "length (hex8 n) = 8" for n by (simp add: hex8_def)
  show "length (concat (map hex8 nums)) = 8 * length nums" by (induction nums) (simp_all add: e)
qed

lemma length_magic [simp]: "length newc_magic = 6"
  by (simp add: newc_magic_def)

lemma take_number: "k < length nums \<Longrightarrow> take 8 (drop (8 * k) (concat (map hex8 nums))) = hex8 (nums ! k)"
proof (induction nums arbitrary: k)
  case (Cons n nums)
  show ?case
  proof (cases k)
    case (Suc j)
    then have "drop (8 * k) (concat (map hex8 (n # nums))) = drop (8 * j) (concat (map hex8 nums))" by simp
    then show ?thesis using Cons Suc by simp
  qed simp
qed simp

lemma hex_field_number:
  assumes "k < length nums"
  shows "hex_field (newc_magic @ concat (map hex8 nums)) (6 + 8 * k) = Some (nums ! k)"
  using take_number [OF assms] by (simp add: hex_field_def hex8_roundtrip)

section \<open>Offsets\<close>

lemma align4_eq:
  assumes "n + slack 4 n < 2 ^ 64"
  shows "align4 (of_nat n) = of_nat (n + slack 4 n)"
proof -
  have "is_power_of_2 4" by (simp add: is_power_of_2_def)
  then have "align4 (of_nat n) = of_nat n + of_nat (slack (unat (4 :: u64)) (unat (of_nat n :: u64)))"
    using align_up_eq [of 4 "of_nat n"] by (simp add: align4_def align_up_def)
  moreover have "unat (of_nat n :: u64) = n" using assms by (intro unat_of_nat_64) simp
  ultimately show ?thesis by simp
qed

lemma slack_add: "4 dvd p \<Longrightarrow> slack 4 (p + n) = slack 4 n"
proof -
  assume "4 dvd p"
  then have "(p + n) mod 4 = n mod 4" by (metis dvd_eq_mod_eq_0 mod_add_left_eq add_0)
  then show ?thesis by (simp add: slack_def)
qed

lemma of_nat_diff_64: "n \<le> m \<Longrightarrow> (of_nat m :: u64) - of_nat n = of_nat (m - n)"
  by (simp add: of_nat_diff)

lemma archive_bytes_append:
  assumes "length pre = p" and "p < 2 ^ 64" and "length b = n"
  shows "archive_bytes (pre @ b @ post) (of_nat p) n = Some b"
  using unat_of_nat_64 [of p] assms by (auto simp: archive_bytes_def)

lemma ucast_of_nat_32: "n < 2 ^ 32 \<Longrightarrow> (ucast (of_nat n :: u32) :: u64) = of_nat n"
proof -
  assume "n < 2 ^ 32"
  then have "unat (ucast (of_nat n :: u32) :: u64) = n" "unat (of_nat n :: u64) = n"
    by (simp_all add: unat_of_nat_32 unat_of_nat_64)
  then show ?thesis by (simp add: word_unat_eq_iff)
qed

section \<open>One entry\<close>

lemma not_less_64: "n \<le> m \<Longrightarrow> m < 2 ^ 64 \<Longrightarrow> \<not> (of_nat m :: u64) < of_nat n"
  by (simp add: of_nat_less_64)

text \<open>The places of the contents and of the end in an entry that starts at a multiple of four.\<close>

definition data_start :: "u8 list \<Rightarrow> nat" where
  "data_start name = 111 + length name + slack 4 (111 + length name)"

definition entry_end :: "u8 list \<Rightarrow> u8 list \<Rightarrow> nat" where
  "entry_end name data = data_start name + length data + slack 4 (data_start name + length data)"

lemma newc_layout:
  assumes "length nums = 13"
  shows "newc nums name data = newc_name nums name @ pad4 (111 + length name) @ data @ pad4 (data_start name + length data)"
    and "length (newc nums name data) = entry_end name data"
    and "length (newc_name nums name @ pad4 (111 + length name)) = data_start name"
    and "newc_name nums name = (newc_magic @ concat (map hex8 nums)) @ name @ [0]"
    and "length (newc_magic @ concat (map hex8 nums)) = 110"
proof -
  have l: "length (newc_name nums name) = 111 + length name" using assms by (simp add: newc_name_def)
  then show "newc nums name data = newc_name nums name @ pad4 (111 + length name) @ data @ pad4 (data_start name + length data)"
    by (simp add: newc_def Let_def data_start_def pad4_def add.assoc)
  then show "length (newc nums name data) = entry_end name data" using l by (simp add: entry_end_def data_start_def pad4_def)
  show "length (newc_name nums name @ pad4 (111 + length name)) = data_start name" using l by (simp add: data_start_def pad4_def)
  show "newc_name nums name = (newc_magic @ concat (map hex8 nums)) @ name @ [0]" by (simp add: newc_name_def)
  show "length (newc_magic @ concat (map hex8 nums)) = 110" using assms by simp
qed

lemma newc_offsets:
  assumes "4 dvd p" and "p + entry_end name data < 2 ^ 64"
  shows "align4 (of_nat (p + 110) + of_nat (length name + 1)) = of_nat (p + data_start name)"
    and "align4 (of_nat (p + data_start name) + of_nat (length data)) = of_nat (p + entry_end name data)"
proof -
  have "p + (111 + length name) = p + 110 + (length name + 1)" by simp
  then show "align4 (of_nat (p + 110) + of_nat (length name + 1)) = of_nat (p + data_start name)"
    using align4_eq [of "p + (111 + length name)"] slack_add [OF assms(1), of "111 + length name"] assms(2)
    by (simp add: data_start_def entry_end_def add.assoc)
  show "align4 (of_nat (p + data_start name) + of_nat (length data)) = of_nat (p + entry_end name data)"
    using align4_eq [of "p + (data_start name + length data)"] slack_add [OF assms(1), of "data_start name + length data"] assms(2)
    by (simp add: entry_end_def add.assoc)
qed

lemma newc_bytes:
  assumes nums: "length nums = 13" and top: "length pre + data_start name < 2 ^ 64"
  shows "archive_bytes (pre @ newc nums name data @ post) (of_nat (length pre + 110)) (length name + 1) = Some (name @ [0])"
    and "archive_bytes (pre @ newc nums name data @ post) (of_nat (length pre + data_start name)) (length data) = Some data"
    and "archive_bytes (pre @ newc nums name data @ post) (of_nat (length pre)) 110 = Some (newc_magic @ concat (map hex8 nums))"
proof -
  let ?a = "pre @ newc nums name data @ post" and ?P = "length pre" and ?A = "data_start name"
  note lay = newc_layout [OF nums]
  have small: "?P < 2 ^ 64" "?P + 110 < 2 ^ 64" using top by (simp_all add: data_start_def)
  let ?rest = "pad4 (111 + length name) @ data @ pad4 (?A + length data) @ post"
  have "?a = (pre @ newc_magic @ concat (map hex8 nums)) @ (name @ [0]) @ ?rest" by (simp add: lay(1,4))
  then show "archive_bytes ?a (of_nat (?P + 110)) (length name + 1) = Some (name @ [0])"
    using archive_bytes_append [of "pre @ newc_magic @ concat (map hex8 nums)" "?P + 110" "name @ [0]" _ ?rest] small lay(5) by simp
  have "?a = (pre @ newc_name nums name @ pad4 (111 + length name)) @ data @ pad4 (?A + length data) @ post" by (simp add: lay(1))
  then show "archive_bytes ?a (of_nat (?P + ?A)) (length data) = Some data"
    using archive_bytes_append [of "pre @ newc_name nums name @ pad4 (111 + length name)" "?P + ?A" data] lay(3) [of name] top by simp
  have "?a = pre @ (newc_magic @ concat (map hex8 nums)) @ (name @ [0]) @ ?rest" by (simp add: lay(1,4))
  then show "archive_bytes ?a (of_nat ?P) 110 = Some (newc_magic @ concat (map hex8 nums))"
    using archive_bytes_append [of pre ?P "newc_magic @ concat (map hex8 nums)" 110 "(name @ [0]) @ ?rest"] small lay(5) by simp
qed

lemma parse_newc_body:
  assumes pre: "4 dvd length pre" and size: "length (pre @ newc nums name data @ post) < 2 ^ 64"
    and nums: "length nums = 13" and name: "name \<noteq> []" "0 \<notin> set name" "length name + 1 < 2 ^ 32" and data: "length data < 2 ^ 32"
  shows "parse_body (pre @ newc nums name data @ post) (of_nat (length pre)) mode (of_nat (length data)) (of_nat (length name + 1)) =
    Some (if name @ [0] = trailer_name then Trailer
      else Entry name mode data (of_nat (length data)) (of_nat (length (pre @ newc nums name data))))"
proof -
  let ?a = "pre @ newc nums name data @ post" and ?P = "length pre" and ?A = "data_start name" and ?E = "entry_end name data"
  define N where "N = length ?a"
  note lay = newc_layout [OF nums]
  have b: "N < 2 ^ 64" "?P + ?E \<le> N" "?A + length data \<le> ?E" "111 + length name \<le> ?A"
    using size lay(2) [of name data] by (simp_all add: N_def entry_end_def data_start_def)
  have off: "of_nat ?P + CPIO_HEADER_SIZE = of_nat (?P + 110)" by (simp add: CPIO_HEADER_SIZE_def)
  have u: "(ucast (of_nat (length name + 1) :: u32) :: u64) = of_nat (length name + 1)" "(ucast (of_nat (length data) :: u32) :: u64) = of_nat (length data)"
    using ucast_of_nat_32 name(3) data by blast+
  have n32: "unat (of_nat (length name + 1) :: u32) = length name + 1" "unat (of_nat (length data) :: u32) = length data"
    using unat_of_nat_32 name(3) data by blast+
  have al: "align4 (of_nat (?P + 110) + of_nat (length name + 1)) = of_nat (?P + ?A)" "align4 (of_nat (?P + ?A) + of_nat (length data)) = of_nat (?P + ?E)"
    using newc_offsets [OF pre, of name data] b by auto
  note bytes = newc_bytes [OF nums, of pre name data post]
  have bytes': "?P + ?A < 2 ^ 64" using b by linarith
  have d1: "of_nat N - of_nat ?P - CPIO_HEADER_SIZE = (of_nat (N - ?P - 110) :: u64)" and d2: "of_nat N - of_nat (?P + ?A) = (of_nat (N - (?P + ?A)) :: u64)"
    using b by (simp_all add: of_nat_diff CPIO_HEADER_SIZE_def)
  have two: "\<not> (of_nat (length name + 1) :: u32) < 2" using name(1) n32(1) by (simp only: word_less_nat_alt) (simp add: Suc_le_eq)
  have g: "\<not> (of_nat (N - ?P - 110) :: u64) < of_nat (length name + 1)" "\<not> (of_nat (?P + ?A) :: u64) < of_nat (?P + 110)"
    "\<not> (of_nat N :: u64) < of_nat (?P + ?A)" "\<not> (of_nat (N - (?P + ?A)) :: u64) < of_nat (length data)"
    "\<not> (of_nat (?P + ?E) :: u64) < of_nat (?P + ?A)" "\<not> (of_nat N :: u64) < of_nat (?P + ?E)"
    using b by (intro not_less_64; linarith)+
  show ?thesis
    unfolding parse_body_def Let_def N_def [symmetric] off u n32 al bytes [OF bytes'] d1 d2
    using two g name(2) lay(2) [of name data] by (simp del: of_nat_add of_nat_Suc add_Suc_right)
qed

text \<open>
  C31. Whatever precedes and follows it, an entry that the newc writer made at an offset divisible by four is parsed back: the
  trailer as the trailer, and every other entry with its name, mode, contents and size and the offset of the next one.
\<close>

theorem newc_roundtrip:
  assumes pre: "4 dvd length pre" and size: "length (pre @ newc nums name data @ post) < 2 ^ 64"
    and nums: "length nums = 13" "nums ! 6 = of_nat (length data)" "nums ! 11 = of_nat (length name + 1)"
    and name: "name \<noteq> []" "0 \<notin> set name" "length name + 1 < 2 ^ 32" and data: "length data < 2 ^ 32"
  shows "parse_entry (pre @ newc nums name data @ post) (of_nat (length pre)) =
    Some (if name @ [0] = trailer_name then Trailer
      else Entry name (nums ! 1) data (of_nat (length data)) (of_nat (length (pre @ newc nums name data))))"
proof -
  let ?a = "pre @ newc nums name data @ post" and ?h = "newc_magic @ concat (map hex8 nums)"
  have len: "length pre + entry_end name data \<le> length ?a" using newc_layout(2) [OF nums(1), of name data] by simp
  then have top: "length pre + data_start name < 2 ^ 64" "110 \<le> length ?a - length pre"
    using size by (simp_all add: entry_end_def data_start_def)
  have "of_nat (length ?a) - of_nat (length pre) = (of_nat (length ?a - length pre) :: u64)" by (simp add: of_nat_diff)
  then have g: "\<not> of_nat (length ?a) - of_nat (length pre) < CPIO_HEADER_SIZE"
    using not_less_64 [OF top(2)] size by (simp add: CPIO_HEADER_SIZE_def)
  have f: "hex_field ?h CPIO_FIELD_MODE = Some (nums ! 1)" "hex_field ?h CPIO_FIELD_FILESIZE = Some (of_nat (length data))"
    "hex_field ?h CPIO_FIELD_NAMESIZE = Some (of_nat (length name + 1))"
    using hex_field_number [of 1 nums] hex_field_number [of 6 nums] hex_field_number [of 11 nums] nums
    by (simp_all add: CPIO_FIELD_MODE_def CPIO_FIELD_FILESIZE_def CPIO_FIELD_NAMESIZE_def)
  have h: "archive_bytes ?a (of_nat (length pre)) (unat CPIO_HEADER_SIZE) = Some ?h"
    using newc_bytes(3) [OF nums(1) top(1), of data post] by (simp add: CPIO_HEADER_SIZE_def)
  show ?thesis
    unfolding parse_entry_def h using g f parse_newc_body [OF pre size nums(1) name data] by (simp del: append_assoc)
qed

theorem newc_roundtrip_witness:
  "parse_entry (newc ([0, 0x81a4] @ replicate 4 0 @ [2] @ replicate 4 0 @ [2, 0]) [0x61] [7, 8]) 0 = Some (Entry [0x61] 0x81a4 [7, 8] 2 116)"
proof -
  let ?nums = "[0, 0x81a4] @ replicate 4 0 @ [2] @ replicate 4 0 @ [2, 0] :: u32 list"
  have l: "length (newc ?nums [0x61] [7, 8]) = 116" using newc_layout(2) [of ?nums "[0x61]" "[7, 8]"]
    by (simp add: entry_end_def data_start_def slack_def)
  have i: "length ?nums = 13" "?nums ! 6 = 2" "?nums ! 11 = 2" "?nums ! 1 = 0x81a4" by code_simp+
  have t: "[0x61] @ [0] \<noteq> trailer_name" by (simp add: trailer_name_def)
  have "parse_entry ([] @ newc ?nums [0x61] [7, 8] @ []) (of_nat (length ([] :: u8 list))) = Some (if [0x61] @ [0] = trailer_name then Trailer
      else Entry [0x61] (?nums ! 1) [7, 8] (of_nat (length [7, 8 :: u8])) (of_nat (length ([] @ newc ?nums [0x61] [7, 8]))))"
  proof (rule newc_roundtrip)
    show "length ([] @ newc ?nums [0x61] [7, 8] @ []) < 2 ^ 64" unfolding append_Nil append_Nil2 l by simp
  qed (use i in simp_all)
  then show ?thesis unfolding append_Nil append_Nil2 l i(4) using t by simp
qed

end
