(* ===== verification/Tcp.thy ===== *)
theory Tcp
  imports Prelude
begin

unbundle bit_operations_syntax

text \<open>
  The TCP connections of \<^verbatim>\<open>net/tcp.cpp\<close>: the table of connections, the receive buffer, the one tracked segment for
  retransmission and the one segment kept out of order. Packets are lists of bytes in wire order. The layer below is a
  parameter: \<open>local_ip\<close> is the address \<open>ip_address\<close> returns, and \<open>link\<close> answers the calls of \<open>ipv4_send\<close> from the list of all
  packets passed to it so far, which \<open>sent\<close> records. A function has no result when it would copy outside a buffer.
\<close>

section \<open>Data\<close>

type_synonym ip = "u8 \<times> u8 \<times> u8 \<times> u8"

datatype tcp_state = Closed | Listen | SynSent | SynReceived | Established | FinWait1 | FinWait2 | CloseWait | LastAck | Closing | TimeWait

definition MAX_CONNECTIONS :: nat where "MAX_CONNECTIONS = 16"
definition RX_BUFFER_SIZE :: nat where "RX_BUFFER_SIZE = 8192"
definition TX_BUFFER_SIZE :: nat where "TX_BUFFER_SIZE = 1460"
definition EPHEMERAL_PORT_FIRST :: u16 where "EPHEMERAL_PORT_FIRST = 49152"
definition EPHEMERAL_PORT_LAST :: u16 where "EPHEMERAL_PORT_LAST = 65535"

abbreviation FIN :: u8 where "FIN \<equiv> 0x01"
abbreviation SYN :: u8 where "SYN \<equiv> 0x02"
abbreviation RST :: u8 where "RST \<equiv> 0x04"
abbreviation PSH :: u8 where "PSH \<equiv> 0x08"
abbreviation ACK :: u8 where "ACK \<equiv> 0x10"

definition INITIAL_SEQUENCE :: u32 where "INITIAL_SEQUENCE = 1"
definition INITIAL_RTO :: u32 where "INITIAL_RTO = 30"
definition MAX_RTO :: u32 where "MAX_RTO = 480"
definition MAX_RETRIES :: u32 where "MAX_RETRIES = 6"
definition TIME_WAIT_TICKS :: u32 where "TIME_WAIT_TICKS = 120"
definition INITIAL_WINDOW :: nat where "INITIAL_WINDOW = 4096"
definition INITIAL_CWND :: u32 where "INITIAL_CWND = 1"
definition INITIAL_SSTHRESH :: u32 where "INITIAL_SSTHRESH = 8"

record tx_segment =
  tx_used :: bool
  tx_seq :: u32
  tx_end_seq :: u32
  tx_flags :: u8
  tx_payload_len :: nat
  tx_payload :: "u8 list"
  sent_tick :: u32
  retransmit_count :: u32

record ooo_segment =
  ooo_used :: bool
  ooo_seq :: u32
  ooo_len :: nat
  ooo_data :: "u8 list"

record conn =
  c_used :: bool
  c_state :: tcp_state
  remote :: ip
  local_port :: u16
  remote_port :: u16
  snd_una :: u32
  snd_nxt :: u32
  rcv_nxt :: u32
  advertised_window :: u16
  cwnd :: u32
  ssthresh :: u32
  rto :: u32
  last_ack :: u32
  duplicate_acks :: u8
  timer_tick :: u32
  c_retries :: u8
  fin_sent :: bool
  fin_received :: bool
  rx :: "u8 list"
  rx_head :: nat
  rx_tail :: nat
  tx :: tx_segment
  ooo :: ooo_segment

record tcp =
  conns :: "conn list"
  next_ephemeral_port :: u16
  current_tick :: u32
  sent :: "(ip \<times> u8 list) list"
  local_ip :: ip
  link :: "(ip \<times> u8 list) list \<Rightarrow> bool"

definition zero_tx :: tx_segment where
  "zero_tx = \<lparr>tx_used = False, tx_seq = 0, tx_end_seq = 0, tx_flags = 0, tx_payload_len = 0, tx_payload = replicate TX_BUFFER_SIZE 0,
     sent_tick = 0, retransmit_count = 0\<rparr>"

definition zero_ooo :: ooo_segment where
  "zero_ooo = \<lparr>ooo_used = False, ooo_seq = 0, ooo_len = 0, ooo_data = replicate TX_BUFFER_SIZE 0\<rparr>"

text \<open>A connection after \<open>clear_connection\<close>.\<close>

definition cleared :: conn where
  "cleared = \<lparr>c_used = False, c_state = Closed, remote = (0, 0, 0, 0), local_port = 0, remote_port = 0, snd_una = 0, snd_nxt = 0, rcv_nxt = 0,
     advertised_window = 0, cwnd = 0, ssthresh = 0, rto = 0, last_ack = 0, duplicate_acks = 0, timer_tick = 0, c_retries = 0,
     fin_sent = False, fin_received = False, rx = replicate RX_BUFFER_SIZE 0, rx_head = 0, rx_tail = 0, tx = zero_tx, ooo = zero_ooo\<rparr>"

text \<open>Copying bytes into an array from a place on, without result past its end.\<close>

definition blit :: "u8 list \<Rightarrow> nat \<Rightarrow> u8 list \<Rightarrow> u8 list option" where
  "blit dst off src = (if off + length src \<le> length dst then Some (take off dst @ src @ drop (off + length src) dst) else None)"

section \<open>Sequence numbers and ports\<close>

definition sequence_less :: "u32 \<Rightarrow> u32 \<Rightarrow> bool" where
  "sequence_less a b \<longleftrightarrow> sint (a - b) < 0"

definition sequence_greater :: "u32 \<Rightarrow> u32 \<Rightarrow> bool" where
  "sequence_greater a b \<longleftrightarrow> 0 < sint (a - b)"

definition port_used :: "u16 \<Rightarrow> conn list \<Rightarrow> bool" where
  "port_used p cs \<longleftrightarrow> (\<exists>c \<in> set cs. c_used c \<and> local_port c = p)"

text \<open>The loop of \<open>allocate_ephemeral_port\<close>: the next port to try and the port found, 0 for none.\<close>

fun port_loop :: "nat \<Rightarrow> conn list \<Rightarrow> u16 \<Rightarrow> u16 \<times> u16" where
  "port_loop 0 cs p = (p, 0)"
| "port_loop (Suc n) cs p =
     (let p' = p + 1; p' = (if EPHEMERAL_PORT_LAST < p' then EPHEMERAL_PORT_FIRST else p')
      in if port_used p cs then port_loop n cs p' else (p', p))"

definition allocate_ephemeral_port :: "tcp \<Rightarrow> tcp \<times> u16" where
  "allocate_ephemeral_port s =
     (let (p', p) = port_loop (unat (EPHEMERAL_PORT_LAST - EPHEMERAL_PORT_FIRST) + 1) (conns s) (next_ephemeral_port s)
      in (s\<lparr>next_ephemeral_port := p'\<rparr>, p))"

section \<open>The checksum\<close>

text \<open>The loop \<open>while (sum >> 16) sum = (sum & 0xFFFF) + (sum >> 16)\<close>.\<close>

function fold16 :: "u32 \<Rightarrow> u32" where
  "fold16 acc = (if drop_bit 16 acc \<noteq> 0 then fold16 ((acc AND 0xFFFF) + drop_bit 16 acc) else acc)"
  by pat_completeness auto

lemma fold16_parts:
  fixes acc :: u32
  shows "unat (drop_bit 16 acc) = unat acc div 65536" and "unat (acc AND 0xFFFF) = unat acc mod 65536"
    and "unat ((acc AND 0xFFFF) + drop_bit 16 acc) = unat acc mod 65536 + unat acc div 65536"
proof -
  show d: "unat (drop_bit 16 acc) = unat acc div 65536" by (simp add: drop_bit_eq_div unat_div)
  have "(0xFFFF :: u32) = mask 16" by (simp add: mask_eq_exp_minus_1)
  then have "acc AND 0xFFFF = take_bit 16 acc" by (simp add: take_bit_eq_mask)
  then show m: "unat (acc AND 0xFFFF) = unat acc mod 65536" by (simp add: take_bit_eq_mod unat_mod)
  have "unat acc mod 65536 + unat acc div 65536 < 2 ^ 32"
    using unsigned_less [of acc, where ?'a = nat] by simp
  then show "unat ((acc AND 0xFFFF) + drop_bit 16 acc) = unat acc mod 65536 + unat acc div 65536"
    using d m by (simp add: unat_word_ariths(1))
qed

termination fold16
proof (relation "measure unat")
  fix acc :: u32
  assume "drop_bit 16 acc \<noteq> 0"
  then have "0 < unat acc div 65536" using fold16_parts(1) [of acc] by (metis gr0I unat_eq_0)
  then have "unat acc mod 65536 + unat acc div 65536 < unat acc"
    using div_mult_mod_eq [of "unat acc" 65536] by linarith
  then show "((acc AND 0xFFFF) + drop_bit 16 acc, acc) \<in> measure unat" by (simp add: fold16_parts(3))
qed simp

declare fold16.simps [simp del]

definition word16 :: "u8 \<Rightarrow> u8 \<Rightarrow> u32" where
  "word16 a b = push_bit 8 (ucast a) OR ucast b"

fun csum_loop :: "u8 list \<Rightarrow> u32 \<Rightarrow> u32" where
  "csum_loop (a # b # ds) acc = csum_loop ds (fold16 (acc + word16 a b))"
| "csum_loop [a] acc = fold16 (acc + push_bit 8 (ucast a))"
| "csum_loop [] acc = acc"

definition tcp_checksum :: "ip \<Rightarrow> ip \<Rightarrow> u8 list \<Rightarrow> u16" where
  "tcp_checksum src dst data =
     (case (src, dst) of ((s0, s1, s2, s3), (d0, d1, d2, d3)) \<Rightarrow>
        let acc = word16 s0 s1 + word16 s2 s3 + word16 d0 d1 + word16 d2 d3 + 6 + of_nat (length data)
        in NOT (ucast (fold16 (csum_loop data acc))))"

section \<open>The receive buffer\<close>

definition rx_available :: "conn \<Rightarrow> nat" where
  "rx_available c = (if rx_tail c < rx_head c then 0 else rx_tail c - rx_head c)"

definition rx_free_space :: "conn \<Rightarrow> nat" where
  "rx_free_space c = (if RX_BUFFER_SIZE \<le> rx_available c then 0 else RX_BUFFER_SIZE - rx_available c)"

definition rx_reset_if_empty :: "conn \<Rightarrow> conn" where
  "rx_reset_if_empty c = (if rx_head c = rx_tail c then c\<lparr>rx_head := 0, rx_tail := 0\<rparr> else c)"

text \<open>Moving the unread bytes to the start of the buffer.\<close>

definition rx_compact :: "conn \<Rightarrow> conn option" where
  "rx_compact c =
     (let avail = rx_available c
      in if avail = 0 then Some (c\<lparr>rx_head := 0, rx_tail := avail\<rparr>)
         else if length (rx c) < rx_head c + avail then None
         else do {
           b \<leftarrow> blit (rx c) 0 (take avail (drop (rx_head c) (rx c)));
           Some (c\<lparr>rx := b, rx_head := 0, rx_tail := avail\<rparr>)
         })"

definition rx_push :: "conn \<Rightarrow> u8 list \<Rightarrow> (conn \<times> bool) option" where
  "rx_push c data =
     (if data = [] then Some (c, True)
      else if rx_free_space c < length data then Some (c, False)
      else do {
        c \<leftarrow> (if RX_BUFFER_SIZE < rx_tail c + length data then rx_compact c else Some c);
        if RX_BUFFER_SIZE < rx_tail c + length data then Some (c, False)
        else do {
          b \<leftarrow> blit (rx c) (rx_tail c) data;
          Some (c\<lparr>rx := b, rx_tail := rx_tail c + length data\<rparr>, True)
        }
      })"

section \<open>Sending\<close>

definition be16 :: "u16 \<Rightarrow> u8 list" where
  "be16 x = [ucast (drop_bit 8 x), ucast x]"

definition be32 :: "u32 \<Rightarrow> u8 list" where
  "be32 x = [ucast (drop_bit 24 x), ucast (drop_bit 16 x), ucast (drop_bit 8 x), ucast x]"

text \<open>The bytes of a 16-bit value stored without \<open>htons\<close> on a little-endian machine.\<close>

definition le16 :: "u16 \<Rightarrow> u8 list" where
  "le16 x = [ucast x, ucast (drop_bit 8 x)]"

text \<open>A segment with given bytes for the checksum.\<close>

definition tcp_packet :: "u16 \<Rightarrow> u16 \<Rightarrow> u32 \<Rightarrow> u32 \<Rightarrow> u8 \<Rightarrow> u16 \<Rightarrow> u8 list \<Rightarrow> u8 list \<Rightarrow> u8 list" where
  "tcp_packet src dst seq ack flags window csum payload =
     be16 src @ be16 dst @ be32 seq @ be32 ack @ [0x50, flags] @ be16 window @ csum @ [0, 0] @ payload"

definition ipv4_send :: "ip \<Rightarrow> u8 list \<Rightarrow> tcp \<Rightarrow> tcp \<times> bool" where
  "ipv4_send dst packet s = (s\<lparr>sent := sent s @ [(dst, packet)]\<rparr>, link s (sent s @ [(dst, packet)]))"

definition send_window :: "conn \<Rightarrow> u16" where
  "send_window c = of_nat (min INITIAL_WINDOW (rx_free_space c))"

definition send_raw_segment :: "conn \<Rightarrow> u8 \<Rightarrow> u32 \<Rightarrow> u32 \<Rightarrow> u8 list \<Rightarrow> tcp \<Rightarrow> tcp \<times> bool" where
  "send_raw_segment c flags seq ack payload s =
     (if TX_BUFFER_SIZE < length payload then (s, False)
      else if 1500 < 20 + length payload then (s, False)
      else
        let p = (\<lambda>csum. tcp_packet (local_port c) (remote_port c) seq ack flags (send_window c) csum payload)
        in ipv4_send (remote c) (p (le16 (tcp_checksum (local_ip s) (remote c) (p [0, 0])))) s)"

definition send_ack :: "conn \<Rightarrow> tcp \<Rightarrow> tcp" where
  "send_ack c s = fst (send_raw_segment c ACK (snd_nxt c) (rcv_nxt c) [] s)"

definition send_rst :: "ip \<Rightarrow> u16 \<Rightarrow> u16 \<Rightarrow> u32 \<Rightarrow> u32 \<Rightarrow> bool \<Rightarrow> tcp \<Rightarrow> tcp" where
  "send_rst dst src_port dst_port seq ack ack_flag s =
     (let p = (\<lambda>csum. tcp_packet src_port dst_port seq ack (if ack_flag then RST OR ACK else RST) 0 csum [])
      in fst (ipv4_send dst (p (le16 (tcp_checksum (local_ip s) dst (p [0, 0])))) s))"

definition seq_advance :: "u8 \<Rightarrow> nat \<Rightarrow> u32" where
  "seq_advance flags n = of_nat n + (if flags AND SYN \<noteq> 0 then 1 else 0) + (if flags AND FIN \<noteq> 0 then 1 else 0)"

definition send_tracked_segment :: "conn \<Rightarrow> u8 \<Rightarrow> u8 list \<Rightarrow> tcp \<Rightarrow> (conn \<times> tcp \<times> bool) option" where
  "send_tracked_segment c flags payload s =
     (if tx_used (tx c) then Some (c, s, False)
      else if TX_BUFFER_SIZE < length payload then Some (c, s, False)
      else
        let seq = snd_nxt c; (s, ok) = send_raw_segment c flags seq (rcv_nxt c) payload s; end_seq = seq + seq_advance flags (length payload)
        in if \<not> ok then Some (c, s, False)
           else do {
             b \<leftarrow> blit (tx_payload (tx c)) 0 payload;
             Some (c\<lparr>tx := \<lparr>tx_used = True, tx_seq = seq, tx_end_seq = end_seq, tx_flags = flags, tx_payload_len = length payload,
                 tx_payload = b, sent_tick = current_tick s, retransmit_count = 0\<rparr>,
               snd_nxt := end_seq, timer_tick := current_tick s\<rparr>, s, True)
           })"

definition halved :: "conn \<Rightarrow> u32" where
  "halved c = (if cwnd c div 2 < 2 then 2 else cwnd c div 2)"

definition retransmit :: "conn \<Rightarrow> tcp \<Rightarrow> (conn \<times> tcp \<times> bool) option" where
  "retransmit c s =
     (if \<not> tx_used (tx c) then Some (c, s, False)
      else if MAX_RETRIES \<le> retransmit_count (tx c) then Some (cleared, s, False)
      else
        let c = c\<lparr>tx := (tx c)\<lparr>retransmit_count := retransmit_count (tx c) + 1\<rparr>,
                  rto := (if MAX_RTO < rto c * 2 then MAX_RTO else rto c * 2), ssthresh := halved c, cwnd := 1\<rparr>
        in if length (tx_payload (tx c)) < tx_payload_len (tx c) then None
           else
             let (s, ok) = send_raw_segment c (tx_flags (tx c)) (tx_seq (tx c)) (rcv_nxt c) (take (tx_payload_len (tx c)) (tx_payload (tx c))) s
             in if ok then Some (c\<lparr>tx := (tx c)\<lparr>sent_tick := current_tick s\<rparr>, timer_tick := current_tick s\<rparr>, s, True)
                else Some (c, s, False))"

section \<open>Acknowledgements and segments out of order\<close>

definition finish_ack :: "u32 \<Rightarrow> conn \<Rightarrow> conn" where
  "finish_ack ack c =
     (let c = (if c_state c = SynSent then c\<lparr>c_state := Established\<rparr> else c);
          c = (if c_state c = FinWait1 \<and> fin_sent c \<and> ack = snd_nxt c
               then c\<lparr>c_state := (if fin_received c then TimeWait else FinWait2)\<rparr> else c)
      in if c_state c = LastAck \<and> ack = snd_nxt c then cleared else c)"

definition ack_segment :: "conn \<Rightarrow> u32 \<Rightarrow> tcp \<Rightarrow> (conn \<times> tcp) option" where
  "ack_segment c ack s =
     (if \<not> tx_used (tx c) \<or> sequence_less ack (tx_seq (tx c)) \<or> sequence_greater ack (tx_end_seq (tx c)) then Some (c, s)
      else if ack = last_ack c then
        let d = (if duplicate_acks c < 255 then duplicate_acks c + 1 else duplicate_acks c)
        in if 3 \<le> d then do {
             (c, s, ok) \<leftarrow> retransmit (c\<lparr>duplicate_acks := d, ssthresh := halved c, cwnd := halved c + 3\<rparr>) s;
             Some (c\<lparr>duplicate_acks := 0\<rparr>, s)
           }
           else Some (c\<lparr>duplicate_acks := d\<rparr>, s)
      else
        Some (finish_ack ack (c\<lparr>last_ack := ack, duplicate_acks := 0, tx := (tx c)\<lparr>tx_used := False\<rparr>,
                snd_una := (if sequence_greater ack (snd_una c) then ack else snd_una c),
                cwnd := (if cwnd c < ssthresh c \<or> current_tick s AND 3 = 0 then cwnd c + 1 else cwnd c),
                c_retries := 0, rto := INITIAL_RTO\<rparr>), s))"

definition queue_out_of_order :: "conn \<Rightarrow> u32 \<Rightarrow> u8 list \<Rightarrow> conn option" where
  "queue_out_of_order c seq data =
     (if data = [] \<or> ooo_used (ooo c) \<or> TX_BUFFER_SIZE < length data \<or> sequence_less seq (rcv_nxt c) then Some c
      else do {
        b \<leftarrow> blit (ooo_data (ooo c)) 0 data;
        Some (c\<lparr>ooo := \<lparr>ooo_used = True, ooo_seq = seq, ooo_len = length data, ooo_data = b\<rparr>\<rparr>)
      })"

definition consume_out_of_order :: "conn \<Rightarrow> conn option" where
  "consume_out_of_order c =
     (if \<not> ooo_used (ooo c) \<or> ooo_seq (ooo c) \<noteq> rcv_nxt c then Some c
      else if length (ooo_data (ooo c)) < ooo_len (ooo c) then None
      else do {
        (c, ok) \<leftarrow> rx_push c (take (ooo_len (ooo c)) (ooo_data (ooo c)));
        Some (if ok then c\<lparr>rcv_nxt := rcv_nxt c + of_nat (ooo_len (ooo c)), ooo := zero_ooo\<rparr> else c)
      })"

definition enter_time_wait :: "tcp \<Rightarrow> conn \<Rightarrow> conn" where
  "enter_time_wait s c = c\<lparr>c_state := TimeWait, timer_tick := current_tick s, tx := (tx c)\<lparr>tx_used := False\<rparr>\<rparr>"

definition process_fin :: "conn \<Rightarrow> u32 \<Rightarrow> tcp \<Rightarrow> conn \<times> tcp" where
  "process_fin c seq s =
     (if seq \<noteq> rcv_nxt c then (c, s)
      else
        let c = c\<lparr>rcv_nxt := rcv_nxt c + 1, fin_received := True\<rparr>; s = send_ack c s
        in (case c_state c of
              Established \<Rightarrow> c\<lparr>c_state := CloseWait\<rparr>
            | FinWait1 \<Rightarrow> if \<not> tx_used (tx c) then enter_time_wait s c else c\<lparr>c_state := Closing\<rparr>
            | FinWait2 \<Rightarrow> enter_time_wait s c
            | Closing \<Rightarrow> enter_time_wait s c
            | _ \<Rightarrow> c, s))"

section \<open>Opening connections\<close>

definition tcp_init :: "tcp \<Rightarrow> tcp" where
  "tcp_init s = s\<lparr>conns := replicate MAX_CONNECTIONS cleared, next_ephemeral_port := EPHEMERAL_PORT_FIRST, current_tick := 0\<rparr>"

definition set_conn :: "nat \<Rightarrow> conn \<Rightarrow> tcp \<Rightarrow> tcp" where
  "set_conn i c s = s\<lparr>conns := (conns s)[i := c]\<rparr>"

definition tcp_listen :: "u16 \<Rightarrow> tcp \<Rightarrow> tcp \<times> bool" where
  "tcp_listen port s =
     (if port = 0 \<or> (\<exists>c \<in> set (conns s). c_used c \<and> c_state c = Listen \<and> local_port c = port) then (s, False)
      else case find_idx (\<lambda>c. \<not> c_used c) (conns s) of
        None \<Rightarrow> (s, False)
      | Some i \<Rightarrow> (set_conn i (cleared\<lparr>c_used := True, c_state := Listen, local_port := port, advertised_window := of_nat INITIAL_WINDOW\<rparr>) s, True))"

definition fresh_conn :: "ip \<Rightarrow> u16 \<Rightarrow> u16 \<Rightarrow> conn" where
  "fresh_conn dst lport port =
     cleared\<lparr>c_used := True, c_state := SynSent, remote := dst, local_port := lport, remote_port := port, snd_una := INITIAL_SEQUENCE,
       snd_nxt := INITIAL_SEQUENCE, rcv_nxt := 0, cwnd := INITIAL_CWND, ssthresh := INITIAL_SSTHRESH, rto := INITIAL_RTO,
       last_ack := INITIAL_SEQUENCE, advertised_window := of_nat INITIAL_WINDOW\<rparr>"

definition tcp_connect :: "ip \<Rightarrow> u16 \<Rightarrow> tcp \<Rightarrow> (tcp \<times> int) option" where
  "tcp_connect dst port s =
     (if port = 0 then Some (s, -1)
      else
        let (s, lport) = allocate_ephemeral_port s
        in if lport = 0 then Some (s, -1)
           else case find_idx (\<lambda>c. \<not> c_used c) (conns s) of
             None \<Rightarrow> Some (s, -1)
           | Some i \<Rightarrow> do {
               (c, s, ok) \<leftarrow> send_tracked_segment (fresh_conn dst lport port) SYN [] s;
               Some (if ok then (set_conn i c s, int i) else (set_conn i cleared s, -1))
             })"

section \<open>Arriving segments\<close>

record segment =
  seg_src :: u16
  seg_dst :: u16
  seg_seq :: u32
  seg_ack :: u32
  seg_flags :: u8
  seg_window :: u16
  seg_payload :: "u8 list"

definition rd16 :: "u8 list \<Rightarrow> nat \<Rightarrow> u16" where
  "rd16 p i = push_bit 8 (ucast (p ! i)) OR ucast (p ! (i + 1))"

definition rd32 :: "u8 list \<Rightarrow> nat \<Rightarrow> u32" where
  "rd32 p i = push_bit 24 (ucast (p ! i)) OR push_bit 16 (ucast (p ! (i + 1))) OR push_bit 8 (ucast (p ! (i + 2))) OR ucast (p ! (i + 3))"

text \<open>The segment of a packet, \<^const>\<open>None\<close> when it is dropped unseen.\<close>

definition decode_segment :: "ip \<Rightarrow> ip \<Rightarrow> u8 list \<Rightarrow> segment option" where
  "decode_segment local src packet =
     (if length packet < 20 then None
      else
        let hdr_len = unat (drop_bit 4 (packet ! 12) AND 0x0F) * 4
        in if hdr_len < 20 \<or> length packet < hdr_len \<or> tcp_checksum local src packet \<noteq> 0 then None
           else Some \<lparr>seg_src = rd16 packet 0, seg_dst = rd16 packet 2, seg_seq = rd32 packet 4, seg_ack = rd32 packet 8,
                  seg_flags = packet ! 13, seg_window = rd16 packet 14, seg_payload = drop hdr_len packet\<rparr>)"

definition has :: "segment \<Rightarrow> u8 \<Rightarrow> bool" where
  "has g flag \<longleftrightarrow> seg_flags g AND flag \<noteq> 0"

text \<open>The connection of a peer: not listening, with its address and ports.\<close>

definition peer_match :: "ip \<Rightarrow> segment \<Rightarrow> conn \<Rightarrow> bool" where
  "peer_match src g c \<longleftrightarrow> c_used c \<and> local_port c = seg_dst g \<and> c_state c \<noteq> Listen \<and> remote c = src \<and> remote_port c = seg_src g"

definition conn_match :: "ip \<Rightarrow> segment \<Rightarrow> conn \<Rightarrow> bool" where
  "conn_match src g c \<longleftrightarrow>
     c_used c \<and> local_port c = seg_dst g \<and>
     (if c_state c = Listen then has g SYN \<and> \<not> has g ACK else remote c = src \<and> remote_port c = seg_src g)"

definition receive_listen :: "ip \<Rightarrow> segment \<Rightarrow> conn \<Rightarrow> tcp \<Rightarrow> (conn \<times> tcp) option" where
  "receive_listen src g c s =
     (if \<not> has g SYN then Some (c, s)
      else do {
        (c, s, ok) \<leftarrow> send_tracked_segment
          (c\<lparr>remote := src, remote_port := seg_src g, rcv_nxt := seg_seq g + 1, snd_una := INITIAL_SEQUENCE, snd_nxt := INITIAL_SEQUENCE,
             cwnd := INITIAL_CWND, ssthresh := INITIAL_SSTHRESH, rto := INITIAL_RTO, c_state := SynReceived, tx := zero_tx\<rparr>)
          (SYN OR ACK) [] s;
        Some (c, s)
      })"

definition receive_syn_sent :: "segment \<Rightarrow> conn \<Rightarrow> tcp \<Rightarrow> conn \<times> tcp" where
  "receive_syn_sent g c s =
     (if has g SYN \<and> has g ACK then
        if tx_used (tx c) \<and> seg_ack g \<noteq> tx_end_seq (tx c) then (c, s)
        else
          let c = c\<lparr>tx := (tx c)\<lparr>tx_used := False\<rparr>, snd_una := seg_ack g, rcv_nxt := seg_seq g + 1, last_ack := seg_ack g,
                    cwnd := INITIAL_CWND, c_state := Established\<rparr>
          in (c, send_ack c s)
      else if has g SYN then
        let c = c\<lparr>rcv_nxt := seg_seq g + 1\<rparr>
        in (c\<lparr>c_state := SynReceived\<rparr>, fst (send_raw_segment c (SYN OR ACK) (snd_nxt c) (rcv_nxt c) [] s))
      else (c, s))"

definition receive_syn_received :: "segment \<Rightarrow> conn \<Rightarrow> conn" where
  "receive_syn_received g c =
     (if has g ACK \<and> tx_used (tx c) \<and> seg_ack g = tx_end_seq (tx c)
      then c\<lparr>tx := (tx c)\<lparr>tx_used := False\<rparr>, snd_una := seg_ack g, c_state := Established\<rparr> else c)"

definition receive_payload :: "segment \<Rightarrow> conn \<Rightarrow> tcp \<Rightarrow> (conn \<times> tcp) option" where
  "receive_payload g c s =
     (if seg_payload g = [] then Some (c, s)
      else if seg_seq g = rcv_nxt c then do {
        (c, ok) \<leftarrow> rx_push c (seg_payload g);
        if ok then do {
          c \<leftarrow> consume_out_of_order (c\<lparr>rcv_nxt := rcv_nxt c + of_nat (length (seg_payload g))\<rparr>);
          Some (c, send_ack c s)
        }
        else Some (c, send_ack c s)
      }
      else if sequence_greater (seg_seq g) (rcv_nxt c) then do {
        c \<leftarrow> queue_out_of_order c (seg_seq g) (seg_payload g);
        Some (c, send_ack c s)
      }
      else Some (c, send_ack c s))"

definition close_states :: "conn \<Rightarrow> tcp \<Rightarrow> conn" where
  "close_states c s =
     (let c = (if c_state c = FinWait1 \<and> \<not> tx_used (tx c) \<and> fin_sent c
               then if fin_received c then enter_time_wait s c else c\<lparr>c_state := FinWait2\<rparr> else c);
          c = (if c_state c = FinWait2 \<and> fin_received c then enter_time_wait s c else c)
      in if c_state c = Closing \<and> \<not> tx_used (tx c) then enter_time_wait s c else c)"

text \<open>From the processing of the acknowledgement on, for a synchronized connection.\<close>

definition receive_data :: "segment \<Rightarrow> conn \<Rightarrow> tcp \<Rightarrow> (conn \<times> tcp) option" where
  "receive_data g c s =
     (if has g ACK \<and> (sequence_less (seg_ack g) (snd_una c) \<or> sequence_greater (seg_ack g) (snd_nxt c)) then Some (c, s)
      else do {
        (c, s) \<leftarrow> (if has g ACK then ack_segment c (seg_ack g) s else Some (c, s));
        (c, s) \<leftarrow> receive_payload g c s;
        let (c, s) = (if has g FIN then process_fin c (seg_seq g + of_nat (length (seg_payload g))) s else (c, s));
        Some (close_states c s, s)
      })"

definition receive_conn :: "ip \<Rightarrow> segment \<Rightarrow> conn \<Rightarrow> tcp \<Rightarrow> (conn \<times> tcp) option" where
  "receive_conn src g c s =
     (if c_state c = TimeWait then
        let s = (if has g FIN then send_ack c s else s)
        in Some (c\<lparr>timer_tick := current_tick s\<rparr>, s)
      else
        let c = c\<lparr>advertised_window := seg_window g\<rparr>
        in if c_state c = Listen then receive_listen src g c s
           else if c_state c = SynSent then Some (receive_syn_sent g c s)
           else if c_state c = SynReceived then Some (receive_syn_received g c, s)
           else receive_data g c s)"

definition tcp_receive_packet :: "ip \<Rightarrow> u8 list \<Rightarrow> tcp \<Rightarrow> tcp option" where
  "tcp_receive_packet src packet s =
     (case decode_segment (local_ip s) src packet of
        None \<Rightarrow> Some s
      | Some g \<Rightarrow>
          if has g RST then Some (s\<lparr>conns := map (\<lambda>c. if peer_match src g c then cleared else c) (conns s)\<rparr>)
          else case find_idx (conn_match src g) (conns s) of
            None \<Rightarrow>
              Some (if has g SYN then send_rst src (seg_dst g) (seg_src g) 0 (seg_seq g + 1) True s
                    else send_rst src (seg_dst g) (seg_src g) (seg_ack g) (seg_seq g + of_nat (length (seg_payload g))) False s)
          | Some i \<Rightarrow> do {
              (c, s) \<leftarrow> receive_conn src g (conns s ! i) s;
              Some (set_conn i c s)
            })"

section \<open>The calls of a user\<close>

definition valid_handle :: "int \<Rightarrow> tcp \<Rightarrow> bool" where
  "valid_handle handle s \<longleftrightarrow> 0 \<le> handle \<and> handle < int MAX_CONNECTIONS \<and> c_used (conns s ! nat handle)"

text \<open>The caller's buffer, \<^const>\<open>None\<close> for the null pointer, and the length it passes.\<close>

definition tcp_send :: "int \<Rightarrow> u8 list option \<Rightarrow> nat \<Rightarrow> tcp \<Rightarrow> (tcp \<times> int) option" where
  "tcp_send handle data len s =
     (let i = nat handle; c = conns s ! i
      in if \<not> valid_handle handle s \<or> c_state c \<noteq> Established \<or> data = None \<and> 0 < len then Some (s, -1)
         else if len = 0 \<or> tx_used (tx c) \<or> advertised_window c = 0 \<or> cwnd c = 0 then Some (s, 0)
         else
           let n = min (min len TX_BUFFER_SIZE) (unat (advertised_window c))
           in if length (the data) < n then None
              else do {
                (c, s, ok) \<leftarrow> send_tracked_segment c (ACK OR PSH) (take n (the data)) s;
                Some (set_conn i c s, if ok then int n else -1)
              })"

text \<open>The result and the bytes copied to the caller; \<open>null\<close> says that the caller passed no buffer.\<close>

definition tcp_receive :: "int \<Rightarrow> bool \<Rightarrow> nat \<Rightarrow> tcp \<Rightarrow> (tcp \<times> int \<times> u8 list) option" where
  "tcp_receive handle null len s =
     (let i = nat handle; c = conns s ! i; n = min len (rx_available c)
      in if \<not> valid_handle handle s \<or> null \<and> 0 < len then Some (s, -1, [])
         else if rx_available c = 0 then Some (s, 0, [])
         else if length (rx c) < rx_head c + n then None
         else Some (set_conn i (rx_reset_if_empty (c\<lparr>rx_head := rx_head c + n\<rparr>)) s, int n, take n (drop (rx_head c) (rx c))))"

definition close_with :: "tcp_state \<Rightarrow> nat \<Rightarrow> tcp \<Rightarrow> (tcp \<times> int) option" where
  "close_with st i s =
     (if tx_used (tx (conns s ! i)) then Some (s, 0)
      else do {
        (c, s, ok) \<leftarrow> send_tracked_segment (conns s ! i) (FIN OR ACK) [] s;
        Some (if ok then (set_conn i (c\<lparr>fin_sent := True, c_state := st\<rparr>) s, 0) else (set_conn i c s, -1))
      })"

definition tcp_close :: "int \<Rightarrow> tcp \<Rightarrow> (tcp \<times> int) option" where
  "tcp_close handle s =
     (if \<not> valid_handle handle s then Some (s, -1)
      else case c_state (conns s ! nat handle) of
        Established \<Rightarrow> close_with FinWait1 (nat handle) s
      | CloseWait \<Rightarrow> close_with LastAck (nat handle) s
      | Listen \<Rightarrow> Some (set_conn (nat handle) cleared s, 0)
      | SynSent \<Rightarrow> Some (set_conn (nat handle) cleared s, 0)
      | SynReceived \<Rightarrow> Some (set_conn (nat handle) cleared s, 0)
      | _ \<Rightarrow> Some (s, 0))"

definition tick_conn :: "conn \<Rightarrow> tcp \<Rightarrow> (conn \<times> tcp) option" where
  "tick_conn c s =
     (if \<not> c_used c then Some (c, s)
      else if c_state c = TimeWait then
        Some (if TIME_WAIT_TICKS \<le> current_tick s - timer_tick c then cleared else c, s)
      else do {
        (c, s, go) \<leftarrow> (if tx_used (tx c) \<and> rto c \<le> current_tick s - sent_tick (tx c) then retransmit c s else Some (c, s, True));
        Some (if go \<and> (c_state c = SynSent \<or> c_state c = SynReceived) \<and> tx_used (tx c) \<and> MAX_RETRIES \<le> retransmit_count (tx c)
              then cleared else c, s)
      })"

fun tick_loop :: "nat list \<Rightarrow> tcp \<Rightarrow> tcp option" where
  "tick_loop [] s = Some s"
| "tick_loop (i # is) s = do { (c, s) \<leftarrow> tick_conn (conns s ! i) s; tick_loop is (set_conn i c s) }"

definition tcp_tick :: "tcp \<Rightarrow> tcp option" where
  "tcp_tick s = tick_loop [0..<MAX_CONNECTIONS] (s\<lparr>current_tick := current_tick s + 1\<rparr>)"

end
