(* ===== verification/Tcp_Safe.thy ===== *)
theory Tcp_Safe
  imports Tcp
begin

text \<open>
  What every connection of \<^verbatim>\<open>net/tcp.cpp\<close> satisfies at all times, that each operation on a connection keeps it and
  returns, and that therefore every sequence of calls and arriving packets does.
\<close>

unbundle bit_operations_syntax

named_theorems tcp_consts

lemmas tcp_sizes [tcp_consts] = MAX_CONNECTIONS_def RX_BUFFER_SIZE_def TX_BUFFER_SIZE_def INITIAL_RTO_def MAX_RTO_def MAX_RETRIES_def

section \<open>The invariant\<close>

definition rx_ok :: "conn \<Rightarrow> bool" where
  "rx_ok c \<longleftrightarrow> length (rx c) = RX_BUFFER_SIZE \<and> rx_head c \<le> rx_tail c \<and> rx_tail c \<le> RX_BUFFER_SIZE"

text \<open>A segment under way was sent at most \<open>n\<close> ticks ago, and one more for each time sending it again failed.\<close>

definition tx_ok :: "nat \<Rightarrow> u32 \<Rightarrow> conn \<Rightarrow> bool" where
  "tx_ok n t c \<longleftrightarrow>
     length (tx_payload (tx c)) = TX_BUFFER_SIZE \<and> tx_payload_len (tx c) \<le> TX_BUFFER_SIZE \<and>
     retransmit_count (tx c) \<le> MAX_RETRIES \<and> rto c \<le> MAX_RTO \<and>
     (tx_used (tx c) \<longrightarrow>
        c_used c \<and> c_state c \<noteq> TimeWait \<and> snd_nxt c = tx_end_seq (tx c) \<and>
        tx_end_seq (tx c) = tx_seq (tx c) + seq_advance (tx_flags (tx c)) (tx_payload_len (tx c)) \<and>
        unat (t - sent_tick (tx c)) \<le> n + unat (retransmit_count (tx c)))"

definition ooo_ok :: "conn \<Rightarrow> bool" where
  "ooo_ok c \<longleftrightarrow> length (ooo_data (ooo c)) = TX_BUFFER_SIZE \<and> ooo_len (ooo c) \<le> TX_BUFFER_SIZE"

definition conn_within :: "nat \<Rightarrow> u32 \<Rightarrow> conn \<Rightarrow> bool" where
  "conn_within n t c \<longleftrightarrow> rx_ok c \<and> tx_ok n t c \<and> ooo_ok c \<and> (c_used c \<longrightarrow> local_port c \<noteq> 0 \<and> c_state c \<noteq> Closed)"

abbreviation conn_ok :: "u32 \<Rightarrow> conn \<Rightarrow> bool" where
  "conn_ok \<equiv> conn_within 480"

definition tcp_ok :: "tcp \<Rightarrow> bool" where
  "tcp_ok s \<longleftrightarrow> length (conns s) = MAX_CONNECTIONS \<and> (\<forall>c \<in> set (conns s). conn_ok (current_tick s) c)"

lemmas conn_oks = conn_within_def rx_ok_def tx_ok_def ooo_ok_def

text \<open>The bytes of a connection that wait to be read.\<close>

definition unread :: "conn \<Rightarrow> u8 list" where
  "unread c = take (rx_tail c - rx_head c) (drop (rx_head c) (rx c))"

text \<open>Sending leaves everything but the packets passed on as it is.\<close>

definition quiet :: "tcp \<Rightarrow> tcp \<Rightarrow> bool" where
  "quiet s s' \<longleftrightarrow> (\<exists>ps. s' = s\<lparr>sent := sent s @ ps\<rparr>)"

lemma quiet_refl [simp, intro]: "quiet s s"
  by (auto simp: quiet_def intro: exI [of _ "[]"])

lemma quiet_trans [trans]: "quiet s s' \<Longrightarrow> quiet s' s'' \<Longrightarrow> quiet s s''"
  by (auto simp: quiet_def)

lemma quiet_fields:
  assumes "quiet s s'"
  shows "conns s' = conns s" and "current_tick s' = current_tick s" and "next_ephemeral_port s' = next_ephemeral_port s"
    and "local_ip s' = local_ip s" and "link s' = link s"
  using assms by (auto simp: quiet_def)

lemma quiet_ipv4_send: "ipv4_send dst p s = (s', ok) \<Longrightarrow> quiet s s'"
  by (auto simp: quiet_def ipv4_send_def)

lemma quiet_send_raw_segment: "send_raw_segment c fl seq ack p s = (s', ok) \<Longrightarrow> quiet s s'"
  by (auto simp: send_raw_segment_def Let_def split: if_splits dest: quiet_ipv4_send)

lemma quiet_fst_send_raw_segment [simp]: "quiet s (fst (send_raw_segment c fl seq ack p s))"
  using quiet_send_raw_segment [of c fl seq ack p s] by (cases "send_raw_segment c fl seq ack p s") simp

lemma quiet_send_ack [simp]: "quiet s (send_ack c s)"
  by (simp add: send_ack_def)

lemma quiet_send_rst [simp]: "quiet s (send_rst dst sp dp seq ack b s)"
  unfolding send_rst_def Let_def ipv4_send_def quiet_def fst_conv by blast

section \<open>The buffers\<close>

lemma conn_within_cleared [simp]: "conn_within n t cleared"
  by (simp add: conn_oks cleared_def zero_tx_def zero_ooo_def tcp_consts)

lemma length_unread: "rx_ok c \<Longrightarrow> length (unread c) = rx_tail c - rx_head c"
  by (auto simp: rx_ok_def unread_def)

lemma rx_ok_sizes: "rx_ok c \<Longrightarrow> rx_available c = length (unread c)"
    "rx_ok c \<Longrightarrow> rx_free_space c = RX_BUFFER_SIZE - length (unread c)"
  by (auto simp: length_unread rx_available_def rx_free_space_def)

lemma blit_at:
  assumes "off + length d \<le> length b"
  shows "blit b off d = Some (take off b @ d @ drop (off + length d) b)"
  using assms by (simp add: blit_def)

text \<open>Compacting keeps the unread bytes.\<close>

lemma rx_compact_ok:
  assumes "rx_ok c"
  obtains b where "rx_compact c = Some (c\<lparr>rx := b, rx_head := 0, rx_tail := length (unread c)\<rparr>)"
    "length b = RX_BUFFER_SIZE" "take (length (unread c)) b = unread c"
proof (cases "unread c = []")
  case True
  then show thesis using that [of "rx c"] assms by (simp add: rx_compact_def rx_ok_sizes rx_ok_def)
next
  case False
  have len: "length (unread c) \<le> length (rx c)" "rx_head c + length (unread c) \<le> length (rx c)"
    using assms by (auto simp: length_unread rx_ok_def)
  have u: "take (length (unread c)) (drop (rx_head c) (rx c)) = unread c"
    using assms by (simp add: length_unread) (simp add: unread_def)
  have "rx_compact c = Some (c\<lparr>rx := unread c @ drop (length (unread c)) (rx c), rx_head := 0, rx_tail := length (unread c)\<rparr>)"
    using False len by (simp add: rx_compact_def rx_ok_sizes [OF assms] u blit_at Let_def)
  then show thesis using that [of "unread c @ drop (length (unread c)) (rx c)"] len assms by (simp add: rx_ok_def)
qed

lemma rx_append:
  assumes "rx_ok c" "rx_tail c + length d \<le> RX_BUFFER_SIZE"
  obtains b where "blit (rx c) (rx_tail c) d = Some b" "rx_ok (c\<lparr>rx := b, rx_tail := rx_tail c + length d\<rparr>)"
    "unread (c\<lparr>rx := b, rx_tail := rx_tail c + length d\<rparr>) = unread c @ d"
  using assms that [of "take (rx_tail c) (rx c) @ d @ drop (rx_tail c + length d) (rx c)"]
  by (auto simp: blit_at rx_ok_def unread_def drop_take)

lemma rx_push_ok:
  assumes "rx_ok c"
  obtains b h t where "rx_push c d = Some (c\<lparr>rx := b, rx_head := h, rx_tail := t\<rparr>, length d \<le> rx_free_space c)"
    "rx_ok (c\<lparr>rx := b, rx_head := h, rx_tail := t\<rparr>)"
    "unread (c\<lparr>rx := b, rx_head := h, rx_tail := t\<rparr>) = unread c @ (if length d \<le> rx_free_space c then d else [])"
proof -
  consider (none) "d = []" | (full) "d \<noteq> []" "rx_free_space c < length d"
    | (fits) "d \<noteq> []" "length d \<le> rx_free_space c" "rx_tail c + length d \<le> RX_BUFFER_SIZE"
    | (moves) "d \<noteq> []" "length d \<le> rx_free_space c" "RX_BUFFER_SIZE < rx_tail c + length d"
    by linarith
  then show thesis
  proof cases
    case none
    then show thesis using that [of "rx_tail c" "rx_head c" "rx c"] assms by (simp add: rx_push_def)
  next
    case full
    then show thesis using that [of "rx_tail c" "rx_head c" "rx c"] assms by (simp add: rx_push_def)
  next
    case fits
    obtain b where b: "blit (rx c) (rx_tail c) d = Some b" "rx_ok (c\<lparr>rx := b, rx_tail := rx_tail c + length d\<rparr>)"
      "unread (c\<lparr>rx := b, rx_tail := rx_tail c + length d\<rparr>) = unread c @ d"
      using rx_append [OF assms fits(3)] .
    then show thesis using that [of "rx_tail c + length d" "rx_head c" b] fits
      by (simp add: rx_push_def rx_ok_def unread_def)
  next
    case moves
    obtain b0 where b0: "rx_compact c = Some (c\<lparr>rx := b0, rx_head := 0, rx_tail := length (unread c)\<rparr>)"
      "length b0 = RX_BUFFER_SIZE" "take (length (unread c)) b0 = unread c"
      using rx_compact_ok [OF assms] .
    let ?c = "c\<lparr>rx := b0, rx_head := 0, rx_tail := length (unread c)\<rparr>"
    have le: "length (unread c) + length d \<le> RX_BUFFER_SIZE"
      using moves assms by (auto simp: rx_ok_sizes length_unread rx_ok_def)
    then have ok: "rx_ok ?c" "unread ?c = unread c" using b0 by (auto simp: rx_ok_def unread_def [of ?c])
    obtain b where b: "blit (rx ?c) (rx_tail ?c) d = Some b" "rx_ok (?c\<lparr>rx := b, rx_tail := rx_tail ?c + length d\<rparr>)"
      "unread (?c\<lparr>rx := b, rx_tail := rx_tail ?c + length d\<rparr>) = unread ?c @ d"
      using rx_append [OF ok(1), of d] le by auto
    then show thesis using that [of "length (unread c) + length d" 0 b] moves le ok b0
      by (simp add: rx_push_def rx_ok_def unread_def)
  qed
qed

text \<open>What later packets of the peer depend on: the receiving side of a connection and whose it is.\<close>

definition rcv_same :: "conn \<Rightarrow> conn \<Rightarrow> bool" where
  "rcv_same c c' \<longleftrightarrow>
     rcv_nxt c' = rcv_nxt c \<and> fin_received c' = fin_received c \<and> unread c' = unread c \<and> ooo c' = ooo c \<and>
     remote c' = remote c \<and> local_port c' = local_port c \<and> remote_port c' = remote_port c \<and> c_used c' = c_used c \<and>
     (c_state c' \<in> {Listen, SynSent} \<longrightarrow> c_state c' = c_state c)"

lemma rcv_same_refl [simp, intro]: "rcv_same c c"
  by (simp add: rcv_same_def)

lemma rcv_same_trans [trans]: "rcv_same c c' \<Longrightarrow> rcv_same c' c'' \<Longrightarrow> rcv_same c c''"
  by (auto simp: rcv_same_def)

section \<open>Sending\<close>

lemma tick_later:
  fixes t x :: u32
  shows "unat (t + 1 - x) \<le> unat (t - x) + 1"
proof -
  have "t + 1 - x = (t - x) + 1" by simp
  then have "unat (t + 1 - x) = unat ((t - x) + 1)" by (rule arg_cong)
  then show ?thesis by (simp add: unat_word_ariths(1))
qed

lemma conn_later: "conn_ok t c \<Longrightarrow> conn_within 481 (t + 1) c"
  using tick_later [of t "sent_tick (tx c)"] by (auto simp: conn_oks)

lemma conn_within_mono: "conn_within n t c \<Longrightarrow> n \<le> m \<Longrightarrow> conn_within m t c"
  by (auto simp: conn_oks)

lemma conn_idle: "conn_within n t c \<Longrightarrow> \<not> tx_used (tx c) \<Longrightarrow> conn_within m t' c"
  by (auto simp: conn_oks)

lemma send_tracked_segment_ok:
  assumes c: "conn_ok (current_tick s) c" and p: "length p \<le> TX_BUFFER_SIZE" and st: "c_used c" "c_state c \<noteq> TimeWait"
  obtains (failed) s' where "send_tracked_segment c fl p s = Some (c, s', False)" "quiet s s'"
    | (made) s' c' where "send_tracked_segment c fl p s = Some (c', s', True)" "quiet s s'" "conn_ok (current_tick s) c'"
        "rcv_same c c'" "c_state c' = c_state c" "tx_used (tx c')"
proof -
  obtain s' ok where r: "send_raw_segment c fl (snd_nxt c) (rcv_nxt c) p s = (s', ok)" by fastforce
  have q: "quiet s s'" using quiet_send_raw_segment [OF r] .
  have b: "blit (tx_payload (tx c)) 0 p = Some (p @ drop (length p) (tx_payload (tx c)))"
    using c p by (simp add: blit_at conn_oks)
  show thesis
  proof (cases "tx_used (tx c) \<or> \<not> ok")
    case True
    then have "send_tracked_segment c fl p s = Some (c, if tx_used (tx c) then s else s', False)"
      using r p by (auto simp: send_tracked_segment_def)
    then show thesis using failed q by (auto split: if_splits)
  next
    case False
    let ?c = "c\<lparr>tx := \<lparr>tx_used = True, tx_seq = snd_nxt c, tx_end_seq = snd_nxt c + seq_advance fl (length p), tx_flags = fl,
                tx_payload_len = length p, tx_payload = p @ drop (length p) (tx_payload (tx c)), sent_tick = current_tick s, retransmit_count = 0\<rparr>,
              snd_nxt := snd_nxt c + seq_advance fl (length p), timer_tick := current_tick s\<rparr>"
    have "send_tracked_segment c fl p s = Some (?c, s', True)"
      using False r p b quiet_fields(2) [OF q] by (simp add: send_tracked_segment_def Let_def)
    moreover have "conn_ok (current_tick s) ?c" using c p st by (simp add: conn_oks)
    moreover have "rcv_same c ?c" by (simp add: rcv_same_def unread_def)
    ultimately show thesis using made [of ?c s'] q by simp
  qed
qed

lemma retransmit_count_step:
  fixes n :: u32
  assumes "\<not> MAX_RETRIES \<le> n"
  shows "unat (n + 1) = unat n + 1" and "n + 1 \<le> MAX_RETRIES"
proof -
  have n: "unat n < 6" using assms by (simp add: MAX_RETRIES_def word_le_nat_alt)
  then show "unat (n + 1) = unat n + 1" by (simp add: unat_word_ariths(1))
  then show "n + 1 \<le> MAX_RETRIES" using n by (simp add: MAX_RETRIES_def word_le_nat_alt)
qed

text \<open>Sending a segment again: given up after the last retry, counted otherwise.\<close>

lemma retransmit_ok:
  assumes c: "conn_within 481 (current_tick s) c"
  obtains (idle) "\<not> tx_used (tx c)" "retransmit c s = Some (c, s, False)"
    | (gone) "tx_used (tx c)" "retransmit c s = Some (cleared, s, False)"
    | (again) s' c' ok where "tx_used (tx c)" "retransmit c s = Some (c', s', ok)" "quiet s s'" "conn_ok (current_tick s) c'"
        "rcv_same c c'" "c_state c' = c_state c" "tx_used (tx c')" "unat (retransmit_count (tx c')) = unat (retransmit_count (tx c)) + 1"
proof -
  let ?c = "c\<lparr>tx := (tx c)\<lparr>retransmit_count := retransmit_count (tx c) + 1\<rparr>, rto := (if MAX_RTO < rto c * 2 then MAX_RTO else rto c * 2),
              ssthresh := halved c, cwnd := 1\<rparr>"
  obtain s' ok where r: "send_raw_segment ?c (tx_flags (tx c)) (tx_seq (tx c)) (rcv_nxt c)
      (take (tx_payload_len (tx c)) (tx_payload (tx c))) s = (s', ok)" by fastforce
  have q: "quiet s s'" using quiet_send_raw_segment [OF r] .
  show thesis
  proof (cases "\<not> tx_used (tx c) \<or> MAX_RETRIES \<le> retransmit_count (tx c)")
    case True
    then show thesis using idle gone by (cases "tx_used (tx c)") (auto simp: retransmit_def)
  next
    case False
    note n = retransmit_count_step [of "retransmit_count (tx c)"]
    let ?d = "if ok then ?c\<lparr>tx := (tx ?c)\<lparr>sent_tick := current_tick s\<rparr>, timer_tick := current_tick s\<rparr> else ?c"
    have "retransmit c s = Some (?d, s', ok)"
      using False r c quiet_fields(2) [OF q] by (simp add: retransmit_def conn_oks Let_def)
    moreover have "conn_ok (current_tick s) ?d" using c False n by (auto simp: conn_oks)
    moreover have "rcv_same c ?d" by (simp add: rcv_same_def unread_def)
    moreover have "c_state ?d = c_state c" "tx_used (tx ?d)" "retransmit_count (tx ?d) = retransmit_count (tx c) + 1"
      using False by simp_all
    ultimately show thesis using again [of ?d s' ok] q False n by (simp del: if_split)
  qed
qed

section \<open>Arriving segments\<close>

lemma cleared_fields [simp]: "\<not> c_used cleared" "cleared\<lparr>duplicate_acks := 0\<rparr> = cleared"
  by (simp_all add: cleared_def)

text \<open>A connection after a step of its own: it is well formed, and either unused or the same connection.\<close>

definition conn_step :: "u32 \<Rightarrow> conn \<Rightarrow> conn \<Rightarrow> bool" where
  "conn_step t c c' \<longleftrightarrow> conn_ok t c' \<and> (c_used c' \<longrightarrow> rcv_same c c')"

lemma conn_step_refl: "conn_ok t c \<Longrightarrow> conn_step t c c"
  by (simp add: conn_step_def)

lemma conn_step_cleared [simp]: "conn_step t c cleared"
  by (simp add: conn_step_def)

lemma finish_ack_step:
  assumes "conn_ok t c" "\<not> tx_used (tx c)"
  shows "conn_step t c (finish_ack ack c)"
  using assms by (auto simp: finish_ack_def Let_def conn_step_def conn_oks rcv_same_def unread_def cleared_def zero_tx_def zero_ooo_def tcp_consts)

lemma fast_retransmit_ok:
  assumes c: "conn_ok (current_tick s) c'" "rcv_same c c'"
  obtains d s' where "do { (c, s, ok) \<leftarrow> retransmit c' s; Some (c\<lparr>duplicate_acks := 0\<rparr>, s) } = Some (d, s')" "quiet s s'"
    "conn_step (current_tick s) c d"
proof -
  have "conn_within 481 (current_tick s) c'" using conn_within_mono [OF c(1), of 481] by simp
  then show thesis
  proof (cases rule: retransmit_ok)
    case idle
    have "conn_step (current_tick s) c (c'\<lparr>duplicate_acks := 0\<rparr>)" using c by (simp add: conn_step_def conn_oks rcv_same_def unread_def)
    then show thesis using idle that by simp
  next
    case gone
    then show thesis using that by simp
  next
    case (again s' d ok)
    have "conn_step (current_tick s) c (d\<lparr>duplicate_acks := 0\<rparr>)"
      using again(4,5) c(2) by (simp add: conn_step_def conn_oks rcv_same_def unread_def)
    then show thesis using again that by simp
  qed
qed

lemma ack_segment_ok:
  assumes c: "conn_ok (current_tick s) c"
  obtains c' s' where "ack_segment c ack s = Some (c', s')" "quiet s s'" "conn_step (current_tick s) c c'"
proof -
  let ?t = "current_tick s"
  let ?out = "\<not> tx_used (tx c) \<or> sequence_less ack (tx_seq (tx c)) \<or> sequence_greater ack (tx_end_seq (tx c))"
  let ?d = "if duplicate_acks c < 255 then duplicate_acks c + 1 else duplicate_acks c"
  consider (out) ?out | (dup) "\<not> ?out" "ack = last_ack c" "\<not> 3 \<le> ?d" | (third) "\<not> ?out" "ack = last_ack c" "3 \<le> ?d"
    | (new) "\<not> ?out" "ack \<noteq> last_ack c" by blast
  then show thesis
  proof cases
    case out
    then show thesis using that [of c s] c by (simp add: ack_segment_def conn_step_refl)
  next
    case dup
    then have "ack_segment c ack s = Some (c\<lparr>duplicate_acks := ?d\<rparr>, s)" by (simp add: ack_segment_def Let_def)
    moreover have "conn_step ?t c (c\<lparr>duplicate_acks := ?d\<rparr>)" using c by (simp add: conn_step_def conn_oks rcv_same_def unread_def)
    ultimately show thesis using that by blast
  next
    case third
    let ?c = "c\<lparr>duplicate_acks := ?d, ssthresh := halved c, cwnd := halved c + 3\<rparr>"
    have r: "ack_segment c ack s = do { (c, s, ok) \<leftarrow> retransmit ?c s; Some (c\<lparr>duplicate_acks := 0\<rparr>, s) }"
      using third by (simp add: ack_segment_def Let_def)
    have "conn_ok ?t ?c" "rcv_same c ?c" using c by (simp_all add: conn_oks rcv_same_def unread_def)
    then show thesis by (rule fast_retransmit_ok) (rule that, simp_all only: r)
  next
    case new
    let ?c = "c\<lparr>last_ack := ack, duplicate_acks := 0, tx := (tx c)\<lparr>tx_used := False\<rparr>,
                snd_una := (if sequence_greater ack (snd_una c) then ack else snd_una c),
                cwnd := (if cwnd c < ssthresh c \<or> current_tick s AND 3 = 0 then cwnd c + 1 else cwnd c), c_retries := 0, rto := INITIAL_RTO\<rparr>"
    have r: "ack_segment c ack s = Some (finish_ack ack ?c, s)" using new by (simp add: ack_segment_def)
    have "conn_step ?t ?c (finish_ack ack ?c)" using c by (intro finish_ack_step) (simp_all add: conn_oks tcp_consts)
    moreover have "rcv_same c ?c" by (simp add: rcv_same_def unread_def)
    ultimately have "conn_step ?t c (finish_ack ack ?c)" unfolding conn_step_def using rcv_same_trans by blast
    then show thesis using that r by blast
  qed
qed

text \<open>A connection before and after data is stored: only the receive buffer, the next number expected and the kept segment change.\<close>

definition same_peer :: "conn \<Rightarrow> conn \<Rightarrow> bool" where
  "same_peer c c' \<longleftrightarrow>
     remote c' = remote c \<and> local_port c' = local_port c \<and> remote_port c' = remote_port c \<and> c_used c' = c_used c \<and>
     c_state c' = c_state c \<and> fin_received c' = fin_received c"

lemma same_peer_refl [simp, intro]: "same_peer c c"
  by (simp add: same_peer_def)

lemma same_peer_trans [trans]: "same_peer c c' \<Longrightarrow> same_peer c' c'' \<Longrightarrow> same_peer c c''"
  by (auto simp: same_peer_def)

lemma push_ok:
  assumes c: "conn_ok t c"
  obtains c' where "rx_push c d = Some (c', length d \<le> rx_free_space c)" "conn_ok t c'" "same_peer c c'" "rcv_nxt c' = rcv_nxt c"
    "ooo c' = ooo c" "unread c' = unread c @ (if length d \<le> rx_free_space c then d else [])"
proof -
  have "rx_ok c" using c by (simp add: conn_within_def)
  then obtain b h n where r: "rx_push c d = Some (c\<lparr>rx := b, rx_head := h, rx_tail := n\<rparr>, length d \<le> rx_free_space c)"
    "rx_ok (c\<lparr>rx := b, rx_head := h, rx_tail := n\<rparr>)"
    "unread (c\<lparr>rx := b, rx_head := h, rx_tail := n\<rparr>) = unread c @ (if length d \<le> rx_free_space c then d else [])"
    by (rule rx_push_ok)
  have "conn_ok t (c\<lparr>rx := b, rx_head := h, rx_tail := n\<rparr>)" using r(2) c by (simp add: conn_within_def tx_ok_def ooo_ok_def)
  then show thesis using that [OF r(1) _ _ _ _ r(3)] by (simp add: same_peer_def)
qed

lemma consume_out_of_order_ok:
  assumes c: "conn_ok t c"
  obtains (kept) c' where "consume_out_of_order c = Some c'" "conn_ok t c'" "same_peer c c'" "rcv_nxt c' = rcv_nxt c"
      "ooo c' = ooo c" "unread c' = unread c"
    | (taken) c' where "consume_out_of_order c = Some c'" "conn_ok t c'" "same_peer c c'" "ooo_used (ooo c)" "ooo_seq (ooo c) = rcv_nxt c"
      "unread c' = unread c @ take (ooo_len (ooo c)) (ooo_data (ooo c))" "rcv_nxt c' = rcv_nxt c + of_nat (ooo_len (ooo c))"
      "\<not> ooo_used (ooo c')"
proof (cases "ooo_used (ooo c) \<and> ooo_seq (ooo c) = rcv_nxt c")
  case False
  then show thesis using kept [of c] c by (auto simp: consume_out_of_order_def)
next
  case True
  let ?d = "take (ooo_len (ooo c)) (ooo_data (ooo c))"
  obtain c' where r: "rx_push c ?d = Some (c', length ?d \<le> rx_free_space c)" "conn_ok t c'" "same_peer c c'" "rcv_nxt c' = rcv_nxt c"
    "ooo c' = ooo c" "unread c' = unread c @ (if length ?d \<le> rx_free_space c then ?d else [])"
    using push_ok [OF c] .
  have len: "ooo_len (ooo c) \<le> length (ooo_data (ooo c))" using c by (simp add: conn_oks)
  show thesis
  proof (cases "length ?d \<le> rx_free_space c")
    case False
    then show thesis using kept [of c'] r len True by (simp add: consume_out_of_order_def)
  next
    case fits: True
    let ?c = "c'\<lparr>rcv_nxt := rcv_nxt c' + of_nat (ooo_len (ooo c')), ooo := zero_ooo\<rparr>"
    have "consume_out_of_order c = Some ?c" using fits r(1) len True by (simp add: consume_out_of_order_def)
    moreover have "conn_ok t ?c" using r(2) by (simp add: conn_oks zero_ooo_def)
    moreover have "same_peer c ?c" using r(3) by (simp add: same_peer_def)
    moreover have "unread ?c = unread c'" by (simp add: unread_def)
    ultimately show thesis using taken [of ?c] True fits r(4,5,6) by (simp add: zero_ooo_def)
  qed
qed

lemma queue_out_of_order_ok:
  assumes c: "conn_ok t c"
  obtains (kept) "queue_out_of_order c seq d = Some c"
    | (queued) c' where "queue_out_of_order c seq d = Some c'" "conn_ok t c'" "same_peer c c'" "rcv_nxt c' = rcv_nxt c" "unread c' = unread c"
      "ooo_seq (ooo c') = seq" "take (ooo_len (ooo c')) (ooo_data (ooo c')) = d"
proof (cases "d = [] \<or> ooo_used (ooo c) \<or> TX_BUFFER_SIZE < length d \<or> sequence_less seq (rcv_nxt c)")
  case True
  then show thesis using kept by (simp add: queue_out_of_order_def)
next
  case False
  let ?c = "c\<lparr>ooo := \<lparr>ooo_used = True, ooo_seq = seq, ooo_len = length d, ooo_data = d @ drop (length d) (ooo_data (ooo c))\<rparr>\<rparr>"
  have "queue_out_of_order c seq d = Some ?c" using False c by (simp add: queue_out_of_order_def blit_at conn_oks)
  moreover have "conn_ok t ?c" using c False by (simp add: conn_oks)
  ultimately show thesis using queued [of ?c] by (simp add: same_peer_def unread_def)
qed

lemma enter_time_wait_ok: "conn_within n t c \<Longrightarrow> conn_within m t' (enter_time_wait s c)"
  by (simp add: conn_oks enter_time_wait_def)

lemma enter_time_wait_same [simp]: "rcv_same c (enter_time_wait s c)"
  by (simp add: rcv_same_def enter_time_wait_def unread_def)

lemma conn_state_ok:
  "conn_within n t c \<Longrightarrow> st \<noteq> TimeWait \<Longrightarrow> st \<noteq> Closed \<Longrightarrow> conn_within n t (c\<lparr>c_state := st\<rparr>)"
  by (auto simp: conn_oks)

lemma rcv_same_state: "st \<notin> {Listen, SynSent} \<Longrightarrow> rcv_same c (c\<lparr>c_state := st\<rparr>)"
  by (simp add: rcv_same_def unread_def)

lemma close_states_ok:
  assumes "conn_ok (current_tick s) c"
  shows "conn_ok (current_tick s) (close_states c s)" and "rcv_same c (close_states c s)"
proof -
  show "conn_ok (current_tick s) (close_states c s)"
    using assms by (simp add: close_states_def Let_def enter_time_wait_ok conn_state_ok)
  show "rcv_same c (close_states c s)" by (simp add: close_states_def Let_def rcv_same_def enter_time_wait_def unread_def)
qed

text \<open>The FIN of the peer counts only when everything before it has arrived.\<close>

lemma process_fin_ok:
  assumes c: "conn_ok (current_tick s) c"
  obtains (early) "process_fin c seq s = (c, s)"
    | (finish) c' s' where "process_fin c seq s = (c', s')" "quiet s s'" "conn_ok (current_tick s) c'" "seq = rcv_nxt c"
        "rcv_same (c\<lparr>rcv_nxt := rcv_nxt c + 1, fin_received := True\<rparr>) c'"
proof (cases "seq = rcv_nxt c")
  case False
  then show thesis using early by (simp add: process_fin_def)
next
  case True
  let ?c = "c\<lparr>rcv_nxt := rcv_nxt c + 1, fin_received := True\<rparr>" and ?s = "send_ack (c\<lparr>rcv_nxt := rcv_nxt c + 1, fin_received := True\<rparr>) s"
  have ok: "conn_ok (current_tick s) ?c" using c by (simp add: conn_oks)
  have "conn_ok (current_tick s) (fst (process_fin c seq s)) \<and> rcv_same ?c (fst (process_fin c seq s)) \<and> snd (process_fin c seq s) = ?s"
    using True ok by (cases "c_state c") (simp_all add: process_fin_def Let_def enter_time_wait_ok conn_state_ok rcv_same_state)
  then show thesis using finish [of "fst (process_fin c seq s)" ?s] True by (metis prod.collapse quiet_send_ack)
qed

text \<open>
  A law of the receiving side: a property of a connection that storing the payload of an admissible segment keeps, in order or out
  of order, and that the FIN keeps.
\<close>

locale receive_law =
  fixes P :: "conn \<Rightarrow> bool" and A :: "segment \<Rightarrow> bool"
  assumes law_same: "\<lbrakk>P c; rcv_same c c'\<rbrakk> \<Longrightarrow> P c'"
    and law_push: "\<lbrakk>P c; A g; seg_seq g = rcv_nxt c; same_peer c c'; ooo c' = ooo c; unread c' = unread c @ seg_payload g;
                   rcv_nxt c' = rcv_nxt c + of_nat (length (seg_payload g)); seg_payload g \<noteq> []\<rbrakk> \<Longrightarrow> P c'"
    and law_taken: "\<lbrakk>P c; same_peer c c'; ooo_used (ooo c); ooo_seq (ooo c) = rcv_nxt c;
                    unread c' = unread c @ take (ooo_len (ooo c)) (ooo_data (ooo c)); ooo_len (ooo c) \<le> length (ooo_data (ooo c));
                    rcv_nxt c' = rcv_nxt c + of_nat (ooo_len (ooo c)); \<not> ooo_used (ooo c')\<rbrakk> \<Longrightarrow> P c'"
    and law_queued: "\<lbrakk>P c; A g; same_peer c c'; rcv_nxt c' = rcv_nxt c; unread c' = unread c; ooo_seq (ooo c') = seg_seq g;
                     take (ooo_len (ooo c')) (ooo_data (ooo c')) = seg_payload g; ooo_len (ooo c') \<le> length (ooo_data (ooo c'))\<rbrakk> \<Longrightarrow> P c'"
    and law_fin: "\<lbrakk>P c; A g; has g FIN; seg_seq g + of_nat (length (seg_payload g)) = rcv_nxt c\<rbrakk>
                  \<Longrightarrow> P (c\<lparr>rcv_nxt := rcv_nxt c + 1, fin_received := True\<rparr>)"
begin

definition lawful :: "u32 \<Rightarrow> conn \<Rightarrow> bool" where
  "lawful t c \<longleftrightarrow> conn_ok t c \<and> (c_used c \<longrightarrow> P c)"

lemma lawful_same: "lawful t c \<Longrightarrow> conn_ok t c' \<Longrightarrow> rcv_same c c' \<Longrightarrow> lawful t c'"
  unfolding lawful_def using law_same rcv_same_def by metis

lemma lawful_stored:
  assumes "lawful t c" "conn_ok t c'" "same_peer c c'" "rcv_nxt c' = rcv_nxt c" "ooo c' = ooo c" "unread c' = unread c"
  shows "lawful t c'"
  using assms by (intro lawful_same [OF assms(1,2)]) (simp add: rcv_same_def same_peer_def)

lemma consume_lawful:
  assumes c: "lawful t c"
  obtains c' where "consume_out_of_order c = Some c'" "lawful t c'"
proof -
  have ok: "conn_ok t c" using c by (simp add: lawful_def)
  then show thesis
  proof (cases rule: consume_out_of_order_ok)
    case (kept c')
    then show thesis using that lawful_stored [OF c] by blast
  next
    case (taken c')
    have "ooo_len (ooo c) \<le> length (ooo_data (ooo c))" using ok by (simp add: conn_oks)
    then have "c_used c' \<longrightarrow> P c'" using law_taken [OF _ taken(3,4,5,6) _ taken(7,8)] c taken(3) by (simp add: lawful_def same_peer_def)
    then show thesis using that taken(1,2) by (simp add: lawful_def)
  qed
qed

lemma queue_lawful:
  assumes c: "lawful t c" and g: "A g"
  obtains c' where "queue_out_of_order c (seg_seq g) (seg_payload g) = Some c'" "lawful t c'"
proof -
  have ok: "conn_ok t c" using c by (simp add: lawful_def)
  then show thesis
  proof (cases rule: queue_out_of_order_ok [where seq = "seg_seq g" and d = "seg_payload g"])
    case kept
    then show thesis using that c by blast
  next
    case (queued c')
    have "ooo_len (ooo c') \<le> length (ooo_data (ooo c'))" using queued(2) by (simp add: conn_oks)
    then have "c_used c' \<longrightarrow> P c'" using law_queued [OF _ g queued(3-7)] c queued(3) by (simp add: lawful_def same_peer_def)
    then show thesis using that queued(1,2) by (simp add: lawful_def)
  qed
qed

lemma receive_payload_lawful:
  assumes c: "lawful (current_tick s) c" and g: "A g"
  obtains c' s' where "receive_payload g c s = Some (c', s')" "quiet s s'" "lawful (current_tick s) c'"
proof -
  let ?t = "current_tick s" and ?p = "seg_payload g"
  have ok: "conn_ok ?t c" using c by (simp add: lawful_def)
  obtain c1 where r: "rx_push c ?p = Some (c1, length ?p \<le> rx_free_space c)" "conn_ok ?t c1" "same_peer c c1" "rcv_nxt c1 = rcv_nxt c"
    "ooo c1 = ooo c" "unread c1 = unread c @ (if length ?p \<le> rx_free_space c then ?p else [])"
    using push_ok [OF ok] .
  let ?c = "c1\<lparr>rcv_nxt := rcv_nxt c1 + of_nat (length ?p)\<rparr>"
  consider (none) "?p = []" | (full) "?p \<noteq> []" "seg_seq g = rcv_nxt c" "\<not> length ?p \<le> rx_free_space c"
    | (inorder) "?p \<noteq> []" "seg_seq g = rcv_nxt c" "length ?p \<le> rx_free_space c"
    | (later) "?p \<noteq> []" "seg_seq g \<noteq> rcv_nxt c" "sequence_greater (seg_seq g) (rcv_nxt c)"
    | (old) "?p \<noteq> []" "seg_seq g \<noteq> rcv_nxt c" "\<not> sequence_greater (seg_seq g) (rcv_nxt c)" by blast
  then show thesis
  proof cases
    case none
    then show thesis using that [of c s] c by (simp add: receive_payload_def)
  next
    case full
    then show thesis using that [of c1 "send_ack c1 s"] r lawful_stored [OF c r(2-5)] by (simp add: receive_payload_def)
  next
    case inorder
    have "unread ?c = unread c @ ?p" using r(6) inorder by (simp add: unread_def)
    then have "c_used c \<longrightarrow> P ?c"
      using law_push [OF _ g inorder(2), of ?c] c r(3,4,5) inorder(1) by (simp add: lawful_def same_peer_def)
    then have "lawful ?t ?c" using r(2,3) by (simp add: lawful_def same_peer_def conn_oks)
    then obtain c2 where "consume_out_of_order ?c = Some c2" "lawful ?t c2" by (rule consume_lawful)
    then show thesis using that [of c2 "send_ack c2 s"] inorder r(1) by (simp add: receive_payload_def)
  next
    case later
    obtain c2 where "queue_out_of_order c (seg_seq g) ?p = Some c2" "lawful ?t c2" using queue_lawful [OF c g] .
    then show thesis using that [of c2 "send_ack c2 s"] later by (simp add: receive_payload_def)
  next
    case old
    then show thesis using that [of c "send_ack c s"] c by (simp add: receive_payload_def)
  qed
qed

lemma process_fin_lawful:
  assumes c: "lawful (current_tick s) c" and g: "A g" "has g FIN"
  obtains c' s' where "process_fin c (seg_seq g + of_nat (length (seg_payload g))) s = (c', s')" "quiet s s'" "lawful (current_tick s) c'"
proof -
  have "conn_ok (current_tick s) c" using c by (simp add: lawful_def)
  then show thesis
  proof (cases rule: process_fin_ok [where seq = "seg_seq g + of_nat (length (seg_payload g))"])
    case early
    then show thesis using that c by blast
  next
    case (finish c' s')
    let ?c = "c\<lparr>rcv_nxt := rcv_nxt c + 1, fin_received := True\<rparr>"
    have "c_used c \<longrightarrow> P ?c" using law_fin [OF _ g finish(4)] c by (simp add: lawful_def)
    moreover have "conn_ok (current_tick s) ?c" using c by (simp add: lawful_def conn_oks)
    ultimately have "lawful (current_tick s) c'" using lawful_same [OF _ finish(3,5)] by (simp add: lawful_def)
    then show thesis using that finish by blast
  qed
qed

lemma receive_data_lawful:
  assumes c: "lawful (current_tick s) c" and g: "A g"
  obtains c' s' where "receive_data g c s = Some (c', s')" "quiet s s'" "lawful (current_tick s) c'"
proof (cases "has g ACK \<and> (sequence_less (seg_ack g) (snd_una c) \<or> sequence_greater (seg_ack g) (snd_nxt c))")
  case True
  then show thesis using that [of c s] c by (simp add: receive_data_def)
next
  case False
  let ?t = "current_tick s"
  have ok: "conn_ok ?t c" using c by (simp add: lawful_def)
  obtain c1 s1 where 1: "(if has g ACK then ack_segment c (seg_ack g) s else Some (c, s)) = Some (c1, s1)" "quiet s s1" "lawful ?t c1"
  proof (rule ack_segment_ok [OF ok, of "seg_ack g"])
    fix c1 s1
    assume h: "ack_segment c (seg_ack g) s = Some (c1, s1)" "quiet s s1" "conn_step ?t c c1"
    then have "lawful ?t c1" using lawful_same [OF c] by (auto simp: conn_step_def lawful_def)
    then show thesis using that [of c1 s1] that [of c s] h c by (cases "has g ACK") simp_all
  qed
  have t1: "current_tick s1 = ?t" using quiet_fields(2) [OF 1(2)] .
  then obtain c2 s2 where 2: "receive_payload g c1 s1 = Some (c2, s2)" "quiet s1 s2" "lawful ?t c2"
    using receive_payload_lawful [of s1 c1 g] 1(3) g by metis
  have t2: "current_tick s2 = ?t" using quiet_fields(2) [OF 2(2)] t1 by simp
  obtain c3 s3 where 3: "(if has g FIN then process_fin c2 (seg_seq g + of_nat (length (seg_payload g))) s2 else (c2, s2)) = (c3, s3)"
    "quiet s2 s3" "lawful ?t c3"
  proof (cases "has g FIN")
    case True
    then show thesis using process_fin_lawful [of s2 c2 g] 2(3) g t2 that by auto
  next
    case False
    then show thesis using that [of c2 s2] 2(3) by simp
  qed
  have t3: "current_tick s3 = ?t" using quiet_fields(2) [OF 3(2)] t2 by simp
  have "conn_ok ?t c3" using 3(3) by (simp add: lawful_def)
  then have "lawful ?t (close_states c3 s3)" using lawful_same [OF 3(3)] close_states_ok [of s3 c3] t3 by simp
  moreover have "receive_data g c s = Some (close_states c3 s3, s3)"
    using 1(1) 2(1) 3(1) unfolding receive_data_def if_not_P [OF False] by simp
  ultimately show thesis using that quiet_trans [OF quiet_trans [OF 1(2) 2(2)] 3(2)] by blast
qed

lemma receive_conn_lawful:
  assumes c: "lawful (current_tick s) c" and g: "A g" and st: "c_state c \<notin> {Listen, SynSent}"
  obtains c' s' where "receive_conn src g c s = Some (c', s')" "quiet s s'" "lawful (current_tick s) c'"
proof -
  let ?c = "c\<lparr>advertised_window := seg_window g\<rparr>" and ?t = "current_tick s"
  have ok: "conn_ok ?t ?c" "rcv_same c ?c" using c by (simp_all add: lawful_def conn_oks rcv_same_def unread_def)
  have c': "lawful ?t ?c" using lawful_same [OF c ok] .
  consider (wait) "c_state c = TimeWait" | (syn) "c_state c = SynReceived" | (data) "c_state c \<notin> {Listen, SynSent, TimeWait, SynReceived}"
    using st by blast
  then show thesis
  proof cases
    case wait
    let ?s = "if has g FIN then send_ack c s else s"
    have q: "quiet s ?s" by simp
    have "conn_ok ?t (c\<lparr>timer_tick := current_tick ?s\<rparr>)" "rcv_same c (c\<lparr>timer_tick := current_tick ?s\<rparr>)"
      using c by (simp_all add: lawful_def conn_oks rcv_same_def unread_def)
    then show thesis using that [of "c\<lparr>timer_tick := current_tick ?s\<rparr>" ?s] lawful_same [OF c] q wait
      by (simp add: receive_conn_def Let_def)
  next
    case syn
    have "conn_ok ?t (receive_syn_received g ?c)" "rcv_same ?c (receive_syn_received g ?c)"
      using ok by (simp_all add: receive_syn_received_def conn_oks rcv_same_def unread_def)
    then show thesis using that [of "receive_syn_received g ?c" s] lawful_same [OF c'] syn by (simp add: receive_conn_def Let_def)
  next
    case data
    obtain c2 s2 where "receive_data g ?c s = Some (c2, s2)" "quiet s s2" "lawful ?t c2" using receive_data_lawful [OF c' g] .
    then show thesis using that data by (simp add: receive_conn_def Let_def)
  qed
qed

end

end
