(* ===== verification/Tcp_Calls.thy ===== *)
theory Tcp_Calls
  imports Tcp_Safe
begin

text \<open>
  Sequences of calls of \<^verbatim>\<open>net/tcp.cpp\<close>, arriving packets and timer ticks included, and that all of them return, keep every
  connection well formed and answer within the bounds of their arguments.
\<close>

unbundle bit_operations_syntax

section \<open>Calls\<close>

datatype tcp_call =
  Init
| ListenOn u16
| Connect ip u16
| Arrive ip "u8 list"
| Send int "u8 list option" nat
| Read int bool nat
| Close int
| Tick

text \<open>One call: the new state, the result (0 for calls without one, 0 and 1 for truth values) and the bytes copied to the caller.\<close>

fun tcp_step :: "tcp_call \<Rightarrow> tcp \<Rightarrow> (tcp \<times> int \<times> u8 list) option" where
  "tcp_step Init s = Some (tcp_init s, 1, [])"
| "tcp_step (ListenOn port) s = (let (s, ok) = tcp_listen port s in Some (s, if ok then 1 else 0, []))"
| "tcp_step (Connect dst port) s = do { (s, h) \<leftarrow> tcp_connect dst port s; Some (s, h, []) }"
| "tcp_step (Arrive src packet) s = do { s \<leftarrow> tcp_receive_packet src packet s; Some (s, 0, []) }"
| "tcp_step (Send h data len) s = do { (s, r) \<leftarrow> tcp_send h data len s; Some (s, r, []) }"
| "tcp_step (Read h null len) s = tcp_receive h null len s"
| "tcp_step (Close h) s = do { (s, r) \<leftarrow> tcp_close h s; Some (s, r, []) }"
| "tcp_step Tick s = do { s \<leftarrow> tcp_tick s; Some (s, 0, []) }"

fun tcp_run :: "tcp_call list \<Rightarrow> tcp \<Rightarrow> (tcp \<times> (int \<times> u8 list) list) option" where
  "tcp_run [] s = Some (s, [])"
| "tcp_run (a # as) s = do { (s, r) \<leftarrow> tcp_step a s; (s, rs) \<leftarrow> tcp_run as s; Some (s, r # rs) }"

text \<open>What callers owe: the buffer they send from is as long as they say.\<close>

fun call_ok :: "tcp_call \<Rightarrow> bool" where
  "call_ok (Send h (Some b) len) \<longleftrightarrow> len \<le> length b"
| "call_ok _ \<longleftrightarrow> True"

text \<open>What they get: handles of the table, and never more bytes than they asked for.\<close>

fun result_ok :: "tcp_call \<Rightarrow> int \<times> u8 list \<Rightarrow> bool" where
  "result_ok (Connect dst port) (r, b) \<longleftrightarrow> -1 \<le> r \<and> r < int MAX_CONNECTIONS \<and> b = []"
| "result_ok (Send h data len) (r, b) \<longleftrightarrow> -1 \<le> r \<and> r \<le> int (min len TX_BUFFER_SIZE) \<and> b = []"
| "result_ok (Read h null len) (r, b) \<longleftrightarrow> length b \<le> len \<and> (r = int (length b) \<or> r = -1 \<and> b = [])"
| "result_ok (Close h) (r, b) \<longleftrightarrow> r \<in> {-1, 0} \<and> b = []"
| "result_ok _ (r, b) \<longleftrightarrow> r \<in> {0, 1} \<and> b = []"

section \<open>Single calls\<close>

interpretation any: receive_law "\<lambda>_. True" "\<lambda>_. True"
  by unfold_locales simp_all

lemma any_lawful [simp]: "any.lawful t c \<longleftrightarrow> conn_ok t c"
  by (simp add: any.lawful_def)

lemma tcp_ok_nth: "tcp_ok s \<Longrightarrow> i < MAX_CONNECTIONS \<Longrightarrow> conn_ok (current_tick s) (conns s ! i)"
  by (simp add: tcp_ok_def)

lemma tcp_ok_quiet: "tcp_ok s \<Longrightarrow> quiet s s' \<Longrightarrow> tcp_ok s'"
  by (simp add: tcp_ok_def quiet_fields)

lemma tcp_ok_set:
  assumes "tcp_ok s" "quiet s s'" "conn_ok (current_tick s) c"
  shows "tcp_ok (set_conn i c s')"
  using assms by (auto simp: tcp_ok_def set_conn_def quiet_fields dest!: subsetD [OF set_update_subset_insert])

text \<open>Connections that stay in use keep their receiving side.\<close>

definition frame :: "tcp \<Rightarrow> tcp \<Rightarrow> bool" where
  "frame s s' \<longleftrightarrow>
     local_ip s' = local_ip s \<and>
     (\<forall>j < MAX_CONNECTIONS. c_used (conns s ! j) \<and> c_used (conns s' ! j) \<longrightarrow> rcv_same (conns s ! j) (conns s' ! j))"

lemma frame_refl [simp, intro]: "frame s s"
  by (simp add: frame_def)

lemma frame_set:
  assumes "quiet s s'" "c_used (conns s ! i) \<Longrightarrow> c_used c \<Longrightarrow> rcv_same (conns s ! i) c"
  shows "frame s (set_conn i c s')"
  using assms(2) by (auto simp: frame_def set_conn_def quiet_fields [OF assms(1)]) (metis list_update_beyond nth_list_update_eq nth_list_update_neq not_less rcv_same_refl)

lemma tcp_init_ok: "tcp_ok (tcp_init s)" "frame s (tcp_init s)"
  by (simp_all add: tcp_ok_def frame_def tcp_init_def)

lemma tcp_listen_ok:
  assumes "tcp_ok s" "tcp_listen port s = (s', ok)"
  shows "tcp_ok s'" and "frame s s'"
proof -
  have "port \<noteq> 0 \<Longrightarrow> conn_ok (current_tick s)
      (cleared\<lparr>c_used := True, c_state := Listen, local_port := port, advertised_window := of_nat INITIAL_WINDOW\<rparr>)"
    using conn_within_cleared [of 480 "current_tick s"] by (simp add: conn_oks)
  then show "tcp_ok s'"
    using assms by (auto simp: tcp_listen_def split: if_splits option.splits intro: tcp_ok_set [OF _ quiet_refl])
  show "frame s s'"
    using assms(2) by (auto simp: tcp_listen_def split: if_splits option.splits intro!: frame_set dest: find_idx_SomeD)
qed

lemma allocate_ephemeral_port_ok:
  assumes "tcp_ok s" "allocate_ephemeral_port s = (s', p)"
  shows "tcp_ok s'" and "conns s' = conns s" and "current_tick s' = current_tick s" and "local_ip s' = local_ip s"
  using assms by (auto simp: allocate_ephemeral_port_def tcp_ok_def split: prod.splits)

lemma fresh_conn_ok: "lport \<noteq> 0 \<Longrightarrow> conn_ok t (fresh_conn dst lport port)"
  using conn_within_cleared [of 480 t] by (simp add: conn_oks fresh_conn_def tcp_consts cleared_def zero_tx_def)

lemma fresh_conn_fields [simp]: "c_used (fresh_conn dst lport port)" "c_state (fresh_conn dst lport port) = SynSent"
  by (simp_all add: fresh_conn_def)

lemma tcp_connect_ok:
  assumes s: "tcp_ok s"
  obtains s' h where "tcp_connect dst port s = Some (s', h)" "tcp_ok s'" "frame s s'" "-1 \<le> h" "h < int MAX_CONNECTIONS"
proof -
  obtain s1 lport where p: "allocate_ephemeral_port s = (s1, lport)" by fastforce
  note s1 = allocate_ephemeral_port_ok [OF s p]
  have f: "frame s s'" if "frame s1 s'" for s' using that by (simp add: frame_def s1)
  show thesis
  proof (cases "port = 0 \<or> lport = 0 \<or> find_idx (\<lambda>c. \<not> c_used c) (conns s1) = None")
    case True
    then show thesis using that [of s "-1"] that [of s1 "-1"] s s1(1) p f
      by (cases "port = 0"; cases "lport = 0") (auto simp: tcp_connect_def)
  next
    case False
    then obtain i where i: "find_idx (\<lambda>c. \<not> c_used c) (conns s1) = Some i" "lport \<noteq> 0" "port \<noteq> 0" by auto
    have lt: "i < MAX_CONNECTIONS" using find_idx_SomeD [OF i(1)] s1(1) by (simp add: tcp_ok_def)
    have c: "conn_ok (current_tick s1) (fresh_conn dst lport port)" using fresh_conn_ok [OF i(2)] .
    have p0: "length [] \<le> TX_BUFFER_SIZE" and st: "c_used (fresh_conn dst lport port)" "c_state (fresh_conn dst lport port) \<noteq> TimeWait" by simp_all
    from c p0 st show thesis
    proof (cases rule: send_tracked_segment_ok [where fl = SYN])
      case (failed s2)
      have "frame s (set_conn i cleared s2)" by (rule f [OF frame_set [OF failed(2)]]) simp
      then show thesis using that [of "set_conn i cleared s2" "-1"] tcp_ok_set [OF s1(1) failed(2)] failed(1) i p by (simp add: tcp_connect_def)
    next
      case (made s2 c)
      have "frame s (set_conn i c s2)" by (rule f [OF frame_set [OF made(2)]]) (use find_idx_SomeD [OF i(1)] in simp)
      then show thesis using that [of "set_conn i c s2" "int i"] tcp_ok_set [OF s1(1) made(2,3)] made(1) i p lt by (simp add: tcp_connect_def)
    qed
  qed
qed

lemma receive_conn_ok:
  assumes c: "conn_ok (current_tick s) c" and used: "c_used c"
  obtains c' s' where "receive_conn src g c s = Some (c', s')" "quiet s s'" "conn_ok (current_tick s) c'"
proof -
  let ?c = "c\<lparr>advertised_window := seg_window g\<rparr>" and ?t = "current_tick s"
  have ok: "conn_ok ?t ?c" using c by (simp add: conn_oks)
  consider (listen) "c_state c = Listen" | (syn) "c_state c = SynSent" | (data) "c_state c \<notin> {Listen, SynSent}" by blast
  then show thesis
  proof cases
    case data
    then show thesis using any.receive_conn_lawful [of s c src g] c that by auto
  next
    case syn
    have "conn_ok ?t (fst (receive_syn_sent g ?c s))" "quiet s (snd (receive_syn_sent g ?c s))"
      using ok syn by (auto simp: receive_syn_sent_def Let_def conn_oks)
    then show thesis using that [of "fst (receive_syn_sent g ?c s)" "snd (receive_syn_sent g ?c s)"] syn
      by (simp add: receive_conn_def Let_def)
  next
    case listen
    let ?d = "?c\<lparr>remote := src, remote_port := seg_src g, rcv_nxt := seg_seq g + 1, snd_una := INITIAL_SEQUENCE, snd_nxt := INITIAL_SEQUENCE,
             cwnd := INITIAL_CWND, ssthresh := INITIAL_SSTHRESH, rto := INITIAL_RTO, c_state := SynReceived, tx := zero_tx\<rparr>"
    have d: "conn_ok ?t ?d" using ok by (simp add: conn_oks zero_tx_def tcp_consts)
    have r: "receive_conn src g c s = (if \<not> has g SYN then Some (?c, s)
        else do { (c, s, ok) \<leftarrow> send_tracked_segment ?d (SYN OR ACK) [] s; Some (c, s) })"
      using listen by (simp add: receive_conn_def receive_listen_def Let_def)
    show thesis
    proof (cases "has g SYN")
      case False
      then show thesis using that r ok by auto
    next
      case True
      have p0: "length [] \<le> TX_BUFFER_SIZE" and st: "c_used ?d" "c_state ?d \<noteq> TimeWait" using used by simp_all
      from d p0 st show thesis
      proof (cases rule: send_tracked_segment_ok [where fl = "SYN OR ACK"])
        case (failed s2)
        then show thesis using that d r True by simp
      next
        case (made s2 c2)
        then show thesis using that r True by simp
      qed
    qed
  qed
qed

lemma tcp_receive_packet_ok:
  assumes s: "tcp_ok s"
  obtains s' where "tcp_receive_packet src packet s = Some s'" "tcp_ok s'"
proof (cases "decode_segment (local_ip s) src packet")
  case None
  then show thesis using that s by (simp add: tcp_receive_packet_def)
next
  case (Some g)
  show thesis
  proof (cases "has g RST")
    case True
    have "tcp_ok (s\<lparr>conns := map (\<lambda>c. if peer_match src g c then cleared else c) (conns s)\<rparr>)" using s by (auto simp: tcp_ok_def)
    then show thesis using that Some True by (simp add: tcp_receive_packet_def)
  next
    case alive: False
    show thesis
    proof (cases "find_idx (conn_match src g) (conns s)")
      case None
      then show thesis using that Some alive tcp_ok_quiet [OF s quiet_send_rst] by (simp add: tcp_receive_packet_def)
    next
      case i: (Some i)
      have "conn_ok (current_tick s) (conns s ! i)" "c_used (conns s ! i)"
        using find_idx_SomeD [OF i] s by (simp_all add: tcp_ok_def conn_match_def)
      then obtain c' s' where "receive_conn src g (conns s ! i) s = Some (c', s')" "quiet s s'" "conn_ok (current_tick s) c'"
        by (rule receive_conn_ok)
      then show thesis using that [of "set_conn i c' s'"] tcp_ok_set [OF s] Some alive i by (simp add: tcp_receive_packet_def)
    qed
  qed
qed

lemma valid_handleD:
  assumes "valid_handle h s"
  shows "nat h < MAX_CONNECTIONS" and "c_used (conns s ! nat h)"
  using assms by (auto simp: valid_handle_def)

lemma tcp_send_ok:
  assumes s: "tcp_ok s" and d: "\<And>b. data = Some b \<Longrightarrow> len \<le> length b"
  obtains s' r where "tcp_send h data len s = Some (s', r)" "tcp_ok s'" "frame s s'" "-1 \<le> r" "r \<le> int (min len TX_BUFFER_SIZE)"
proof -
  let ?c = "conns s ! nat h"
  let ?n = "min (min len TX_BUFFER_SIZE) (unat (advertised_window ?c))"
  let ?bad = "\<not> valid_handle h s \<or> c_state ?c \<noteq> Established \<or> data = None \<and> 0 < len"
  let ?not_now = "len = 0 \<or> tx_used (tx ?c) \<or> advertised_window ?c = 0 \<or> cwnd ?c = 0"
  consider (bad) ?bad | (not_now) "\<not> ?bad" ?not_now | (go) "\<not> ?bad" "\<not> ?not_now" by blast
  then show thesis
  proof cases
    case bad
    then show thesis using that [of s "-1"] s unfolding tcp_send_def Let_def by simp
  next
    case not_now
    then show thesis using that [of s 0] s unfolding tcp_send_def Let_def by simp
  next
    case go
    then obtain b where b: "data = Some b" by auto
    have len: "\<not> length b < ?n" using d [OF b] by linarith
    have c: "conn_ok (current_tick s) ?c" using tcp_ok_nth [OF s] valid_handleD go(1) by blast
    have p: "length (take ?n b) \<le> TX_BUFFER_SIZE" by simp
    have st: "c_used ?c" "c_state ?c \<noteq> TimeWait" using go(1) valid_handleD(2) by auto
    have r: "tcp_send h data len s = do { (c, s, ok) \<leftarrow> send_tracked_segment ?c (ACK OR PSH) (take ?n b) s;
        Some (set_conn (nat h) c s, if ok then int ?n else -1) }"
      unfolding tcp_send_def Let_def if_not_P [OF go(1)] if_not_P [OF go(2)] unfolding b option.sel if_not_P [OF len] ..
    from c p st show thesis
    proof (cases rule: send_tracked_segment_ok [where fl = "ACK OR PSH"])
      case (failed s')
      show thesis using that [OF _ tcp_ok_set [OF s failed(2) c] frame_set [OF failed(2)], of "nat h" "-1"] r failed(1) by simp
    next
      case (made s' c')
      show thesis using that [OF _ tcp_ok_set [OF s made(2,3)] frame_set [OF made(2)], of "nat h" "int ?n"] r made(1,4) by (simp add: min_le_iff_disj)
    qed
  qed
qed

text \<open>Reading takes bytes off the front of the unread ones.\<close>

lemma read_conn:
  assumes c: "conn_ok t c" and n: "n \<le> length (unread c)"
  defines "c' \<equiv> rx_reset_if_empty (c\<lparr>rx_head := rx_head c + n\<rparr>)"
  shows "conn_ok t c'" and "same_peer c c'" and "rcv_nxt c' = rcv_nxt c" and "ooo c' = ooo c"
    and "take n (drop (rx_head c) (rx c)) = take n (unread c)" and "unread c' = drop n (unread c)"
proof -
  have le: "n \<le> rx_tail c - rx_head c" "rx_head c \<le> rx_tail c" "rx_tail c \<le> length (rx c)"
    using n c length_unread [of c] by (auto simp: conn_oks)
  show "conn_ok t c'" using c le by (auto simp: c'_def rx_reset_if_empty_def conn_oks)
  show "same_peer c c'" "rcv_nxt c' = rcv_nxt c" "ooo c' = ooo c" by (auto simp: c'_def rx_reset_if_empty_def same_peer_def)
  show "take n (drop (rx_head c) (rx c)) = take n (unread c)" using le by (simp add: unread_def min_def)
  have "unread (c\<lparr>rx_head := rx_head c + n\<rparr>) = drop n (unread c)" using le by (simp add: unread_def drop_take add.commute)
  moreover have "unread c' = unread (c\<lparr>rx_head := rx_head c + n\<rparr>)" by (auto simp: c'_def rx_reset_if_empty_def unread_def)
  ultimately show "unread c' = drop n (unread c)" by simp
qed

lemma tcp_receive_cases:
  assumes s: "tcp_ok s"
  obtains (refused) "tcp_receive h null len s = Some (s, -1, [])"
    | (empty) "tcp_receive h null len s = Some (s, 0, [])"
    | (data) n where "valid_handle h s" "n = min len (length (unread (conns s ! nat h)))"
        "tcp_receive h null len s = Some (set_conn (nat h) (rx_reset_if_empty ((conns s ! nat h)\<lparr>rx_head := rx_head (conns s ! nat h) + n\<rparr>)) s,
           int n, take n (unread (conns s ! nat h)))"
proof -
  let ?c = "conns s ! nat h"
  let ?bad = "\<not> valid_handle h s \<or> null \<and> 0 < len"
  consider (bad) ?bad | (none) "\<not> ?bad" "rx_available ?c = 0" | (some) "\<not> ?bad" "rx_available ?c \<noteq> 0" by blast
  then show thesis
  proof cases
    case bad
    then show thesis using refused by (simp add: tcp_receive_def Let_def)
  next
    case none
    then show thesis using empty unfolding tcp_receive_def Let_def by simp
  next
    case some
    have c: "conn_ok (current_tick s) ?c" using tcp_ok_nth [OF s] valid_handleD some(1) by blast
    then have av: "rx_available ?c = length (unread ?c)" by (simp add: rx_ok_sizes conn_within_def)
    let ?n = "min len (length (unread ?c))"
    have "rx_ok ?c" using c by (simp add: conn_within_def)
    then have "rx_head ?c + length (unread ?c) \<le> length (rx ?c)" using length_unread [of ?c] by (simp add: rx_ok_def)
    then have lt: "\<not> length (rx ?c) < rx_head ?c + ?n" by linarith
    have n: "take ?n (drop (rx_head ?c) (rx ?c)) = take ?n (unread ?c)" by (rule read_conn(5) [OF c min.cobounded2])
    have "tcp_receive h null len s = Some (set_conn (nat h) (rx_reset_if_empty (?c\<lparr>rx_head := rx_head ?c + ?n\<rparr>)) s, int ?n, take ?n (unread ?c))"
      unfolding tcp_receive_def Let_def if_not_P [OF some(1)] if_not_P [OF some(2)] unfolding av if_not_P [OF lt] n ..
    then show thesis using data [of ?n] some(1) by blast
  qed
qed

lemma tcp_receive_ok:
  assumes s: "tcp_ok s"
  obtains s' r b where "tcp_receive h null len s = Some (s', r, b)" "tcp_ok s'" "length b \<le> len" "r = int (length b) \<or> r = -1 \<and> b = []"
  using s
proof (cases rule: tcp_receive_cases [where h = h and null = null and len = len])
  case refused
  then show thesis using that s by simp
next
  case empty
  then show thesis using that s by simp
next
  case (data n)
  have "conn_ok (current_tick s) (conns s ! nat h)" using tcp_ok_nth [OF s] valid_handleD data(1) by blast
  then show thesis using that [OF data(3)] tcp_ok_set [OF s quiet_refl read_conn(1)] data(2) by simp
qed

lemma close_with_ok:
  assumes s: "tcp_ok s" and i: "i < MAX_CONNECTIONS" and used: "c_used (conns s ! i)"
    and st: "c_state (conns s ! i) \<noteq> TimeWait" "st \<notin> {TimeWait, Closed, Listen, SynSent}"
  obtains s' r where "close_with st i s = Some (s', r)" "tcp_ok s'" "frame s s'" "r \<in> {-1, 0}"
proof (cases "tx_used (tx (conns s ! i))")
  case True
  then show thesis using that [of s 0] s by (simp add: close_with_def)
next
  case False
  have c: "conn_ok (current_tick s) (conns s ! i)" and p: "length [] \<le> TX_BUFFER_SIZE" using tcp_ok_nth [OF s i] by simp_all
  from c p used st(1) show thesis
  proof (cases rule: send_tracked_segment_ok [where fl = "FIN OR ACK"])
    case (failed s')
    then show thesis using that [OF _ tcp_ok_set [OF s failed(2) c] frame_set [OF failed(2)], of i "-1"] False by (simp add: close_with_def)
  next
    case (made s' c')
    have d: "conn_ok (current_tick s) (c'\<lparr>fin_sent := True, c_state := st\<rparr>)" using made(3) st by (simp add: conn_oks)
    have "rcv_same (conns s ! i) (c'\<lparr>fin_sent := True, c_state := st\<rparr>)" using made(4) st by (simp add: rcv_same_def unread_def)
    then show thesis using that [OF _ tcp_ok_set [OF s made(2) d] frame_set [OF made(2)], of i 0] False made(1) by (simp add: close_with_def)
  qed
qed

lemma tcp_close_ok:
  assumes s: "tcp_ok s"
  obtains s' r where "tcp_close h s = Some (s', r)" "tcp_ok s'" "frame s s'" "r \<in> {-1, 0}"
proof (cases "valid_handle h s")
  case False
  then show thesis using that [of s "-1"] s by (simp add: tcp_close_def)
next
  case True
  note i = valid_handleD(1) [OF True]
  have clear: "tcp_ok (set_conn (nat h) cleared s)" using tcp_ok_set [OF s quiet_refl] by simp
  have fr: "frame s (set_conn (nat h) cleared s)" by (rule frame_set) simp_all
  show thesis
  proof (cases "c_state (conns s ! nat h) \<in> {Established, CloseWait}")
    case False
    then show thesis using that [of s 0] that [OF _ clear fr, of 0] s True
      by (cases "c_state (conns s ! nat h)") (simp_all add: tcp_close_def)
  next
    case st: True
    then have "tcp_close h s = close_with (if c_state (conns s ! nat h) = Established then FinWait1 else LastAck) (nat h) s"
      using True by (auto simp: tcp_close_def)
    then show thesis using close_with_ok [OF s i valid_handleD(2) [OF True], of "if c_state (conns s ! nat h) = Established then FinWait1 else LastAck"] st that
      by (auto split: if_splits)
  qed
qed

section \<open>Ticks\<close>

lemma not_due_young:
  fixes r t x :: u32
  assumes "\<not> r \<le> t - x" "r \<le> MAX_RTO"
  shows "unat (t - x) \<le> 480"
proof -
  have "unat (t - x) < unat r" "unat r \<le> 480" using assms by (simp_all add: MAX_RTO_def word_le_nat_alt)
  then show ?thesis by linarith
qed

lemma tick_conn_ok:
  assumes c: "conn_within 481 (current_tick s) c"
  obtains c' s' where "tick_conn c s = Some (c', s')" "quiet s s'" "conn_step (current_tick s) c c'"
proof -
  let ?t = "current_tick s"
  let ?due = "tx_used (tx c) \<and> rto c \<le> ?t - sent_tick (tx c)"
  let ?failed = "\<lambda>c. (c_state c = SynSent \<or> c_state c = SynReceived) \<and> tx_used (tx c) \<and> MAX_RETRIES \<le> retransmit_count (tx c)"
  consider (idle) "\<not> c_used c" | (wait) "c_used c" "c_state c = TimeWait" | (run) "c_used c" "c_state c \<noteq> TimeWait" "\<not> ?due"
    | (due) "c_used c" "c_state c \<noteq> TimeWait" ?due by blast
  then show thesis
  proof cases
    case idle
    then have "conn_ok ?t c" using c by (simp add: conn_oks)
    then show thesis using that [of c s] idle by (simp add: tick_conn_def conn_step_refl)
  next
    case wait
    then have "conn_ok ?t c" using c by (simp add: conn_oks)
    then show thesis using that [of "if TIME_WAIT_TICKS \<le> ?t - timer_tick c then cleared else c" s] wait
      by (simp add: tick_conn_def conn_step_refl)
  next
    case run
    have "conn_ok ?t c" using c run(3) not_due_young [of "rto c" ?t "sent_tick (tx c)"] by (auto simp: conn_oks)
    then show thesis using that [of "if ?failed c then cleared else c" s] run by (auto simp: tick_conn_def conn_step_refl)
  next
    case due
    have r: "tick_conn c s = do { (c, s, go) \<leftarrow> retransmit c s; Some (if go \<and> ?failed c then cleared else c, s) }"
      using due by (simp add: tick_conn_def)
    from c show thesis
    proof (cases rule: retransmit_ok)
      case idle
      then show thesis using due by simp
    next
      case gone
      then show thesis using that [of cleared s] r by simp
    next
      case (again s' c' ok)
      then have "conn_step ?t c (if ok \<and> ?failed c' then cleared else c')" by (simp add: conn_step_def)
      then show thesis using that r again(2,3) by simp
    qed
  qed
qed

text \<open>The connections after some of them have seen the new tick.\<close>

lemma tick_loop_ok:
  assumes "length (conns s) = MAX_CONNECTIONS" "distinct is" "set is \<subseteq> {..<MAX_CONNECTIONS}"
    and "\<And>j. j < MAX_CONNECTIONS \<Longrightarrow> conn_within (if j \<in> set is then 481 else 480) (current_tick s) (conns s ! j)"
  obtains s' where "tick_loop is s = Some s'" "tcp_ok s'" "current_tick s' = current_tick s" "local_ip s' = local_ip s"
    "\<And>j. j < MAX_CONNECTIONS \<Longrightarrow> c_used (conns s' ! j) \<Longrightarrow> rcv_same (conns s ! j) (conns s' ! j)"
  using assms
proof (induction "is" arbitrary: s thesis)
  case Nil
  have "tcp_ok s" using Nil.prems(2,5) by (auto simp: tcp_ok_def in_set_conv_nth)
  then show thesis using Nil.prems(1) [of s] by simp
next
  case (Cons i "is")
  have i: "i < MAX_CONNECTIONS" "i \<notin> set is" using Cons.prems(3,4) by simp_all
  then have "conn_within 481 (current_tick s) (conns s ! i)" using Cons.prems(5) [of i] by simp
  then obtain c s1 where c: "tick_conn (conns s ! i) s = Some (c, s1)" "quiet s s1" "conn_step (current_tick s) (conns s ! i) c"
    by (rule tick_conn_ok)
  let ?s = "set_conn i c s1"
  note f = quiet_fields [OF c(2)]
  have s: "conns ?s = (conns s)[i := c]" "current_tick ?s = current_tick s" "local_ip ?s = local_ip s" by (simp_all add: set_conn_def f)
  have all: "conn_within (if j \<in> set is then 481 else 480) (current_tick ?s) (conns ?s ! j)" if j: "j < MAX_CONNECTIONS" for j
    using Cons.prems(5) [OF j] c(3) i j Cons.prems(2) by (cases "j = i") (simp_all add: s conn_step_def)
  have len: "length (conns ?s) = MAX_CONNECTIONS" using Cons.prems(2) by (simp add: s)
  obtain s' where s': "tick_loop is ?s = Some s'" "tcp_ok s'" "current_tick s' = current_tick ?s" "local_ip s' = local_ip ?s"
    "\<And>j. j < MAX_CONNECTIONS \<Longrightarrow> c_used (conns s' ! j) \<Longrightarrow> rcv_same (conns ?s ! j) (conns s' ! j)"
    using Cons.IH [of ?s, OF _ len _ _ all] Cons.prems(3,4) by auto
  have "rcv_same (conns s ! j) (conns s' ! j)" if j: "j < MAX_CONNECTIONS" "c_used (conns s' ! j)" for j
  proof (cases "j = i")
    case True
    have r: "rcv_same c (conns s' ! i)" using s'(5) [OF j] True Cons.prems(2) j(1) by (simp add: s)
    then have "c_used c" using j(2) True by (simp add: rcv_same_def)
    then show ?thesis using c(3) r True rcv_same_trans by (auto simp: conn_step_def)
  next
    case False
    then show ?thesis using s'(5) [OF j] by (simp add: s)
  qed
  then show thesis using Cons.prems(1) [of s'] c(1) s'(1-4) s by simp
qed

lemma tcp_tick_ok:
  assumes s: "tcp_ok s"
  obtains s' where "tcp_tick s = Some s'" "tcp_ok s'" "current_tick s' = current_tick s + 1" "local_ip s' = local_ip s"
    "\<And>j. j < MAX_CONNECTIONS \<Longrightarrow> c_used (conns s' ! j) \<Longrightarrow> rcv_same (conns s ! j) (conns s' ! j)"
proof -
  let ?s = "s\<lparr>current_tick := current_tick s + 1\<rparr>"
  have s1: "length (conns ?s) = MAX_CONNECTIONS" "distinct [0..<MAX_CONNECTIONS]" "set [0..<MAX_CONNECTIONS] \<subseteq> {..<MAX_CONNECTIONS}"
    using s by (auto simp: tcp_ok_def)
  have s2: "conn_within (if j \<in> set [0..<MAX_CONNECTIONS] then 481 else 480) (current_tick ?s) (conns ?s ! j)" if "j < MAX_CONNECTIONS" for j
    using conn_later [OF tcp_ok_nth [OF s that]] that by simp
  show thesis by (rule tick_loop_ok [OF s1 s2]) (use that in \<open>simp_all add: tcp_tick_def\<close>)
qed

section \<open>Runs\<close>

lemma tcp_step_ok:
  assumes s: "tcp_ok s" and a: "call_ok a"
  obtains s' r where "tcp_step a s = Some (s', r)" "tcp_ok s'" "result_ok a r"
proof (cases a)
  case Init
  then show thesis using that tcp_init_ok by simp
next
  case (ListenOn port)
  then show thesis using that tcp_listen_ok [OF s] by (cases "tcp_listen port s") auto
next
  case (Connect dst port)
  show thesis by (rule tcp_connect_ok [OF s, of dst port]) (use that Connect in simp)
next
  case (Arrive src packet)
  show thesis by (rule tcp_receive_packet_ok [OF s, of src packet]) (use that Arrive in simp)
next
  case (Send h data len)
  then have "\<And>b. data = Some b \<Longrightarrow> len \<le> length b" using a by simp
  then obtain s' r where "tcp_send h data len s = Some (s', r)" "tcp_ok s'" "frame s s'" "-1 \<le> r" "r \<le> int (min len TX_BUFFER_SIZE)"
    using tcp_send_ok [OF s] by metis
  then show thesis using that Send by simp
next
  case (Read h null len)
  show thesis by (rule tcp_receive_ok [OF s, of h null len]) (use that Read in simp)
next
  case (Close h)
  show thesis by (rule tcp_close_ok [OF s, of h]) (use that Close in simp)
next
  case Tick
  show thesis by (rule tcp_tick_ok [OF s]) (use that Tick in simp)
qed

text \<open>The layer when the machine starts, above a network that takes every packet.\<close>

definition booted :: "ip \<Rightarrow> tcp" where
  "booted addr = \<lparr>conns = replicate MAX_CONNECTIONS cleared, next_ephemeral_port = EPHEMERAL_PORT_FIRST, current_tick = 0, sent = [],
     local_ip = addr, link = (\<lambda>_. True)\<rparr>"

lemma booted_ok: "tcp_ok (booted addr)"
  by (simp add: tcp_ok_def booted_def)

text \<open>
  C32: a run of the TCP layer. Started with 16 well-formed connections, every sequence of calls by users, of packets with
  arbitrary bytes from any address and of timer ticks returns, so no buffer is overrun, and whatever the layer below answers to
  sending. Afterwards the connections are well formed again: the receive buffer holds at most 8192 bytes between its two ends, the
  tracked and the kept segment fit their 1460 bytes, a segment under way is the one before the next number to send, belongs to a
  connection in use that is not in TIME-WAIT and has been repeated at most 6 times with a timeout of at most 480 ticks, and a
  connection in use has a port and a state. Every answer is within its bounds, so that no caller receives more bytes than asked for.
\<close>

theorem tcp_calls_safe:
  assumes "tcp_ok s" and "list_all call_ok calls"
  shows "\<exists>s' rs. tcp_run calls s = Some (s', rs) \<and> tcp_ok s' \<and> list_all2 result_ok calls rs"
  using assms
proof (induction calls arbitrary: s)
  case Nil
  then show ?case by simp
next
  case (Cons a as)
  have "call_ok a" using Cons.prems(2) by simp
  then obtain s1 r where 1: "tcp_step a s = Some (s1, r)" "tcp_ok s1" "result_ok a r" by (rule tcp_step_ok [OF Cons.prems(1)])
  obtain s' rs where "tcp_run as s1 = Some (s', rs)" "tcp_ok s'" "list_all2 result_ok as rs" using Cons.IH [OF 1(2)] Cons.prems(2) by auto
  then show ?case using 1 by simp
qed

theorem tcp_calls_safe_witness:
  "\<exists>s' rs. tcp_run [ListenOn 80, Connect (10, 0, 0, 2) 7, Arrive (10, 0, 0, 2) (replicate 19 255), Arrive (10, 0, 0, 2) (replicate 2000 80),
       Send 1 (Some [1, 2, 3]) 3, Read 1 False 100, Tick, Close 0, Close 99] (booted (10, 0, 0, 1)) = Some (s', rs) \<and> tcp_ok s' \<and>
     list_all2 result_ok [ListenOn 80, Connect (10, 0, 0, 2) 7, Arrive (10, 0, 0, 2) (replicate 19 255), Arrive (10, 0, 0, 2) (replicate 2000 80),
       Send 1 (Some [1, 2, 3]) 3, Read 1 False 100, Tick, Close 0, Close 99] rs"
  by (rule tcp_calls_safe [OF booted_ok]) simp

end
