(* ===== verification/Tcp_Timer.thy ===== *)
theory Tcp_Timer
  imports Tcp_Calls
begin

text \<open>
  The timers of \<^verbatim>\<open>net/tcp.cpp\<close>: a connection that waits for an acknowledgement, or for the end of TIME-WAIT, and hears nothing
  is given up after a bounded number of ticks.
\<close>

unbundle bit_operations_syntax

text \<open>Ticks left until a connection is given up.\<close>

definition budget :: "u32 \<Rightarrow> conn \<Rightarrow> nat" where
  "budget t c =
     (if \<not> c_used c then 0
      else if c_state c = TimeWait then (if t - timer_tick c = -1 then 121 else max 1 (120 - unat (t - timer_tick c)))
      else (7 - unat (retransmit_count (tx c))) * 487 - unat (t - sent_tick (tx c)))"

definition waiting :: "conn \<Rightarrow> bool" where
  "waiting c \<longleftrightarrow> c_used c \<and> (tx_used (tx c) \<or> c_state c = TimeWait)"

lemma unat_max_u32 [simp]: "unat (- 1 :: u32) = 4294967295"
  by (simp add: unsigned_minus_1_eq_mask mask_eq_exp_minus_1)

lemma max_not_small: "\<not> unat (- 1 :: u32) < 120"
  by simp

lemma tick_diff:
  fixes t x :: u32
  assumes "t - x \<noteq> -1"
  shows "unat (t + 1 - x) = unat (t - x) + 1"
proof -
  have e: "t + 1 - x = 1 + (t - x)" by simp
  have "1 + (t - x) \<noteq> 0" using assms by (metis add.commute add_eq_0_iff minus_minus)
  then show ?thesis unfolding e using unatSuc [of "t - x"] by simp
qed

lemma retries_le: "conn_within n t c \<Longrightarrow> unat (retransmit_count (tx c)) \<le> 6"
  by (simp add: conn_oks MAX_RETRIES_def word_le_nat_alt)

lemma sent_young:
  assumes "conn_ok t c" "tx_used (tx c)"
  shows "unat (t - sent_tick (tx c)) \<le> 486" and "t - sent_tick (tx c) \<noteq> -1"
proof -
  show le: "unat (t - sent_tick (tx c)) \<le> 486" using assms retries_le [OF assms(1)] by (simp add: conn_oks)
  then show "t - sent_tick (tx c) \<noteq> -1" by auto
qed

lemma time_wait_budget:
  assumes "c_used c" "c_state c = TimeWait" "current_tick s = t + 1" "tick_conn c s = Some (c', s')" "c_used c'"
  shows "waiting c' \<and> budget (t + 1) c' < budget t c"
proof -
  have r: "c' = c" "\<not> TIME_WAIT_TICKS \<le> t + 1 - timer_tick c"
    using assms by (auto simp: tick_conn_def split: if_splits)
  have lt: "unat (t + 1 - timer_tick c) < 120" using r(2) by (simp add: TIME_WAIT_TICKS_def word_le_nat_alt)
  then have "t + 1 - timer_tick c \<noteq> -1" using unat_max_u32 by (metis max_not_small)
  moreover have "t - timer_tick c = -1 \<Longrightarrow> unat (t + 1 - timer_tick c) = 0" by (simp add: algebra_simps)
  ultimately show ?thesis
    using lt assms(1,2) tick_diff [of t "timer_tick c"] r(1) by (cases "t - timer_tick c = -1") (auto simp: budget_def waiting_def)
qed

lemma retransmit_budget:
  assumes c: "conn_ok t c" "tx_used (tx c)" "c_state c \<noteq> TimeWait" "c_used c"
    and n: "unat (retransmit_count (tx c')) = unat (retransmit_count (tx c)) + 1" "c_state c' \<noteq> TimeWait"
    and m: "unat (retransmit_count (tx c')) \<le> 6"
  shows "budget t' c' < budget t c"
proof -
  have "unat (t - sent_tick (tx c)) \<le> 486" using sent_young(1) [OF c(1,2)] .
  moreover have "budget t' c' \<le> (6 - unat (retransmit_count (tx c))) * 487" using n by (simp add: budget_def)
  moreover have "(7 - unat (retransmit_count (tx c))) * 487 = (6 - unat (retransmit_count (tx c))) * 487 + 487" using n m by simp
  moreover have "budget t c = (7 - unat (retransmit_count (tx c))) * 487 - unat (t - sent_tick (tx c))" using c(3,4) by (simp add: budget_def)
  ultimately show ?thesis by linarith
qed

lemma tick_conn_budget:
  assumes c: "conn_ok t c" "waiting c" and t: "current_tick s = t + 1" and r: "tick_conn c s = Some (c', s')" and u: "c_used c'"
  shows "waiting c' \<and> budget (t + 1) c' < budget t c"
proof (cases "c_state c = TimeWait")
  case True
  then show ?thesis using time_wait_budget [OF _ True t r u] c(2) by (simp add: waiting_def)
next
  case st: False
  then have tx: "c_used c" "tx_used (tx c)" using c(2) by (simp_all add: waiting_def)
  show ?thesis
  proof (cases "rto c \<le> t + 1 - sent_tick (tx c)")
    case False
    then have "c' = c" using r t tx st u by (auto simp: tick_conn_def split: if_splits)
    moreover have "unat (t + 1 - sent_tick (tx c)) = unat (t - sent_tick (tx c)) + 1" using tick_diff sent_young(2) [OF c(1) tx(2)] by blast
    ultimately show ?thesis using sent_young(1) [OF c(1) tx(2)] retries_le [OF c(1)] c(2) st tx(1) by (auto simp: budget_def)
  next
    case True
    have w: "conn_within 481 (current_tick s) c" using conn_later [OF c(1)] t by simp
    then show ?thesis
    proof (cases rule: retransmit_ok)
      case idle
      then show ?thesis using tx by simp
    next
      case gone
      then show ?thesis using r u t True tx st by (auto simp: tick_conn_def)
    next
      case (again s1 c1 ok)
      then have "c' = c1" using r u t True tx st by (auto simp: tick_conn_def split: if_splits)
      moreover have "budget (t + 1) c1 < budget t c"
        using retransmit_budget [OF c(1) tx(2) st tx(1) again(8)] again(6) st retries_le [OF again(4)] by simp
      ultimately show ?thesis using again(7) u by (simp add: waiting_def)
    qed
  qed
qed

text \<open>What a tick does to one connection of the table.\<close>

lemma tick_conn_quiet:
  assumes "conn_within 481 (current_tick s) c" "tick_conn c s = Some (c', s')"
  shows "quiet s s'" and "conn_ok (current_tick s) c'"
  by (rule tick_conn_ok [OF assms(1)], use assms(2) in \<open>simp add: conn_step_def\<close>)+

lemma tick_loop_other:
  assumes "tick_loop is s = Some s'" "i \<notin> set is" "set is \<subseteq> {..<length (conns s)}" "distinct is"
    and "\<And>j. j \<in> set is \<Longrightarrow> conn_within 481 (current_tick s) (conns s ! j)"
  shows "conns s' ! i = conns s ! i"
  using assms
proof (induction "is" arbitrary: s)
  case (Cons k "is")
  obtain c s1 where c: "tick_conn (conns s ! k) s = Some (c, s1)" "tick_loop is (set_conn k c s1) = Some s'"
    using Cons.prems(1) by (auto split: bind_splits)
  note f = quiet_fields [OF tick_conn_quiet(1) [OF Cons.prems(5) c(1)]]
  have "conns s' ! i = conns (set_conn k c s1) ! i"
    using Cons.prems(2-5) by (intro Cons.IH [OF c(2)]) (auto simp: set_conn_def f nth_list_update)
  then show ?case using Cons.prems(2) by (simp add: set_conn_def f)
qed simp

lemma tick_loop_nth:
  assumes "tick_loop is s = Some s'" "distinct is" "i \<in> set is" "set is \<subseteq> {..<length (conns s)}"
    and ok: "\<And>j. j < length (conns s) \<Longrightarrow> conn_within 481 (current_tick s) (conns s ! j)"
  obtains s1 s2 where "tick_conn (conns s ! i) s1 = Some (conns s' ! i, s2)" "current_tick s1 = current_tick s"
  using assms
proof (induction "is" arbitrary: s thesis)
  case Nil
  then show thesis by simp
next
  case (Cons k "is")
  have k: "k < length (conns s)" using Cons.prems(5) by simp
  obtain c s1 where c: "tick_conn (conns s ! k) s = Some (c, s1)" "quiet s s1" "conn_step (current_tick s) (conns s ! k) c"
    using tick_conn_ok [OF Cons.prems(6) [OF k]] .
  note f = quiet_fields [OF c(2)]
  let ?s = "set_conn k c s1"
  have s: "conns ?s = (conns s)[k := c]" "current_tick ?s = current_tick s" by (simp_all add: set_conn_def f)
  have l: "tick_loop is ?s = Some s'" using Cons.prems(2) c(1) by simp
  have all: "conn_within 481 (current_tick ?s) (conns ?s ! j)" if "j < length (conns ?s)" for j
    using Cons.prems(6) [of j] c(3) that conn_within_mono [of 480 _ c 481] by (cases "j = k") (simp_all add: s conn_step_def)
  show thesis
  proof (cases "i = k")
    case True
    have "k \<notin> set is" "set is \<subseteq> {..<length (conns ?s)}" "distinct is" using Cons.prems(3,5) by (simp_all add: s)
    then have "conns s' ! k = c" using tick_loop_other [OF l, of k] all k by (auto simp: s)
    then show thesis using Cons.prems(1) c(1) True by blast
  next
    case False
    obtain s2 s3 where "tick_conn (conns ?s ! i) s2 = Some (conns s' ! i, s3)" "current_tick s2 = current_tick ?s"
      using Cons.IH [of ?s, OF _ l _ _ _ all] Cons.prems(3,4,5) False s(1) by auto
    then show thesis using Cons.prems(1) False by (simp add: s)
  qed
qed

lemma tick_budget:
  assumes s: "tcp_ok s" "i < MAX_CONNECTIONS" "tcp_tick s = Some s'"
  shows "\<not> c_used (conns s ! i) \<Longrightarrow> \<not> c_used (conns s' ! i)"
    and "\<lbrakk>waiting (conns s ! i); c_used (conns s' ! i)\<rbrakk>
         \<Longrightarrow> waiting (conns s' ! i) \<and> budget (current_tick s + 1) (conns s' ! i) < budget (current_tick s) (conns s ! i)"
proof -
  let ?s = "s\<lparr>current_tick := current_tick s + 1\<rparr>"
  have l: "length (conns s) = MAX_CONNECTIONS" using s(1) by (simp add: tcp_ok_def)
  have w: "conn_within 481 (current_tick ?s) (conns ?s ! j)" if "j < length (conns ?s)" for j
    using conn_later [OF tcp_ok_nth [OF s(1)]] that l by simp
  obtain s1 s2 where r: "tick_conn (conns s ! i) s1 = Some (conns s' ! i, s2)" "current_tick s1 = current_tick s + 1"
  proof (rule tick_loop_nth [of "[0..<MAX_CONNECTIONS]" ?s s' i, OF _ _ _ _ w])
    show "tick_loop [0..<MAX_CONNECTIONS] ?s = Some s'" using s(3) by (simp add: tcp_tick_def)
    show "set [0..<MAX_CONNECTIONS] \<subseteq> {..<length (conns ?s)}" using l by auto
  qed (use s(2) that in simp_all)
  show "\<not> c_used (conns s ! i) \<Longrightarrow> \<not> c_used (conns s' ! i)" using r(1) by (auto simp: tick_conn_def)
  show "\<lbrakk>waiting (conns s ! i); c_used (conns s' ! i)\<rbrakk>
         \<Longrightarrow> waiting (conns s' ! i) \<and> budget (current_tick s + 1) (conns s' ! i) < budget (current_tick s) (conns s ! i)"
    using tick_conn_budget [OF tcp_ok_nth [OF s(1,2)] _ r(2,1)] by blast
qed

lemma ticks_end:
  assumes "tcp_ok s" "i < MAX_CONNECTIONS" "waiting (conns s ! i) \<and> budget (current_tick s) (conns s ! i) \<le> n \<or> \<not> c_used (conns s ! i)"
  shows "\<exists>s' rs. tcp_run (replicate n Tick) s = Some (s', rs) \<and> \<not> c_used (conns s' ! i)"
  using assms
proof (induction n arbitrary: s)
  case 0
  then show ?case using sent_young(1) [OF tcp_ok_nth [OF 0(1,2)]] retries_le [OF tcp_ok_nth [OF 0(1,2)]]
    by (auto simp: budget_def waiting_def split: if_splits)
next
  case (Suc n)
  obtain s1 where s1: "tcp_tick s = Some s1" "tcp_ok s1" "current_tick s1 = current_tick s + 1"
    by (rule tcp_tick_ok [OF Suc.prems(1)])
  have "waiting (conns s1 ! i) \<and> budget (current_tick s1) (conns s1 ! i) \<le> n \<or> \<not> c_used (conns s1 ! i)"
    using tick_budget [OF Suc.prems(1,2) s1(1)] Suc.prems(3) unfolding s1(3) by fastforce
  then obtain s' rs where "tcp_run (replicate n Tick) s1 = Some (s', rs)" "\<not> c_used (conns s' ! i)"
    using Suc.IH [OF s1(2) Suc.prems(2)] by blast
  then show ?case using s1(1) by simp
qed

lemma budget_le: "budget t c \<le> 3409"
proof -
  have "(7 - unat (retransmit_count (tx c))) * 487 \<le> 7 * 487" by (intro mult_right_mono) simp_all
  then have "(7 - unat (retransmit_count (tx c))) * 487 - unat (t - sent_tick (tx c)) \<le> 3409" by linarith
  moreover have "max 1 (120 - unat (t - timer_tick c)) \<le> 3409" by linarith
  ultimately show ?thesis by (simp only: budget_def split: if_split) simp
qed

text \<open>
  C33: silence ends a connection. A connection with a segment that is not acknowledged, or in TIME-WAIT, is given up by the timer
  alone: 3409 ticks without any other event, 6 repetitions and the last wait with a timeout of at most 480 ticks each and one tick for
  each failed attempt, always return and leave its slot free for new connections, whatever the network answers to sending and even when
  the tick counter wraps around.
\<close>

theorem silent_connection_is_freed:
  assumes "tcp_ok s" and "i < MAX_CONNECTIONS" and "tx_used (tx (conns s ! i)) \<or> c_used (conns s ! i) \<and> c_state (conns s ! i) = TimeWait"
  shows "\<exists>s' rs. tcp_run (replicate 3409 Tick) s = Some (s', rs) \<and> \<not> c_used (conns s' ! i)"
proof (rule ticks_end [OF assms(1,2)])
  have "waiting (conns s ! i)" using assms(3) tcp_ok_nth [OF assms(1,2)] by (auto simp: waiting_def conn_oks)
  then show "waiting (conns s ! i) \<and> budget (current_tick s) (conns s ! i) \<le> 3409 \<or> \<not> c_used (conns s ! i)" using budget_le by blast
qed

text \<open>A connection under way after the call of \<open>tcp_connect\<close>.\<close>

definition connecting :: tcp where
  "connecting = set_conn 0 ((fresh_conn (10, 0, 0, 2) 49152 80)\<lparr>snd_nxt := 2, tx := \<lparr>tx_used = True, tx_seq = 1, tx_end_seq = 2, tx_flags = SYN,
     tx_payload_len = 0, tx_payload = replicate TX_BUFFER_SIZE 0, sent_tick = 0, retransmit_count = 0\<rparr>\<rparr>) (booted (10, 0, 0, 1))"

lemma connecting_ok: "tcp_ok connecting" "tx_used (tx (conns connecting ! 0))"
proof -
  let ?c = "(fresh_conn (10, 0, 0, 2) 49152 80)\<lparr>snd_nxt := 2, tx := \<lparr>tx_used = True, tx_seq = 1, tx_end_seq = 2, tx_flags = SYN,
     tx_payload_len = 0, tx_payload = replicate TX_BUFFER_SIZE 0, sent_tick = 0, retransmit_count = 0\<rparr>\<rparr>"
  have "conn_ok (current_tick (booted (10, 0, 0, 1))) ?c"
    using fresh_conn_ok [of 49152 0 "(10, 0, 0, 2)" 80] by (simp add: conn_oks seq_advance_def booted_def)
  then show "tcp_ok connecting" unfolding connecting_def by (rule tcp_ok_set [OF booted_ok quiet_refl])
  show "tx_used (tx (conns connecting ! 0))" by (simp add: connecting_def set_conn_def booted_def MAX_CONNECTIONS_def)
qed

theorem silent_connection_is_freed_witness:
  "\<exists>s' rs. tcp_run (replicate 3409 Tick) connecting = Some (s', rs) \<and> \<not> c_used (conns s' ! 0)"
  by (rule silent_connection_is_freed [OF connecting_ok(1)]) (simp_all add: MAX_CONNECTIONS_def connecting_ok)

end
