(* ===== verification/Tcp_Checksum.thy ===== *)
theory Tcp_Checksum
  imports Tcp
begin

text \<open>
  The checksum of \<^verbatim>\<open>net/tcp.cpp\<close> as a sum modulo 65535, what a receiver makes of the header fields that are sent, and of the
  checksum field, which is stored in the byte order of the machine.
\<close>

unbundle bit_operations_syntax

section \<open>The sum of 16-bit words\<close>

fun wsum :: "u8 list \<Rightarrow> nat" where
  "wsum (a # b # ds) = 256 * unat a + unat b + wsum ds"
| "wsum [a] = 256 * unat a"
| "wsum [] = 0"

definition ip_sum :: "ip \<Rightarrow> nat" where
  "ip_sum a = (case a of (a0, a1, a2, a3) \<Rightarrow> 256 * unat a0 + unat a1 + 256 * unat a2 + unat a3)"

text \<open>The representative of a number modulo 65535 that folding gives: 0 only for 0.\<close>

definition red :: "nat \<Rightarrow> nat" where
  "red n = (if n = 0 then 0 else (n - 1) mod 65535 + 1)"

lemma red_le: "red n \<le> 65535"
proof -
  have "(n - 1) mod 65535 < 65535" by simp
  then have "(n - 1) mod 65535 + 1 \<le> 65535" by linarith
  then show ?thesis by (simp only: red_def split: if_split) simp
qed

lemma red_mod: "red n mod 65535 = n mod 65535"
proof (cases n)
  case (Suc m)
  have "(m mod 65535 + 1) mod 65535 = (m + 1) mod 65535" by (rule mod_add_left_eq)
  then show ?thesis using Suc by (simp add: red_def)
qed (simp add: red_def)

lemma red_eq_0 [simp]: "red n = 0 \<longleftrightarrow> n = 0"
  by (simp add: red_def)

lemma red_cong:
  assumes "m mod 65535 = n mod 65535" "m = 0 \<longleftrightarrow> n = 0"
  shows "red m = red n"
proof (cases "n = 0")
  case False
  have "(m + 65534) mod 65535 = (n + 65534) mod 65535" using mod_add_cong [OF assms(1) refl] .
  moreover have "m + 65534 = (m - 1) + 65535" "n + 65534 = (n - 1) + 65535" using assms(2) False by simp_all
  ultimately have "(m - 1) mod 65535 = (n - 1) mod 65535" by (metis mod_add_self2)
  then show ?thesis using assms False by (simp add: red_def)
qed (use assms in simp)

lemma red_add: "red (red a + b) = red (a + b)"
  by (rule red_cong) (simp_all add: mod_add_cong [OF red_mod refl])

lemma red_small: "n \<le> 65535 \<Longrightarrow> red n = n"
  by (cases n) (simp_all add: red_def)

lemma red_full: "red n = 65535 \<longleftrightarrow> 0 < n \<and> n mod 65535 = 0"
proof
  assume r: "red n = 65535"
  then show "0 < n \<and> n mod 65535 = 0" using red_mod [of n] red_eq_0 [of n] by (metis gr0I mod_self zero_neq_numeral)
next
  assume n: "0 < n \<and> n mod 65535 = 0"
  then have "red n mod 65535 = 0" "0 < red n" using red_mod [of n] red_eq_0 [of n] by (simp_all add: neq0_conv [symmetric] del: neq0_conv)
  then show "red n = 65535" using red_le [of n] by (metis dvd_imp_le le_antisym mod_0_imp_dvd)
qed

lemma unat_fold16: "unat (fold16 x) = red (unat x)"
proof (induction x rule: fold16.induct)
  case (1 x)
  show ?case
  proof (cases "drop_bit 16 x = 0")
    case True
    then have "unat x div 65536 = 0" using fold16_parts(1) [of x] by simp
    then have "unat x \<le> 65535" by (simp add: div_eq_0_iff)
    then show ?thesis using True by (simp add: fold16.simps [of x] red_small)
  next
    case False
    let ?y = "unat x mod 65536 + unat x div 65536"
    have x: "unat x = 65535 * (unat x div 65536) + ?y" using div_mult_mod_eq [of "unat x" 65536] by linarith
    then have "unat x mod 65535 = ?y mod 65535" by (metis mod_mult_self4)
    moreover have "?y = 0 \<longleftrightarrow> unat x = 0" using x by auto
    ultimately have "red ?y = red (unat x)" using red_cong by metis
    then show ?thesis using 1 [OF False] False by (simp add: fold16.simps [of x] fold16_parts(3))
  qed
qed

lemma unat_word16: "unat (word16 a b) = 256 * unat a + unat b"
proof -
  have "push_bit 8 (ucast a :: u32) OR ucast b = push_bit 8 (ucast a) + ucast b"
    by (rule disjunctive_add [symmetric]) (auto simp: bit_simps dest: bit_imp_le_length)
  moreover have "unat (push_bit 8 (ucast a :: u32)) = 256 * unat a"
    using unsigned_less [of a, where ?'a = nat] by (simp add: push_bit_eq_mult unat_word_ariths(2) unsigned_ucast_eq take_bit_nat_eq_self)
  ultimately show ?thesis
    using unsigned_less [of a, where ?'a = nat] unsigned_less [of b, where ?'a = nat]
    by (simp add: word16_def unat_word_ariths(1) unsigned_ucast_eq take_bit_nat_eq_self)
qed

lemma unat_high: "unat (push_bit 8 (ucast (a :: u8)) :: u32) = 256 * unat a"
  using unat_word16 [of a 0] by (simp add: word16_def)

lemma unat_add_small:
  fixes x y :: u32
  assumes "unat x + 65536 \<le> 2 ^ 32" "unat y \<le> 65535"
  shows "unat (x + y) = unat x + unat y"
  using assms by (simp add: unat_word_ariths(1))

lemma byte_le: "unat (b :: u8) \<le> 255"
  using unsigned_less [of b, where ?'a = nat] by simp

lemma unat_csum_loop:
  assumes "unat acc + 65536 \<le> 2 ^ 32"
  shows "red (unat (csum_loop ds acc)) = red (unat acc + wsum ds)"
  using assms
proof (induction ds acc rule: csum_loop.induct)
  case (1 a b ds acc)
  have le: "unat (word16 a b) \<le> 65535" using byte_le [of a] byte_le [of b] by (simp add: unat_word16)
  have f: "unat (fold16 (acc + word16 a b)) = red (unat acc + 256 * unat a + unat b)"
    using unat_add_small [OF 1(2) le] by (simp add: unat_fold16 unat_word16 add.assoc)
  have "unat (fold16 (acc + word16 a b)) + 65536 \<le> 2 ^ 32"
    using red_le [of "unat acc + 256 * unat a + unat b"] unfolding f by simp
  then show ?case using 1(1) f by (simp add: red_add add.assoc)
next
  case (2 a acc)
  have "unat (push_bit 8 (ucast a) :: u32) \<le> 65535" using byte_le [of a] by (simp add: unat_high)
  then have "unat (acc + push_bit 8 (ucast a)) = unat acc + 256 * unat a" using unat_add_small [OF 2] by (simp add: unat_high)
  then show ?case using red_add [of "unat acc + 256 * unat a" 0] by (simp add: unat_fold16)
next
  case (3 acc)
  then show ?case by simp
qed

lemma unat_not_16:
  fixes x :: u16
  shows "unat (NOT x) = 65535 - unat x"
proof -
  have "NOT x = - 1 - x" by (simp add: not_eq_complement)
  moreover have "unat (- 1 :: u16) = 65535" by (simp add: unsigned_minus_1_eq_mask mask_eq_exp_minus_1)
  ultimately show ?thesis using unat_sub [of x "- 1"] by simp
qed

text \<open>What the checksum covers: both addresses, the protocol, the length and the data.\<close>

definition csum_total :: "ip \<Rightarrow> ip \<Rightarrow> u8 list \<Rightarrow> nat" where
  "csum_total src dst data = ip_sum src + ip_sum dst + 6 + length data + wsum data"

lemma unat_tcp_checksum:
  assumes len: "length data \<le> 2 ^ 31"
  shows "unat (tcp_checksum src dst data) = 65535 - red (csum_total src dst data)"
proof -
  obtain s0 s1 s2 s3 d0 d1 d2 d3 where a: "src = (s0, s1, s2, s3)" "dst = (d0, d1, d2, d3)" by (metis surj_pair)
  let ?acc = "word16 s0 s1 + word16 s2 s3 + word16 d0 d1 + word16 d2 d3 + 6 + of_nat (length data)"
  note le = byte_le [of s0] byte_le [of s1] byte_le [of s2] byte_le [of s3] byte_le [of d0] byte_le [of d1] byte_le [of d2] byte_le [of d3]
  have acc: "unat ?acc = ip_sum src + ip_sum dst + 6 + length data"
    using le len by (simp add: a ip_sum_def unat_word_ariths(1) unat_word16 unat_of_nat_32)
  have "unat ?acc + 65536 \<le> 2 ^ 32" unfolding acc using le len by (simp add: a ip_sum_def)
  then have r: "unat (fold16 (csum_loop data ?acc)) = red (csum_total src dst data)"
    using unat_csum_loop [of ?acc data] by (simp add: unat_fold16 acc csum_total_def)
  then have "unat (ucast (fold16 (csum_loop data ?acc)) :: u16) = red (csum_total src dst data)"
    using red_le [of "csum_total src dst data"] by (simp add: unsigned_ucast_eq take_bit_nat_eq_self)
  then show ?thesis by (simp add: a tcp_checksum_def unat_not_16)
qed

text \<open>The test of a receiver.\<close>

lemma tcp_checksum_0_iff:
  assumes "length data \<le> 2 ^ 31"
  shows "tcp_checksum src dst data = 0 \<longleftrightarrow> csum_total src dst data mod 65535 = 0"
proof -
  have "tcp_checksum src dst data = 0 \<longleftrightarrow> unat (tcp_checksum src dst data) = 0" by (simp add: unat_eq_0)
  also have "\<dots> \<longleftrightarrow> red (csum_total src dst data) = 65535"
    using red_le [of "csum_total src dst data"] by (simp add: unat_tcp_checksum [OF assms])
  also have "\<dots> \<longleftrightarrow> csum_total src dst data mod 65535 = 0" by (simp add: red_full csum_total_def)
  finally show ?thesis .
qed

section \<open>Segments on the wire\<close>

lemma rd16_be16: "push_bit 8 (ucast (ucast (drop_bit 8 x) :: u8)) OR ucast (ucast x :: u8) = (x :: u16)"
  by (rule bit_word_eqI) (auto simp: bit_simps)

lemma rd32_be32:
  "push_bit 24 (ucast (ucast (drop_bit 24 x) :: u8)) OR push_bit 16 (ucast (ucast (drop_bit 16 x) :: u8)) OR
   push_bit 8 (ucast (ucast (drop_bit 8 x) :: u8)) OR ucast (ucast x :: u8) = (x :: u32)" (is "?y = x")
proof (rule bit_word_eqI)
  fix n
  assume n: "n < LENGTH(32)"
  consider "n < 8" | "8 \<le> n" "n < 16" | "16 \<le> n" "n < 24" | "24 \<le> n" by linarith
  then show "bit ?y n \<longleftrightarrow> bit x n" using n by cases (auto simp: bit_simps)
qed

lemma u16_bytes:
  fixes x :: u16
  shows "unat x = 256 * unat (ucast (drop_bit 8 x) :: u8) + unat (ucast x :: u8)"
proof -
  have "unat x < 65536" using unsigned_less [of x, where ?'a = nat] by simp
  then have "unat (ucast (drop_bit 8 x) :: u8) = unat x div 256"
    by (simp add: unsigned_ucast_eq drop_bit_eq_div take_bit_eq_mod unat_div)
  moreover have "unat (ucast x :: u8) = unat x mod 256" by (simp add: unsigned_ucast_eq take_bit_eq_mod)
  ultimately show ?thesis by simp
qed

lemma csum_total_commute: "csum_total src dst data = csum_total dst src data"
  by (simp add: csum_total_def)

lemma csum_total_packet:
  "csum_total src dst (tcp_packet sp dp seq ack fl win [x, y] p) = csum_total src dst (tcp_packet sp dp seq ack fl win [0, 0] p) + 256 * unat x + unat y"
  by (simp add: csum_total_def tcp_packet_def be16_def be32_def)

text \<open>The sum without the checksum and the checksum add up to a multiple of 65535.\<close>

lemma csum_complement:
  assumes "length data \<le> 2 ^ 31"
  shows "(csum_total src dst data + unat (tcp_checksum src dst data)) mod 65535 = 0"
proof -
  have "(csum_total src dst data + unat (tcp_checksum src dst data)) mod 65535 =
      (red (csum_total src dst data) + unat (tcp_checksum src dst data)) mod 65535"
    by (rule mod_add_cong [OF red_mod [symmetric] refl])
  also have "red (csum_total src dst data) + unat (tcp_checksum src dst data) = 65535"
    using red_le [of "csum_total src dst data"] by (simp add: unat_tcp_checksum [OF assms])
  finally show ?thesis by simp
qed

lemma swapped_bytes_sum:
  fixes w lo hi :: nat
  assumes "(w + (256 * hi + lo)) mod 65535 = 0" "lo \<le> 255" "hi \<le> 255"
  shows "(w + (256 * lo + hi)) mod 65535 = 0 \<longleftrightarrow> lo = hi"
proof
  assume "(w + (256 * lo + hi)) mod 65535 = 0"
  then have "int 65535 dvd int (w + (256 * lo + hi))" "int 65535 dvd int (w + (256 * hi + lo))"
    using assms(1) unfolding int_dvd_int_iff unfolding dvd_eq_mod_eq_0 .
  then have "int 65535 dvd int (w + (256 * lo + hi)) - int (w + (256 * hi + lo))" by (rule dvd_diff)
  moreover have "int (w + (256 * lo + hi)) - int (w + (256 * hi + lo)) = 255 * (int lo - int hi)" by simp
  ultimately have d: "int 65535 dvd 255 * (int lo - int hi)" by simp
  moreover have "\<bar>255 * (int lo - int hi)\<bar> < \<bar>int 65535\<bar>" using assms(2,3) by (simp add: abs_if)
  ultimately have "255 * (int lo - int hi) = 0" using dvd_imp_le_int [OF _ d] by linarith
  then show "lo = hi" by simp
qed (use assms in simp)

lemma tcp_packet_length: "length csum = 2 \<Longrightarrow> length (tcp_packet sp dp seq ack fl win csum p) = 20 + length p"
  by (simp add: tcp_packet_def be16_def be32_def)

lemma rd16_at: "xs ! i = ucast (drop_bit 8 x) \<Longrightarrow> xs ! (i + 1) = ucast x \<Longrightarrow> rd16 xs i = x"
  by (simp only: rd16_def rd16_be16)

lemma rd32_at:
  "\<lbrakk>xs ! i = ucast (drop_bit 24 x); xs ! (i + 1) = ucast (drop_bit 16 x); xs ! (i + 2) = ucast (drop_bit 8 x); xs ! (i + 3) = ucast x\<rbrakk>
   \<Longrightarrow> rd32 xs i = x"
  by (simp only: rd32_def rd32_be32)

lemma tcp_packet_fields:
  fixes x y :: u8
  defines "pk sp dp seq ack fl win p \<equiv> tcp_packet sp dp seq ack fl win [x, y] p"
  shows "pk sp dp seq ack fl win p ! 12 = 0x50" "pk sp dp seq ack fl win p ! 13 = fl" "drop 20 (pk sp dp seq ack fl win p) = p"
    "rd16 (pk sp dp seq ack fl win p) 0 = sp" "rd16 (pk sp dp seq ack fl win p) 2 = dp" "rd32 (pk sp dp seq ack fl win p) 4 = seq"
    "rd32 (pk sp dp seq ack fl win p) 8 = ack" "rd16 (pk sp dp seq ack fl win p) 14 = win"
  by (simp_all add: pk_def tcp_packet_def be16_def be32_def rd16_at rd32_at)

lemma decode_tcp_packet:
  assumes "length p \<le> TX_BUFFER_SIZE"
  shows "decode_segment dst src (tcp_packet sp dp seq ack fl win [x, y] p) =
     (if (csum_total src dst (tcp_packet sp dp seq ack fl win [0, 0] p) + (256 * unat x + unat y)) mod 65535 = 0
      then Some \<lparr>seg_src = sp, seg_dst = dp, seg_seq = seq, seg_ack = ack, seg_flags = fl, seg_window = win, seg_payload = p\<rparr> else None)"
proof -
  let ?pk = "tcp_packet sp dp seq ack fl win [x, y] p"
  have len: "length ?pk = 20 + length p" by (simp add: tcp_packet_length)
  then have "tcp_checksum dst src ?pk = 0 \<longleftrightarrow> (csum_total src dst (tcp_packet sp dp seq ack fl win [0, 0] p) + (256 * unat x + unat y)) mod 65535 = 0"
    using tcp_checksum_0_iff [of ?pk dst src] assms unfolding csum_total_commute [of dst src] csum_total_packet [of src dst sp dp seq ack fl win x y p]
    by (simp add: TX_BUFFER_SIZE_def add.assoc)
  then show ?thesis using len tcp_packet_fields [of sp dp seq ack fl win x y p] by (simp add: decode_segment_def)
qed

text \<open>
  C35: a segment on the wire. What \<open>send_raw_segment\<close> passes to the network for a payload of at most 1460 bytes is one packet to the
  address of the peer. The receiver, running the same code, accepts it exactly when the two bytes of its checksum field are equal,
  because the checksum is stored without \<open>htons\<close>. With these two bytes exchanged it is always accepted, and the ports, numbers, flags,
  window and payload that the receiver reads are those that were sent.
\<close>

theorem sent_segment_decoded:
  assumes "length p \<le> TX_BUFFER_SIZE"
  shows "\<exists>pk. sent (fst (send_raw_segment c fl seq ack p s)) = sent s @ [(remote c, pk)] \<and>
     (decode_segment (remote c) (local_ip s) pk \<noteq> None \<longleftrightarrow> pk ! 16 = pk ! 17) \<and>
     decode_segment (remote c) (local_ip s) (pk[16 := pk ! 17, 17 := pk ! 16]) =
       Some \<lparr>seg_src = local_port c, seg_dst = remote_port c, seg_seq = seq, seg_ack = ack, seg_flags = fl, seg_window = send_window c,
         seg_payload = p\<rparr>"
proof -
  let ?pk = "\<lambda>csum. tcp_packet (local_port c) (remote_port c) seq ack fl (send_window c) csum p"
  let ?w = "csum_total (local_ip s) (remote c) (?pk [0, 0])" and ?sum = "tcp_checksum (local_ip s) (remote c) (?pk [0, 0])"
  define lo hi :: u8 where "lo = ucast ?sum" and "hi = ucast (drop_bit 8 ?sum)"
  have "length (?pk [0, 0]) \<le> 2 ^ 31" using assms by (simp add: tcp_packet_length TX_BUFFER_SIZE_def)
  then have "(?w + unat ?sum) mod 65535 = 0" by (rule csum_complement)
  then have w: "(?w + (256 * unat hi + unat lo)) mod 65535 = 0" using u16_bytes [of ?sum] unfolding lo_def hi_def by (rule subst [rotated])
  have "sent (fst (send_raw_segment c fl seq ack p s)) = sent s @ [(remote c, ?pk [lo, hi])]"
    using assms by (simp add: send_raw_segment_def ipv4_send_def Let_def le16_def lo_def hi_def TX_BUFFER_SIZE_def)
  moreover have "decode_segment (remote c) (local_ip s) (?pk [lo, hi]) \<noteq> None \<longleftrightarrow> ?pk [lo, hi] ! 16 = ?pk [lo, hi] ! 17"
    using swapped_bytes_sum [OF w byte_le byte_le]
    by (simp add: decode_tcp_packet [OF assms]) (auto simp: tcp_packet_def be16_def be32_def word_unat_eq_iff)
  moreover have "(?pk [lo, hi])[16 := ?pk [lo, hi] ! 17, 17 := ?pk [lo, hi] ! 16] = ?pk [hi, lo]"
    by (simp add: tcp_packet_def be16_def be32_def)
  ultimately show ?thesis using decode_tcp_packet [OF assms, of "remote c" "local_ip s" _ _ _ _ _ _ hi lo] w by auto
qed

theorem sent_segment_decoded_witness:
  "\<exists>pk. sent (fst (send_raw_segment (cleared\<lparr>remote := (10, 0, 0, 2), local_port := 80, remote_port := 1000\<rparr>) ACK 7 9 [1, 2, 3]
       \<lparr>conns = [], next_ephemeral_port = 0, current_tick = 0, sent = [], local_ip = (10, 0, 0, 1), link = \<lambda>_. True\<rparr>)) = [((10, 0, 0, 2), pk)] \<and>
     (decode_segment (10, 0, 0, 2) (10, 0, 0, 1) pk \<noteq> None \<longleftrightarrow> pk ! 16 = pk ! 17)"
  using sent_segment_decoded [of "[1, 2, 3]" "cleared\<lparr>remote := (10, 0, 0, 2), local_port := 80, remote_port := 1000\<rparr>" ACK 7 9
      "\<lparr>conns = [], next_ephemeral_port = 0, current_tick = 0, sent = [], local_ip = (10, 0, 0, 1), link = \<lambda>_. True\<rparr>"]
  by (auto simp: TX_BUFFER_SIZE_def)

end
