(* ===== verification/Tcp_Stream.thy ===== *)
theory Tcp_Stream
  imports Tcp_Calls Tcp_Checksum "HOL-Library.Sublist"
begin

text \<open>
  What a user of \<^verbatim>\<open>net/tcp.cpp\<close> reads: the bytes of the peer's stream in order, without gap or repetition, whatever the network
  loses, repeats or reorders, and the acknowledgement number counts exactly the bytes that were read or wait to be read.
\<close>

unbundle bit_operations_syntax

section \<open>Segments of a stream\<close>

text \<open>The bytes \<open>d\<close> with the sequence number \<open>q\<close> belong to the stream \<open>S\<close> whose first byte has the number \<open>r0\<close>.\<close>

definition piece :: "u8 list \<Rightarrow> u32 \<Rightarrow> u32 \<Rightarrow> u8 list \<Rightarrow> bool" where
  "piece S r0 q d \<longleftrightarrow> (\<exists>k \<le> length S. k + length d \<le> length S \<and> q = r0 + of_nat k \<and> take (length d) (drop k S) = d)"

definition seg_from :: "u8 list \<Rightarrow> u32 \<Rightarrow> segment \<Rightarrow> bool" where
  "seg_from S r0 g \<longleftrightarrow>
     piece S r0 (seg_seq g) (seg_payload g) \<and>
     (has g FIN \<longrightarrow> seg_seq g + of_nat (length (seg_payload g)) = r0 + of_nat (length S))"

text \<open>The state of a connection after the bytes \<open>D\<close> have been read from it, \<open>n\<close> bytes of the stream having arrived in order.\<close>

definition stream_at :: "u8 list \<Rightarrow> u32 \<Rightarrow> u8 list \<Rightarrow> nat \<Rightarrow> conn \<Rightarrow> bool" where
  "stream_at S r0 D n c \<longleftrightarrow>
     n \<le> length S \<and> D @ unread c = take n S \<and> rcv_nxt c = r0 + of_nat n + (if fin_received c then 1 else 0) \<and>
     (fin_received c \<longrightarrow> n = length S)"

definition stream_inv :: "u8 list \<Rightarrow> u32 \<Rightarrow> u8 list \<Rightarrow> conn \<Rightarrow> bool" where
  "stream_inv S r0 D c \<longleftrightarrow>
     length S + 1 < 2 ^ 32 \<and> c_state c \<notin> {Listen, SynSent} \<and> (\<exists>n. stream_at S r0 D n c) \<and>
     (ooo_used (ooo c) \<longrightarrow> piece S r0 (ooo_seq (ooo c)) (take (ooo_len (ooo c)) (ooo_data (ooo c))))"

text \<open>Numbers of a stream that is shorter than the sequence space identify places in it.\<close>

lemma stream_place:
  assumes "length S + 1 < 2 ^ 32" "k \<le> length S" "stream_at S r0 D n c" "r0 + of_nat k = rcv_nxt c"
  shows "k = n" and "\<not> fin_received c"
proof -
  let ?f = "if fin_received c then 1 else 0 :: nat"
  have "of_nat k = (of_nat (n + ?f) :: u32)" using assms(3,4) by (simp add: stream_at_def split: if_splits)
  then have "k = n + ?f" using assms(1,2,3) unat_of_nat_32 [of k] unat_of_nat_32 [of "n + ?f"]
    by (auto simp: stream_at_def split: if_splits)
  then show "k = n" "\<not> fin_received c" using assms(2,3) by (auto simp: stream_at_def split: if_splits)
qed

lemma stream_at_append:
  assumes "stream_at S r0 D n c" "\<not> fin_received c" "n + length d \<le> length S" "take (length d) (drop n S) = d"
    and "unread c' = unread c @ d" "rcv_nxt c' = rcv_nxt c + of_nat (length d)" "fin_received c' = fin_received c"
  shows "stream_at S r0 D (n + length d) c'"
proof -
  have "D @ unread c' = take n S @ d" using assms(1,5) by (simp add: stream_at_def flip: append_assoc)
  also have "\<dots> = take (n + length d) S" using assms(4) by (metis take_add)
  finally show ?thesis using assms by (simp add: stream_at_def)
qed

text \<open>Pieces that start at the next expected number extend what has arrived.\<close>

lemma stream_inv_extend:
  assumes inv: "stream_inv S r0 D c" and d: "piece S r0 (rcv_nxt c) d"
    and c': "same_peer c c'" "unread c' = unread c @ d" "rcv_nxt c' = rcv_nxt c + of_nat (length d)"
    and ooo: "ooo c' = ooo c \<or> \<not> ooo_used (ooo c')"
  shows "stream_inv S r0 D c'"
proof -
  obtain n where n: "length S + 1 < 2 ^ 32" "stream_at S r0 D n c" using inv by (auto simp: stream_inv_def)
  obtain k where k: "k \<le> length S" "k + length d \<le> length S" "rcv_nxt c = r0 + of_nat k" "take (length d) (drop k S) = d"
    using d by (auto simp: piece_def)
  note kn = stream_place [OF n(1) k(1) n(2) k(3) [symmetric]]
  have "stream_at S r0 D (n + length d) c'"
    using stream_at_append [OF n(2) kn(2)] k c' kn(1) by (simp add: same_peer_def)
  then show ?thesis using inv c'(1) ooo by (auto simp: stream_inv_def same_peer_def)
qed

interpretation st: receive_law "stream_inv S r0 D" "seg_from S r0" for S r0 D
proof
  fix c c' g
  assume P: "stream_inv S r0 D c"
  show "stream_inv S r0 D c'" if "rcv_same c c'"
    using P that by (auto simp: stream_inv_def stream_at_def rcv_same_def)
  show "stream_inv S r0 D c'"
    if "seg_from S r0 g" "seg_seq g = rcv_nxt c" "same_peer c c'" "ooo c' = ooo c" "unread c' = unread c @ seg_payload g"
      "rcv_nxt c' = rcv_nxt c + of_nat (length (seg_payload g))" "seg_payload g \<noteq> []"
    using stream_inv_extend [OF P _ that(3,5,6)] that(1,2,4) by (simp add: seg_from_def)
  show "stream_inv S r0 D c'"
    if "same_peer c c'" "ooo_used (ooo c)" "ooo_seq (ooo c) = rcv_nxt c"
      "unread c' = unread c @ take (ooo_len (ooo c)) (ooo_data (ooo c))" "ooo_len (ooo c) \<le> length (ooo_data (ooo c))"
      "rcv_nxt c' = rcv_nxt c + of_nat (ooo_len (ooo c))" "\<not> ooo_used (ooo c')"
    using stream_inv_extend [OF P _ that(1,4)] P that by (simp add: stream_inv_def)
  show "stream_inv S r0 D c'"
    if "seg_from S r0 g" "same_peer c c'" "rcv_nxt c' = rcv_nxt c" "unread c' = unread c" "ooo_seq (ooo c') = seg_seq g"
      "take (ooo_len (ooo c')) (ooo_data (ooo c')) = seg_payload g" "ooo_len (ooo c') \<le> length (ooo_data (ooo c'))"
    using P that by (auto simp: stream_inv_def stream_at_def same_peer_def seg_from_def)
  show "stream_inv S r0 D (c\<lparr>rcv_nxt := rcv_nxt c + 1, fin_received := True\<rparr>)"
    if "seg_from S r0 g" "has g FIN" "seg_seq g + of_nat (length (seg_payload g)) = rcv_nxt c"
  proof -
    obtain n where n: "length S + 1 < 2 ^ 32" "stream_at S r0 D n c" using P by (auto simp: stream_inv_def)
    have "r0 + of_nat (length S) = rcv_nxt c" using that by (simp add: seg_from_def)
    then have "length S = n" "\<not> fin_received c" using stream_place [OF n(1) order_refl n(2)] by simp_all
    then have "stream_at S r0 D n (c\<lparr>rcv_nxt := rcv_nxt c + 1, fin_received := True\<rparr>)" using n(2) by (simp add: stream_at_def unread_def)
    then show ?thesis using P by (auto simp: stream_inv_def)
  qed
qed

section \<open>Runs\<close>

text \<open>Packets of the peer of \<open>c\<close> carry pieces of its stream; all other calls and packets are free.\<close>

fun from_stream :: "ip \<Rightarrow> conn \<Rightarrow> u8 list \<Rightarrow> tcp_call \<Rightarrow> bool" where
  "from_stream local c S (Arrive src packet) \<longleftrightarrow>
     (case decode_segment local src packet of
        None \<Rightarrow> True
      | Some g \<Rightarrow> src = remote c \<and> seg_src g = remote_port c \<and> seg_dst g = local_port c \<longrightarrow> seg_from S (rcv_nxt c) g)"
| "from_stream local c S _ \<longleftrightarrow> True"

fun is_read :: "nat \<Rightarrow> tcp_call \<Rightarrow> bool" where
  "is_read i (Read h null len) \<longleftrightarrow> h = int i"
| "is_read i _ \<longleftrightarrow> False"

text \<open>A run that collects what is read from connection \<open>i\<close>, up to the moment when its slot is given up.\<close>

fun stream_run :: "nat \<Rightarrow> tcp_call list \<Rightarrow> tcp \<Rightarrow> (tcp \<times> u8 list) option" where
  "stream_run i [] s = Some (s, [])"
| "stream_run i (a # as) s = do {
     (s, r, b) \<leftarrow> tcp_step a s;
     (s, bs) \<leftarrow> (if c_used (conns s ! i) then stream_run i as s else Some (s, []));
     Some (s, (if is_read i a then b else []) @ bs)
   }"

text \<open>Connection \<open>i\<close> is still the one of the peer of \<open>c\<close>, with \<open>D\<close> read from it so far.\<close>

definition serving :: "conn \<Rightarrow> u8 list \<Rightarrow> u8 list \<Rightarrow> nat \<Rightarrow> tcp \<Rightarrow> bool" where
  "serving c S D i s \<longleftrightarrow>
     stream_inv S (rcv_nxt c) D (conns s ! i) \<and> remote (conns s ! i) = remote c \<and> local_port (conns s ! i) = local_port c \<and>
     remote_port (conns s ! i) = remote_port c"

lemma serving_same:
  assumes "serving c S D i s" "rcv_same (conns s ! i) (conns s' ! i)"
  shows "serving c S D i s'"
  using assms st.law_same [of S "rcv_nxt c" D "conns s ! i" "conns s' ! i"] by (simp add: serving_def rcv_same_def)

lemma serving_frame:
  assumes "serving c S D i s" "frame s s'" "i < MAX_CONNECTIONS" "c_used (conns s ! i)" "c_used (conns s' ! i)"
  shows "serving c S D i s'"
  using assms serving_same by (simp add: frame_def)

text \<open>A packet changes only the connection it is for.\<close>

lemma receive_conn_peer:
  assumes "receive_conn src g c s = Some (c', s')" "conn_ok (current_tick s) c" "c_state c \<notin> {Listen, SynSent}" "c_used c'"
  shows "remote c' = remote c \<and> local_port c' = local_port c \<and> remote_port c' = remote_port c"
proof -
  let ?P = "\<lambda>d. remote d = remote c \<and> local_port d = local_port c \<and> remote_port d = remote_port c"
  have law: "receive_law ?P (\<lambda>_. True)" by unfold_locales (simp_all add: rcv_same_def same_peer_def)
  have "receive_law.lawful ?P (current_tick s) c" using assms(2) by (simp add: receive_law.lawful_def [OF law])
  then obtain c1 s1 where "receive_conn src g c s = Some (c1, s1)" "receive_law.lawful ?P (current_tick s) c1"
    using receive_law.receive_conn_lawful [OF law, of s c src g] assms(3) by blast
  then show ?thesis using assms(1,4) by (simp add: receive_law.lawful_def [OF law])
qed

lemma serving_matched:
  assumes s: "tcp_ok s" "serving c S D i s" "i < MAX_CONNECTIONS"
    and j: "find_idx (conn_match src g) (conns s) = Some j" and d: "receive_conn src g (conns s ! j) s = Some (d, s1)"
    and g: "src = remote c \<and> seg_src g = remote_port c \<and> seg_dst g = local_port c \<Longrightarrow> seg_from S (rcv_nxt c) g"
    and used: "c_used (conns (set_conn j d s1) ! i)"
  shows "serving c S D i (set_conn j d s1) \<and> local_ip (set_conn j d s1) = local_ip s"
proof -
  let ?c = "conns s ! i"
  note m = find_idx_SomeD [OF j]
  have okj: "conn_ok (current_tick s) (conns s ! j)" "c_used (conns s ! j)" using s(1) m by (simp_all add: tcp_ok_def conn_match_def)
  have q: "quiet s s1" by (rule receive_conn_ok [OF okj, where src = src and g = g]) (use d in simp)
  have loc: "local_ip (set_conn j d s1) = local_ip s" "conns (set_conn j d s1) = (conns s)[j := d]"
    by (simp_all add: set_conn_def quiet_fields [OF q])
  show ?thesis
  proof (cases "j = i")
    case False
    then show ?thesis using loc s(2) by (simp add: serving_def)
  next
    case True
    have len: "i < length (conns s)" using s(1,3) by (simp add: tcp_ok_def)
    have st: "c_state ?c \<notin> {Listen, SynSent}" using s(2) by (simp add: serving_def stream_inv_def)
    have "src = remote ?c" "seg_src g = remote_port ?c" "seg_dst g = local_port ?c" using m True st by (auto simp: conn_match_def)
    then have g': "seg_from S (rcv_nxt c) g" using g s(2) by (simp add: serving_def)
    have "st.lawful S (rcv_nxt c) D (current_tick s) ?c" using okj True s(2) by (simp add: st.lawful_def serving_def)
    then obtain c1 s2 where "receive_conn src g ?c s = Some (c1, s2)" "st.lawful S (rcv_nxt c) D (current_tick s) c1"
      using st.receive_conn_lawful [OF _ g' st] by metis
    then have "stream_inv S (rcv_nxt c) D d" using d True used loc(2) len by (simp add: st.lawful_def)
    moreover have "remote d = remote ?c \<and> local_port d = local_port ?c \<and> remote_port d = remote_port ?c"
      using receive_conn_peer [OF _ _ st] okj d True used loc(2) len by simp
    ultimately show ?thesis using loc True len s(2) by (simp add: serving_def)
  qed
qed

lemma serving_packet:
  assumes s: "tcp_ok s" "serving c S D i s" "i < MAX_CONNECTIONS" "c_used (conns s ! i)"
    and a: "from_stream (local_ip s) c S (Arrive src packet)" and r: "tcp_receive_packet src packet s = Some s'" "c_used (conns s' ! i)"
  shows "serving c S D i s' \<and> local_ip s' = local_ip s"
proof (cases "decode_segment (local_ip s) src packet")
  case None
  then show ?thesis using r s by (simp add: tcp_receive_packet_def)
next
  case (Some g)
  have len: "i < length (conns s)" using s(1,3) by (simp add: tcp_ok_def)
  show ?thesis
  proof (cases "has g RST \<or> find_idx (conn_match src g) (conns s) = None")
    case True
    have "quiet s s' \<or> s' = s\<lparr>conns := map (\<lambda>c. if peer_match src g c then cleared else c) (conns s)\<rparr>"
      using r(1) Some True by (auto simp: tcp_receive_packet_def split: if_splits)
    then have "conns s' ! i = conns s ! i \<and> local_ip s' = local_ip s" using r(2) len by (auto simp: quiet_fields split: if_splits)
    then show ?thesis using s(2) by (simp add: serving_def)
  next
    case False
    then obtain j where j: "find_idx (conn_match src g) (conns s) = Some j" "\<not> has g RST" by auto
    then obtain d s1 where d: "receive_conn src g (conns s ! j) s = Some (d, s1)" "s' = set_conn j d s1"
      using r(1) Some by (auto simp: tcp_receive_packet_def split: bind_splits)
    show ?thesis using serving_matched [OF s(1,2,3) j(1) d(1)] r(2) a Some d(2) by simp
  qed
qed

text \<open>Reading moves bytes from the connection to the reader.\<close>

lemma serving_read:
  assumes s: "tcp_ok s" "serving c S D i s" "i < MAX_CONNECTIONS" and r: "tcp_receive h null len s = Some (s', v, b)"
  shows "serving c S (D @ (if h = int i then b else [])) i s' \<and> local_ip s' = local_ip s"
  using s(1)
proof (cases rule: tcp_receive_cases [where h = h and null = null and len = len])
  case refused
  then show ?thesis using r s(2) by simp
next
  case empty
  then show ?thesis using r s(2) by simp
next
  case (data n)
  let ?c = "conns s ! nat h" and ?d = "rx_reset_if_empty ((conns s ! nat h)\<lparr>rx_head := rx_head (conns s ! nat h) + n\<rparr>)"
  have s': "s' = set_conn (nat h) ?d s" "b = take n (unread ?c)" using r data(3) by simp_all
  have ok: "conn_ok (current_tick s) ?c" using tcp_ok_nth [OF s(1) valid_handleD(1) [OF data(1)]] .
  have len: "length (conns s) = MAX_CONNECTIONS" using s(1) by (simp add: tcp_ok_def)
  show ?thesis
  proof (cases "h = int i")
    case False
    then have "nat h \<noteq> i" using data(1) by (auto simp: valid_handle_def)
    then show ?thesis using s(2) s' False by (simp add: serving_def set_conn_def)
  next
    case True
    have n: "n \<le> length (unread ?c)" using data(2) by simp
    note rd = read_conn [OF ok n]
    have "conns s' ! i = ?d" using s' True len s(3) by (simp add: set_conn_def)
    moreover have "(D @ b) @ unread ?d = D @ unread ?c" using rd(6) s'(2) by simp
    ultimately show ?thesis using s(2) True rd(2,3,4) s'(1)
      by (auto simp: serving_def stream_inv_def stream_at_def same_peer_def set_conn_def)
  qed
qed

lemma frame_step:
  assumes s: "tcp_ok s" "call_ok a" and r: "tcp_step a s = Some (s', v)" and a: "\<And>src p. a \<noteq> Arrive src p" "\<And>h z n. a \<noteq> Read h z n"
  shows "frame s s'"
proof (cases a)
  case Init
  then show ?thesis using r tcp_init_ok(2) by auto
next
  case (ListenOn port)
  then show ?thesis using r tcp_listen_ok(2) [OF s(1)] by (cases "tcp_listen port s") auto
next
  case (Connect dst port)
  show ?thesis by (rule tcp_connect_ok [OF s(1), of dst port]) (use r Connect in auto)
next
  case (Send h data len)
  have d: "len \<le> length b" if "data = Some b" for b using s(2) Send that by simp
  show ?thesis by (rule tcp_send_ok [OF s(1) d, of data h]) (use r Send in auto)
next
  case (Close h)
  show ?thesis by (rule tcp_close_ok [OF s(1), of h]) (use r Close in auto)
next
  case Tick
  show ?thesis by (rule tcp_tick_ok [OF s(1)]) (use r Tick in \<open>auto simp: frame_def\<close>)
qed (use a in simp_all)

lemma serving_step:
  assumes s: "tcp_ok s" "serving c S D i s" "i < MAX_CONNECTIONS" "c_used (conns s ! i)"
    and a: "call_ok a" "from_stream (local_ip s) c S a" and r: "tcp_step a s = Some (s', v, b)" "c_used (conns s' ! i)"
  shows "serving c S (D @ (if is_read i a then b else [])) i s' \<and> local_ip s' = local_ip s"
proof -
  consider (arrive) src p where "a = Arrive src p" | (read) h z n where "a = Read h z n"
    | (other) "\<And>src p. a \<noteq> Arrive src p" "\<And>h z n. a \<noteq> Read h z n" by blast
  then show ?thesis
  proof cases
    case arrive
    then have "tcp_receive_packet src p s = Some s'" using r(1) by (auto split: bind_splits)
    then show ?thesis using serving_packet [OF s] a r(2) arrive by simp
  next
    case read
    then show ?thesis using serving_read [OF s(1,2,3)] r(1) by simp
  next
    case other
    have f: "frame s s'" using frame_step [OF s(1) a(1) r(1) other] .
    have "\<not> is_read i a" using other(2) by (cases a) auto
    then show ?thesis using serving_frame [OF s(2) f s(3,4) r(2)] f by (simp add: frame_def)
  qed
qed

lemma serving_prefix: "serving c S D i s \<Longrightarrow> prefix D S"
proof -
  assume "serving c S D i s"
  then obtain n where "D @ unread (conns s ! i) = take n S" by (auto simp: serving_def stream_inv_def stream_at_def)
  then have "D @ (unread (conns s ! i) @ drop n S) = S" by (metis append.assoc append_take_drop_id)
  then show ?thesis by (metis prefixI)
qed

lemma gone_reads_nothing:
  assumes "tcp_ok s" "i < MAX_CONNECTIONS" "c_used (conns s ! i)" "serving c S D i s" "tcp_step a s = Some (s', v, b)" "\<not> c_used (conns s' ! i)"
  shows "\<not> is_read i a"
proof
  assume r: "is_read i a"
  then obtain z n where a: "a = Read (int i) z n" by (cases a) auto
  have e: "tcp_receive (int i) z n s = Some (s', v, b)" using assms(5) a by simp
  from assms(1) show False
  proof (cases rule: tcp_receive_cases [where h = "int i" and null = z and len = n])
    case (data m)
    have len: "length (conns s) = MAX_CONNECTIONS" using assms(1) by (simp add: tcp_ok_def)
    have "m \<le> length (unread (conns s ! i))" using data(2) by simp
    note rd = read_conn(2) [OF tcp_ok_nth [OF assms(1,2)] this]
    show False using data(3) assms(2,3,6) e rd len by (auto simp: set_conn_def same_peer_def)
  qed (use assms(3,6) e in auto)
qed

lemma stream_run_ok:
  assumes "tcp_ok s" "serving c S D i s" "i < MAX_CONNECTIONS" "c_used (conns s ! i)"
    and "list_all call_ok calls" "list_all (from_stream (local_ip s) c S) calls"
  shows "\<exists>s' E. stream_run i calls s = Some (s', E) \<and> prefix (D @ E) S \<and> (c_used (conns s' ! i) \<longrightarrow> serving c S (D @ E) i s')"
  using assms
proof (induction calls arbitrary: s D)
  case Nil
  then show ?case using serving_prefix by simp
next
  case (Cons a as)
  note p = Cons.prems
  have a: "call_ok a" "from_stream (local_ip s) c S a" using p(5,6) by simp_all
  obtain s1 v b where 1: "tcp_step a s = Some (s1, v, b)" "tcp_ok s1" by (rule tcp_step_ok [OF p(1) a(1)]) (metis prod.collapse)
  let ?b = "if is_read i a then b else []"
  show ?case
  proof (cases "c_used (conns s1 ! i)")
    case False
    then have "?b = []" using gone_reads_nothing [OF p(1,3,4,2) 1(1)] by simp
    then show ?thesis using 1(1) False serving_prefix [OF p(2)] by simp
  next
    case True
    note sv = serving_step [OF p(1-4) a 1(1) True]
    then obtain s' E where "stream_run i as s1 = Some (s', E)" "prefix ((D @ ?b) @ E) S" "c_used (conns s' ! i) \<longrightarrow> serving c S ((D @ ?b) @ E) i s'"
      using Cons.IH [OF 1(2) _ p(3) True, of "D @ ?b"] p(5,6) by auto
    then show ?thesis using 1(1) True by simp
  qed
qed

text \<open>
  C34: a reliable stream. Take a connection in use past the opening handshake with nothing received yet, and a stream \<open>S\<close> of the peer
  shorter than the sequence space. Let the packets of that peer, in whatever order, lost, repeated, cut or overlapping, carry pieces of
  \<open>S\<close> at their sequence numbers, with the FIN at its end, and let everything else be free: packets of others, resets, user calls, ticks.
  Then the calls return, the bytes read from the connection until its slot is given up are a prefix of \<open>S\<close>, and at every moment what has
  been read together with what waits in the buffer is the part of \<open>S\<close> counted by the acknowledgement number, so nothing is
  acknowledged that the user cannot read; the end of the stream is reported only after all of \<open>S\<close>.
\<close>

theorem tcp_stream_correct:
  assumes "tcp_ok s" and "i < MAX_CONNECTIONS" and "c_used (conns s ! i)" and "c_state (conns s ! i) \<notin> {Listen, SynSent}"
    and "unread (conns s ! i) = []" and "\<not> ooo_used (ooo (conns s ! i))" and "\<not> fin_received (conns s ! i)"
    and "length S + 1 < 2 ^ 32" and "list_all call_ok calls" and "list_all (from_stream (local_ip s) (conns s ! i) S) calls"
  shows "\<exists>s' D. stream_run i calls s = Some (s', D) \<and> prefix D S \<and>
     (c_used (conns s' ! i) \<longrightarrow> (\<exists>n. stream_at S (rcv_nxt (conns s ! i)) D n (conns s' ! i)))"
proof -
  have "stream_at S (rcv_nxt (conns s ! i)) [] 0 (conns s ! i)" using assms(5,7) by (simp add: stream_at_def)
  then have "serving (conns s ! i) S [] i s" using assms(4,6,8) by (auto simp: serving_def stream_inv_def)
  then show ?thesis using stream_run_ok [OF assms(1) _ assms(2,3,9,10), of "[]"] by (auto simp: serving_def stream_inv_def)
qed

text \<open>An established connection to port 80.\<close>

definition established :: tcp where
  "established = set_conn 0 ((fresh_conn (10, 0, 0, 2) 80 1000)\<lparr>c_state := Established, rcv_nxt := 1\<rparr>) (booted (10, 0, 0, 1))"

lemma established_ok:
  "tcp_ok established" "conns established ! 0 = (fresh_conn (10, 0, 0, 2) 80 1000)\<lparr>c_state := Established, rcv_nxt := 1\<rparr>"
  "local_ip established = (10, 0, 0, 1)"
proof -
  have "conn_ok (current_tick (booted (10, 0, 0, 1))) ((fresh_conn (10, 0, 0, 2) 80 1000)\<lparr>c_state := Established, rcv_nxt := 1\<rparr>)"
    using fresh_conn_ok [of 80 "current_tick (booted (10, 0, 0, 1))" "(10, 0, 0, 2)" 1000]
    by (simp add: conn_oks)
  then show "tcp_ok established" unfolding established_def by (rule tcp_ok_set [OF booted_ok quiet_refl])
  show "conns established ! 0 = (fresh_conn (10, 0, 0, 2) 80 1000)\<lparr>c_state := Established, rcv_nxt := 1\<rparr>"
    "local_ip established = (10, 0, 0, 1)"
    by (simp_all add: established_def set_conn_def booted_def MAX_CONNECTIONS_def)
qed

text \<open>The second byte of a stream of two, with the FIN, arrives before the first.\<close>

definition packet_1 :: "u8 list" where
  "packet_1 = [3, 232, 0, 80, 0, 0, 0, 1, 0, 0, 0, 1, 80, 24, 16, 0, 63, 143, 0, 0, 72]"

definition packet_2 :: "u8 list" where
  "packet_2 = [3, 232, 0, 80, 0, 0, 0, 2, 0, 0, 0, 1, 80, 25, 16, 0, 30, 141, 0, 0, 105]"

lemma packets_decoded:
  "decode_segment (10, 0, 0, 1) (10, 0, 0, 2) packet_1 =
     Some \<lparr>seg_src = 1000, seg_dst = 80, seg_seq = 1, seg_ack = 1, seg_flags = 0x18, seg_window = 4096, seg_payload = [72]\<rparr>"
  "decode_segment (10, 0, 0, 1) (10, 0, 0, 2) packet_2 =
     Some \<lparr>seg_src = 1000, seg_dst = 80, seg_seq = 2, seg_ack = 1, seg_flags = 0x19, seg_window = 4096, seg_payload = [105]\<rparr>"
  by (simp_all add: decode_segment_def packet_1_def packet_2_def tcp_checksum_0_iff csum_total_def ip_sum_def rd16_def rd32_def)

lemma packets_from_stream:
  "from_stream (10, 0, 0, 1) ((fresh_conn (10, 0, 0, 2) 80 1000)\<lparr>c_state := Established, rcv_nxt := 1\<rparr>) [72, 105] (Arrive (10, 0, 0, 2) packet_1)"
  "from_stream (10, 0, 0, 1) ((fresh_conn (10, 0, 0, 2) 80 1000)\<lparr>c_state := Established, rcv_nxt := 1\<rparr>) [72, 105] (Arrive (10, 0, 0, 2) packet_2)"
proof -
  have "piece [72, 105] 1 1 [72]" "piece [72, 105] 1 2 [105]" by code_simp+
  then show "from_stream (10, 0, 0, 1) ((fresh_conn (10, 0, 0, 2) 80 1000)\<lparr>c_state := Established, rcv_nxt := 1\<rparr>) [72, 105] (Arrive (10, 0, 0, 2) packet_1)"
    "from_stream (10, 0, 0, 1) ((fresh_conn (10, 0, 0, 2) 80 1000)\<lparr>c_state := Established, rcv_nxt := 1\<rparr>) [72, 105] (Arrive (10, 0, 0, 2) packet_2)"
    by (simp_all add: packets_decoded seg_from_def has_def fresh_conn_def)
qed

theorem tcp_stream_correct_witness:
  "\<exists>s' D. stream_run 0 [Arrive (10, 0, 0, 2) packet_2, Tick, Arrive (10, 0, 0, 2) packet_1, Arrive (10, 0, 0, 2) packet_1, Read 0 False 100] established
       = Some (s', D) \<and> prefix D [72, 105] \<and>
     (c_used (conns s' ! 0) \<longrightarrow> (\<exists>n. stream_at [72, 105] (rcv_nxt (conns established ! 0)) D n (conns s' ! 0)))"
proof (rule tcp_stream_correct [OF established_ok(1)])
  show "list_all (from_stream (local_ip established) (conns established ! 0) [72, 105])
      [Arrive (10, 0, 0, 2) packet_2, Tick, Arrive (10, 0, 0, 2) packet_1, Arrive (10, 0, 0, 2) packet_1, Read 0 False 100]"
    unfolding established_ok(2,3) by (simp add: packets_from_stream del: from_stream.simps(1))
qed (simp_all add: established_ok(2) MAX_CONNECTIONS_def, simp_all add: fresh_conn_def cleared_def zero_ooo_def unread_def)

end
