(* ===== verification/Spinlock.thy ===== *)
theory Spinlock
  imports Prelude
begin

text \<open>
  The lock of \<^verbatim>\<open>kernel/spinlock.cpp\<close> on any number of CPUs. One step of the relation \<open>step\<close> is one instruction of
  \<open>lock\<close>, \<open>try_lock\<close> or \<open>unlock\<close> on one CPU; the steps of different CPUs interleave freely. The locals of a call are kept with
  its CPU, and \<open>called_with\<close> remembers the flags at the call, for stating what the lock promises.
\<close>

unbundle bit_operations_syntax

section \<open>State\<close>

text \<open>Where a CPU is: the instruction it executes next.\<close>

datatype label =
  Outside                 \<comment> \<open>not in a call, not holding the lock\<close>
| LockCli                 \<comment> \<open>\<open>lock\<close>: flags saved, before \<open>cli\<close>\<close>
| LockXchg                \<comment> \<open>\<open>lock\<close>: before \<open>xchgl\<close>\<close>
| LockStore               \<comment> \<open>lock taken, before the flags are stored in the lock\<close>
| TryCli                  \<comment> \<open>\<open>try_lock\<close>: flags saved, before \<open>cli\<close>\<close>
| TryXchg                 \<comment> \<open>\<open>try_lock\<close>: before \<open>xchgl\<close>\<close>
| TryFail                 \<comment> \<open>\<open>try_lock\<close>: lock not taken, before the flags are restored\<close>
| Critical                \<comment> \<open>holding the lock\<close>
| UnlockClear             \<comment> \<open>\<open>unlock\<close>: flags read from the lock, before it is cleared\<close>
| UnlockFlags             \<comment> \<open>\<open>unlock\<close>: lock cleared, before the flags are restored\<close>

record cpu =
  pc :: label
  flags :: u64            \<comment> \<open>the register RFLAGS\<close>
  rflags :: u64           \<comment> \<open>the local variable of the call\<close>
  called_with :: u64

record spinlock =
  m_lock_state :: int
  m_rflags_state :: u64
  cpu :: "nat \<Rightarrow> cpu"

definition IF :: "u64" where "IF = push_bit 9 1"

definition cli :: "u64 \<Rightarrow> u64" where "cli f = f AND NOT IF"
definition sti :: "u64 \<Rightarrow> u64" where "sti f = f OR IF"

text \<open>\<open>if (rflags & (1 << 9)) sti\<close>\<close>

definition restore :: "u64 \<Rightarrow> u64 \<Rightarrow> u64" where
  "restore saved f = (if saved AND IF \<noteq> 0 then sti f else f)"

definition set_cpu :: "nat \<Rightarrow> cpu \<Rightarrow> spinlock \<Rightarrow> spinlock" where
  "set_cpu i c s = s\<lparr>cpu := (cpu s)(i := c)\<rparr>"

text \<open>A lock that is free, on CPUs outside of all calls.\<close>

definition fresh_lock :: "(nat \<Rightarrow> u64) \<Rightarrow> spinlock" where
  "fresh_lock f = \<lparr>m_lock_state = 0, m_rflags_state = 0, cpu = (\<lambda>i. \<lparr>pc = Outside, flags = f i, rflags = 0, called_with = 0\<rparr>)\<rparr>"

section \<open>Steps\<close>

text \<open>
  One instruction of CPU \<open>i\<close>. Outside of the calls a CPU may change its flags at will; while it holds the lock it leaves the interrupt
  flag alone. Only the holder calls \<open>unlock\<close>.
\<close>

inductive step :: "nat \<Rightarrow> spinlock \<Rightarrow> spinlock \<Rightarrow> bool" for i :: nat where
  other: "pc (cpu s i) = Outside \<Longrightarrow> step i s (set_cpu i ((cpu s i)\<lparr>flags := f\<rparr>) s)"
| work: "\<lbrakk>pc (cpu s i) = Critical; f AND IF = flags (cpu s i) AND IF\<rbrakk> \<Longrightarrow> step i s (set_cpu i ((cpu s i)\<lparr>flags := f\<rparr>) s)"
| lock_save: "pc (cpu s i) = Outside \<Longrightarrow>
    step i s (set_cpu i ((cpu s i)\<lparr>pc := LockCli, rflags := flags (cpu s i), called_with := flags (cpu s i)\<rparr>) s)"
| lock_cli: "pc (cpu s i) = LockCli \<Longrightarrow> step i s (set_cpu i ((cpu s i)\<lparr>pc := LockXchg, flags := cli (flags (cpu s i))\<rparr>) s)"
| lock_spin: "\<lbrakk>pc (cpu s i) = LockXchg; m_lock_state s = 1\<rbrakk> \<Longrightarrow> step i s (s\<lparr>m_lock_state := 1\<rparr>)"
| lock_take: "\<lbrakk>pc (cpu s i) = LockXchg; m_lock_state s \<noteq> 1\<rbrakk>
    \<Longrightarrow> step i s (set_cpu i ((cpu s i)\<lparr>pc := LockStore\<rparr>) (s\<lparr>m_lock_state := 1\<rparr>))"
| lock_store: "pc (cpu s i) = LockStore \<Longrightarrow>
    step i s (set_cpu i ((cpu s i)\<lparr>pc := Critical\<rparr>) (s\<lparr>m_rflags_state := rflags (cpu s i)\<rparr>))"
| try_save: "pc (cpu s i) = Outside \<Longrightarrow>
    step i s (set_cpu i ((cpu s i)\<lparr>pc := TryCli, rflags := flags (cpu s i), called_with := flags (cpu s i)\<rparr>) s)"
| try_cli: "pc (cpu s i) = TryCli \<Longrightarrow> step i s (set_cpu i ((cpu s i)\<lparr>pc := TryXchg, flags := cli (flags (cpu s i))\<rparr>) s)"
| try_take: "\<lbrakk>pc (cpu s i) = TryXchg; m_lock_state s = 0\<rbrakk>
    \<Longrightarrow> step i s (set_cpu i ((cpu s i)\<lparr>pc := LockStore\<rparr>) (s\<lparr>m_lock_state := 1\<rparr>))"
| try_miss: "\<lbrakk>pc (cpu s i) = TryXchg; m_lock_state s \<noteq> 0\<rbrakk>
    \<Longrightarrow> step i s (set_cpu i ((cpu s i)\<lparr>pc := TryFail\<rparr>) (s\<lparr>m_lock_state := 1\<rparr>))"
| try_fail: "pc (cpu s i) = TryFail \<Longrightarrow>
    step i s (set_cpu i ((cpu s i)\<lparr>pc := Outside, flags := restore (rflags (cpu s i)) (flags (cpu s i))\<rparr>) s)"
| unlock_load: "pc (cpu s i) = Critical \<Longrightarrow>
    step i s (set_cpu i ((cpu s i)\<lparr>pc := UnlockClear, rflags := m_rflags_state s\<rparr>) s)"
| unlock_clear: "pc (cpu s i) = UnlockClear \<Longrightarrow>
    step i s (set_cpu i ((cpu s i)\<lparr>pc := UnlockFlags\<rparr>) (s\<lparr>m_lock_state := 0\<rparr>))"
| unlock_flags: "pc (cpu s i) = UnlockFlags \<Longrightarrow>
    step i s (set_cpu i ((cpu s i)\<lparr>pc := Outside, flags := restore (rflags (cpu s i)) (flags (cpu s i))\<rparr>) s)"

inductive lock_reachable :: "spinlock \<Rightarrow> bool" where
  init: "lock_reachable (fresh_lock f)"
| next_step: "\<lbrakk>lock_reachable s; step i s s'\<rbrakk> \<Longrightarrow> lock_reachable s'"

inductive_cases stepE: "step i s s'"

section \<open>Mutual exclusion\<close>

definition holding :: "cpu \<Rightarrow> bool" where
  "holding c \<longleftrightarrow> pc c \<in> {LockStore, Critical, UnlockClear}"

definition masked :: "cpu \<Rightarrow> bool" where
  "masked c \<longleftrightarrow> flags c AND IF = 0"

text \<open>What the variables of a CPU hold, by the place where it is.\<close>

definition cpu_ok :: "u64 \<Rightarrow> cpu \<Rightarrow> bool" where
  "cpu_ok stored c =
     (case pc c of
        Outside \<Rightarrow> True
      | LockCli \<Rightarrow> rflags c = called_with c
      | TryCli \<Rightarrow> rflags c = called_with c
      | Critical \<Rightarrow> stored = called_with c \<and> masked c
      | _ \<Rightarrow> rflags c = called_with c \<and> masked c)"

definition lock_inv :: "spinlock \<Rightarrow> bool" where
  "lock_inv s \<longleftrightarrow>
     m_lock_state s \<in> {0, 1} \<and> (m_lock_state s = 0 \<longrightarrow> (\<forall>i. \<not> holding (cpu s i))) \<and>
     (m_lock_state s = 1 \<longrightarrow> (\<exists>i. holding (cpu s i))) \<and>
     (\<forall>i j. holding (cpu s i) \<and> holding (cpu s j) \<longrightarrow> i = j) \<and> (\<forall>i. cpu_ok (m_rflags_state s) (cpu s i))"

lemma bit_IF: "bit IF n \<longleftrightarrow> n = 9"
  unfolding IF_def bit_push_bit_iff bit_1_iff by auto

lemma and_IF: "w AND IF = (if bit w 9 then IF else 0)"
  by (rule bit_word_eqI) (auto simp: bit_simps bit_IF)

lemma IF_not_0 [simp]: "IF \<noteq> 0"
  using bit_IF [of 9] by auto

lemma masked_cli [simp]: "cli f AND IF = 0"
  by (simp add: and_IF cli_def bit_simps bit_IF)

lemma restore_IF: "f AND IF = 0 \<Longrightarrow> restore saved f AND IF = saved AND IF"
  by (auto simp: restore_def sti_def and_IF bit_simps bit_IF split: if_splits)

lemma lock_inv_fresh: "lock_inv (fresh_lock f)"
  by (simp add: lock_inv_def fresh_lock_def holding_def cpu_ok_def)

text \<open>Steps of a CPU that neither take nor give back the lock.\<close>

lemma lock_inv_local:
  assumes "lock_inv s" "holding c \<longleftrightarrow> holding (cpu s i)" "cpu_ok (m_rflags_state s) c"
  shows "lock_inv (set_cpu i c s)"
  using assms unfolding lock_inv_def set_cpu_def by (auto split: if_splits)

lemma lock_inv_take:
  assumes "lock_inv s" "m_lock_state s = 0" "holding c" "cpu_ok (m_rflags_state s) c"
  shows "lock_inv (set_cpu i c (s\<lparr>m_lock_state := 1\<rparr>))"
  using assms unfolding lock_inv_def set_cpu_def by auto

lemma lock_inv_store:
  assumes "lock_inv s" "pc (cpu s i) = LockStore"
  shows "lock_inv (set_cpu i ((cpu s i)\<lparr>pc := Critical\<rparr>) (s\<lparr>m_rflags_state := rflags (cpu s i)\<rparr>))"
proof -
  have "holding (cpu s i)" "cpu_ok (m_rflags_state s) (cpu s i)" using assms by (simp_all add: lock_inv_def holding_def)
  then have i: "rflags (cpu s i) = called_with (cpu s i)" "masked (cpu s i)" using assms(2) by (simp_all add: cpu_ok_def)
  have "cpu_ok v (cpu s j)" if "j \<noteq> i" for v j
    using assms that by (auto simp: lock_inv_def holding_def cpu_ok_def split: label.splits)
  then show ?thesis using assms i unfolding lock_inv_def set_cpu_def
    by (auto simp: holding_def cpu_ok_def masked_def split: if_splits)
qed

lemma lock_inv_clear:
  assumes "lock_inv s" "pc (cpu s i) = UnlockClear"
  shows "lock_inv (set_cpu i ((cpu s i)\<lparr>pc := UnlockFlags\<rparr>) (s\<lparr>m_lock_state := 0\<rparr>))"
proof -
  have "holding (cpu s i)" "cpu_ok (m_rflags_state s) (cpu s i)" using assms by (simp_all add: lock_inv_def holding_def)
  then show ?thesis using assms unfolding lock_inv_def set_cpu_def
    by (auto simp: holding_def cpu_ok_def masked_def split: if_splits)
qed

lemma lock_inv_step:
  assumes s: "lock_inv s" and "step i s s'"
  shows "lock_inv s'"
proof -
  have ok: "cpu_ok (m_rflags_state s) (cpu s i)" "m_lock_state s \<in> {0, 1}" using s by (simp_all add: lock_inv_def)
  note local = lock_inv_local [OF s] cpu_ok_def holding_def masked_def
  from assms(2) show ?thesis
  proof (cases rule: step.cases)
    case lock_spin
    then have "s' = s" by simp
    then show ?thesis using s by simp
  next
    case lock_take
    then show ?thesis using ok by (auto intro!: lock_inv_take [OF s] simp: cpu_ok_def holding_def masked_def)
  next
    case try_take
    then show ?thesis using ok by (auto intro!: lock_inv_take [OF s] simp: cpu_ok_def holding_def masked_def)
  next
    case lock_store
    then show ?thesis using lock_inv_store [OF s] by simp
  next
    case unlock_clear
    then show ?thesis using lock_inv_clear [OF s] by simp
  next
    case try_miss
    then have "s\<lparr>m_lock_state := 1\<rparr> = s" using ok(2) by simp
    then show ?thesis using try_miss ok by (simp add: local)
  qed (use ok in \<open>simp_all add: local\<close>)
qed

lemma lock_inv_reachable: "lock_reachable s \<Longrightarrow> lock_inv s"
  by (induction rule: lock_reachable.induct) (auto intro: lock_inv_fresh lock_inv_step)

text \<open>A call that ends leaves the interrupt flag as it was when it, or the call that took the lock, began.\<close>

lemma call_end:
  assumes s: "lock_inv s" and st: "step i s s'" and pc: "pc (cpu s i) \<noteq> Outside" "pc (cpu s' i) = Outside"
  shows "flags (cpu s' i) AND IF = called_with (cpu s i) AND IF"
proof -
  have ok: "cpu_ok (m_rflags_state s) (cpu s i)" using s by (simp add: lock_inv_def)
  from st show ?thesis
    by (cases rule: stepE) (use ok pc in \<open>auto simp: set_cpu_def cpu_ok_def masked_def restore_IF\<close>)
qed

text \<open>
  C36. Mutual exclusion: in every state that any number of CPUs can reach by interleaving the instructions of \<open>lock\<close>, \<open>try_lock\<close> and
  \<open>unlock\<close>, at most one CPU holds the lock, from the exchange that takes it to the store that gives it back, and the lock word is 1
  exactly while one does; the holder runs with interrupts off; and when a call ends with the lock not held, by \<open>unlock\<close> or by a failed
  \<open>try_lock\<close>, the interrupt flag of the CPU is what it was when the lock was asked for, although the saved flags are kept in the
  shared lock.
\<close>

theorem spinlock_mutual_exclusion:
  assumes "lock_reachable s"
  shows "(\<forall>i j. holding (cpu s i) \<and> holding (cpu s j) \<longrightarrow> i = j) \<and>
     (m_lock_state s = 1 \<longleftrightarrow> (\<exists>i. holding (cpu s i))) \<and> (\<forall>i. holding (cpu s i) \<longrightarrow> masked (cpu s i)) \<and>
     (\<forall>i s'. step i s s' \<and> pc (cpu s i) \<noteq> Outside \<and> pc (cpu s' i) = Outside \<longrightarrow>
        flags (cpu s' i) AND IF = called_with (cpu s i) AND IF)"
proof -
  have inv: "lock_inv s" using lock_inv_reachable [OF assms] .
  have "cpu_ok (m_rflags_state s) (cpu s i)" for i using inv by (simp add: lock_inv_def)
  then have "masked (cpu s i)" if "holding (cpu s i)" for i using that unfolding holding_def cpu_ok_def by (force split: label.splits)
  then show ?thesis using inv call_end [OF inv] unfolding lock_inv_def by auto
qed

text \<open>CPU 1 takes the lock, with interrupts on before, and CPU 0 starts to wait for it.\<close>

definition contended :: spinlock where
  "contended = \<lparr>m_lock_state = 1, m_rflags_state = 0,
     cpu = (\<lambda>i. \<lparr>pc = Outside, flags = IF, rflags = 0, called_with = 0\<rparr>)
       (1 := \<lparr>pc = LockStore, flags = cli IF, rflags = IF, called_with = IF\<rparr>, 0 := \<lparr>pc = LockCli, flags = IF, rflags = IF, called_with = IF\<rparr>)\<rparr>"

lemma contended_reachable: "lock_reachable contended"
proof -
  let ?s0 = "fresh_lock (\<lambda>_. IF)"
  let ?s1 = "set_cpu 1 ((cpu ?s0 1)\<lparr>pc := LockCli, rflags := flags (cpu ?s0 1), called_with := flags (cpu ?s0 1)\<rparr>) ?s0"
  let ?s2 = "set_cpu 1 ((cpu ?s1 1)\<lparr>pc := LockXchg, flags := cli (flags (cpu ?s1 1))\<rparr>) ?s1"
  let ?s3 = "set_cpu 1 ((cpu ?s2 1)\<lparr>pc := LockStore\<rparr>) (?s2\<lparr>m_lock_state := 1\<rparr>)"
  let ?s4 = "set_cpu 0 ((cpu ?s3 0)\<lparr>pc := LockCli, rflags := flags (cpu ?s3 0), called_with := flags (cpu ?s3 0)\<rparr>) ?s3"
  have "lock_reachable ?s1" by (rule next_step [OF init step.lock_save]) (simp add: fresh_lock_def)
  then have "lock_reachable ?s2" by (rule next_step [OF _ step.lock_cli]) (simp add: set_cpu_def)
  then have "lock_reachable ?s3" by (rule next_step [OF _ step.lock_take]) (simp_all add: set_cpu_def fresh_lock_def)
  then have "lock_reachable ?s4" by (rule next_step [OF _ step.lock_save]) (simp add: set_cpu_def fresh_lock_def)
  moreover have "?s4 = contended" by (simp add: contended_def set_cpu_def fresh_lock_def)
  ultimately show ?thesis by simp
qed

theorem spinlock_mutual_exclusion_witness:
  "lock_reachable contended \<and> holding (cpu contended 1) \<and> \<not> holding (cpu contended 0) \<and> masked (cpu contended 1) \<and> m_lock_state contended = 1"
proof -
  have h: "holding (cpu contended 1)" by (simp add: contended_def holding_def)
  note e = spinlock_mutual_exclusion [OF contended_reachable]
  have "\<not> holding (cpu contended 0)" using e h zero_neq_one by metis
  moreover have "masked (cpu contended 1)" "m_lock_state contended = 1" using e h by blast+
  ultimately show ?thesis using h contended_reachable by blast
qed

end
