(* ===== verification/Paging.thy ===== *)
theory Paging
  imports Heap_Laws
begin

text \<open>
  The page tables of \<^verbatim>\<open>arch/86_64x/paging.cpp\<close>, with \<open>dma::alloc\<close> of \<^verbatim>\<open>drivers/dma.cpp\<close>, over the kernel heap of theory
  \<open>Allocator\<close>. Memory is a function from physical addresses to bytes; the kernel sees it at the same addresses. An array of
  64-bit table entries is read and written in little-endian order. The headers of heap blocks are kept by the heap, outside of
  this memory. The translation buffer (\<open>invlpg\<close>) is not represented. \<^const>\<open>None\<close> is a run that does not return.
\<close>

unbundle bit_operations_syntax

section \<open>Memory\<close>

type_synonym memory = "u64 \<Rightarrow> u8"

primrec rd_bytes :: "nat \<Rightarrow> memory \<Rightarrow> u64 \<Rightarrow> u64" where
  "rd_bytes 0 m a = 0"
| "rd_bytes (Suc n) m a = ucast (m a) OR push_bit 8 (rd_bytes n m (a + 1))"

definition rd64 :: "memory \<Rightarrow> u64 \<Rightarrow> u64" where
  "rd64 m a = rd_bytes 8 m a"

definition wr64 :: "u64 \<Rightarrow> u64 \<Rightarrow> memory \<Rightarrow> memory" where
  "wr64 a v m = (\<lambda>x. if x - a < 8 then ucast (drop_bit (8 * unat (x - a)) v) else m x)"

text \<open>\<open>memset\<close>, and \<open>memcpy\<close> from given bytes.\<close>

definition mset_mem :: "u64 \<Rightarrow> u8 \<Rightarrow> u64 \<Rightarrow> memory \<Rightarrow> memory" where
  "mset_mem p b n m = (\<lambda>x. if x - p < n then b else m x)"

definition put_mem :: "u64 \<Rightarrow> u8 list \<Rightarrow> memory \<Rightarrow> memory" where
  "put_mem p bs m = (\<lambda>x. if unat (x - p) < length bs then bs ! unat (x - p) else m x)"

text \<open>Entry \<open>i\<close> of the table at \<open>t\<close>.\<close>

definition ent :: "memory \<Rightarrow> u64 \<Rightarrow> u64 \<Rightarrow> u64" where
  "ent m t i = rd64 m (t + 8 * i)"

definition set_ent :: "u64 \<Rightarrow> u64 \<Rightarrow> u64 \<Rightarrow> memory \<Rightarrow> memory" where
  "set_ent t i e m = wr64 (t + 8 * i) e m"

section \<open>State and constants\<close>

record mm =
  mem :: memory
  mheap :: heap
  cr3 :: u64

definition PTE_PRESENT :: u64 where "PTE_PRESENT = push_bit 0 1"
definition PTE_WRITABLE :: u64 where "PTE_WRITABLE = push_bit 1 1"
definition PTE_USER :: u64 where "PTE_USER = push_bit 2 1"
definition PTE_PWT :: u64 where "PTE_PWT = push_bit 3 1"
definition PTE_PCD :: u64 where "PTE_PCD = push_bit 4 1"
definition PTE_PS :: u64 where "PTE_PS = push_bit 7 1"
definition PTE_NX :: u64 where "PTE_NX = push_bit 63 1"
definition ADDR_MASK :: u64 where "ADDR_MASK = 0x000ffffffffff000"
definition BASE_2M :: u64 where "BASE_2M = 0x000fffffffe00000"
definition PAGE_MASK :: u64 where "PAGE_MASK = NOT 0xFFF"

definition LEAF_FLAGS :: u64 where
  "LEAF_FLAGS = PTE_WRITABLE OR PTE_USER OR PTE_PWT OR PTE_PCD OR PTE_NX"

definition present :: "u64 \<Rightarrow> bool" where "present e \<longleftrightarrow> e AND PTE_PRESENT \<noteq> 0"
definition user :: "u64 \<Rightarrow> bool" where "user e \<longleftrightarrow> e AND PTE_USER \<noteq> 0"
definition writable :: "u64 \<Rightarrow> bool" where "writable e \<longleftrightarrow> e AND PTE_WRITABLE \<noteq> 0"
definition huge :: "u64 \<Rightarrow> bool" where "huge e \<longleftrightarrow> e AND PTE_PS \<noteq> 0"

definition idx :: "u64 \<Rightarrow> nat \<Rightarrow> u64" where
  "idx v level = drop_bit (12 + (level - 1) * 9) v AND 0x1ff"

section \<open>Pages\<close>

definition dma_alloc :: "u64 \<Rightarrow> u64 \<Rightarrow> heap \<Rightarrow> (heap \<times> u64) option" where
  "dma_alloc sz align h = alloc ((sz + (align - 1)) AND NOT (align - 1)) align h"

definition alloc_page :: "mm \<Rightarrow> (mm \<times> u64) option" where
  "alloc_page s = do {
     (h, p) \<leftarrow> dma_alloc 4096 4096 (mheap s);
     let s = s\<lparr>mheap := h\<rparr>;
     Some (if p \<noteq> 0 then s\<lparr>mem := mset_mem p 0 4096 (mem s)\<rparr> else s, p)
   }"

definition create_pml4 :: "mm \<Rightarrow> (mm \<times> u64) option" where
  "create_pml4 s = alloc_page s"

definition read_cr3 :: "mm \<Rightarrow> u64" where "read_cr3 s = cr3 s AND ADDR_MASK"
definition switch_pml4 :: "u64 \<Rightarrow> mm \<Rightarrow> mm" where "switch_pml4 p s = s\<lparr>cr3 := p AND ADDR_MASK\<rparr>"

section \<open>Mapping pages\<close>

text \<open>Writing the 512 entries of a split 2 MB page.\<close>

definition split_entry :: "u64 \<Rightarrow> u64 \<Rightarrow> u64" where
  "split_entry e j =
     ((e AND BASE_2M) + push_bit 12 j) OR (e AND (PTE_WRITABLE OR PTE_USER OR PTE_PWT OR PTE_PCD OR PTE_NX)) OR PTE_PRESENT"

fun split_loop :: "u64 \<Rightarrow> u64 \<Rightarrow> nat list \<Rightarrow> memory \<Rightarrow> memory" where
  "split_loop pt e [] m = m"
| "split_loop pt e (j # js) m = split_loop pt e js (set_ent pt (of_nat j) (split_entry e (of_nat j)) m)"

text \<open>The first part of \<open>table\<close>: the entry after a 2 MB page was split, \<^const>\<open>None\<close> inside when memory ran out.\<close>

definition split_huge :: "u64 \<Rightarrow> u64 \<Rightarrow> mm \<Rightarrow> (mm \<times> u64 option) option" where
  "split_huge t i s =
     (let e = ent (mem s) t i
      in if present e \<and> huge e then do {
           (s, np) \<leftarrow> alloc_page s;
           if np = 0 then Some (s, None)
           else
             let e' = (np AND ADDR_MASK) OR PTE_PRESENT OR PTE_WRITABLE OR (e AND PTE_USER);
                 m = set_ent t i e' (split_loop np e [0..<512] (mem s))
             in Some (s\<lparr>mem := m\<rparr>, Some e')
         }
         else Some (s, Some e))"

definition table :: "u64 \<Rightarrow> u64 \<Rightarrow> u64 \<Rightarrow> mm \<Rightarrow> (mm \<times> u64 option) option" where
  "table t i flags s = do {
     (s, r) \<leftarrow> split_huge t i s;
     case r of
       None \<Rightarrow> Some (s, None)
     | Some e \<Rightarrow>
         if \<not> present e then do {
           (s, p) \<leftarrow> alloc_page s;
           if p = 0 then Some (s, None)
           else Some (s\<lparr>mem := set_ent t i ((p AND ADDR_MASK) OR (PTE_PRESENT OR PTE_WRITABLE OR (flags AND PTE_USER))) (mem s)\<rparr>, Some p)
         }
         else
           let m = mem s;
               m = (if user flags then set_ent t i (ent m t i OR PTE_USER) m else m);
               m = (if writable flags then set_ent t i (ent m t i OR PTE_WRITABLE) m else m)
           in Some (s\<lparr>mem := m\<rparr>, Some (e AND ADDR_MASK))
   }"

definition map_4k :: "u64 \<Rightarrow> u64 \<Rightarrow> u64 \<Rightarrow> u64 \<Rightarrow> mm \<Rightarrow> (mm \<times> bool) option" where
  "map_4k pml4 vaddr paddr flags s =
     (if pml4 = 0 \<or> vaddr AND 0xfff \<noteq> 0 \<or> paddr AND 0xfff \<noteq> 0 then Some (s, False)
      else do {
        (s, a) \<leftarrow> table pml4 (idx vaddr 4) flags s;
        case a of None \<Rightarrow> Some (s, False) | Some a \<Rightarrow> do {
          (s, b) \<leftarrow> table a (idx vaddr 3) flags s;
          case b of None \<Rightarrow> Some (s, False) | Some b \<Rightarrow> do {
            (s, c) \<leftarrow> table b (idx vaddr 2) flags s;
            case c of None \<Rightarrow> Some (s, False) | Some c \<Rightarrow>
              Some (s\<lparr>mem := set_ent c (idx vaddr 1) ((paddr AND ADDR_MASK) OR (flags AND LEAF_FLAGS) OR PTE_PRESENT) (mem s)\<rparr>, True)
          }
        }
      })"

definition unmap_4k :: "u64 \<Rightarrow> u64 \<Rightarrow> mm \<Rightarrow> mm \<times> bool" where
  "unmap_4k pml4 vaddr s =
     (if pml4 = 0 \<or> vaddr AND 0xfff \<noteq> 0 then (s, False)
      else
        let e = ent (mem s) pml4 (idx vaddr 4)
        in if \<not> present e then (s, False)
           else
             let e = ent (mem s) (e AND ADDR_MASK) (idx vaddr 3)
             in if \<not> present e then (s, False)
                else
                  let e = ent (mem s) (e AND ADDR_MASK) (idx vaddr 2)
                  in if \<not> present e then (s, False)
                     else (s\<lparr>mem := set_ent (e AND ADDR_MASK) (idx vaddr 1) 0 (mem s)\<rparr>, True))"

partial_function (option) map_range_loop :: "u64 \<Rightarrow> u64 \<Rightarrow> u64 \<Rightarrow> u64 \<Rightarrow> mm \<Rightarrow> (mm \<times> bool) option" where
  "map_range_loop pml4 a end_addr flags s =
     (if \<not> a < end_addr then Some (s, True)
      else Option.bind (alloc_page s) (\<lambda>(s, p).
        if p = 0 then Some (s, False)
        else Option.bind (map_4k pml4 a p (flags OR PTE_USER) s) (\<lambda>(s, ok).
          if \<not> ok then Some (s, False) else map_range_loop pml4 (a + 0x1000) end_addr flags s)))"

definition map_user_range :: "u64 \<Rightarrow> u64 \<Rightarrow> u64 \<Rightarrow> u64 \<Rightarrow> mm \<Rightarrow> (mm \<times> bool) option" where
  "map_user_range pml4 base len flags s =
     (if len = 0 \<or> base + len < base then Some (s, False)
      else
        let a = base AND PAGE_MASK; end_addr = (base + len + 0xfff) AND PAGE_MASK
        in if end_addr < a then Some (s, False) else map_range_loop pml4 a end_addr flags s)"

section \<open>Checking and protecting user pages\<close>

text \<open>The chain of reads that \<open>walk_leaf\<close> and \<open>user_page\<close> share: the table of the last level.\<close>

definition user_table :: "memory \<Rightarrow> u64 \<Rightarrow> u64 \<Rightarrow> u64 option" where
  "user_table m root v =
     (let e = ent m root (idx v 4)
      in if \<not> present e \<or> \<not> user e then None
         else
           let e = ent m (e AND ADDR_MASK) (idx v 3)
           in if \<not> present e \<or> \<not> user e then None
              else
                let e = ent m (e AND ADDR_MASK) (idx v 2)
                in if \<not> present e \<or> \<not> user e then None else Some (e AND ADDR_MASK))"

text \<open>The table and the index of the entry found.\<close>

definition walk_leaf :: "u64 \<Rightarrow> u64 \<Rightarrow> mm \<Rightarrow> (u64 \<times> u64) option" where
  "walk_leaf pml4 vaddr s =
     (if pml4 = 0 \<or> vaddr AND NOT 0x00007fffffffffff \<noteq> 0 then None
      else case user_table (mem s) (pml4 AND ADDR_MASK) vaddr of
        None \<Rightarrow> None
      | Some pt \<Rightarrow>
          let e = ent (mem s) pt (idx vaddr 1)
          in if \<not> present e \<or> \<not> user e then None else Some (pt, idx vaddr 1))"

partial_function (option) check_loop :: "u64 \<Rightarrow> u64 \<Rightarrow> u64 \<Rightarrow> mm \<Rightarrow> bool option" where
  "check_loop pml4 page last_page s =
     (if walk_leaf pml4 page s = None then Some False
      else if page = last_page then Some True
      else if last_page - 0x1000 < page then Some False
      else check_loop pml4 (page + 0x1000) last_page s)"

definition protect_entry :: "u64 \<Rightarrow> u64 \<Rightarrow> u64" where
  "protect_entry flags old = ((old AND ADDR_MASK) OR PTE_PRESENT OR (flags AND LEAF_FLAGS)) OR PTE_USER"

partial_function (option) protect_loop :: "u64 \<Rightarrow> u64 \<Rightarrow> u64 \<Rightarrow> u64 \<Rightarrow> mm \<Rightarrow> (mm \<times> bool) option" where
  "protect_loop pml4 page last_page flags s =
     (case walk_leaf pml4 page s of
        None \<Rightarrow> Some (s, False)
      | Some (pt, i) \<Rightarrow>
          let s = s\<lparr>mem := set_ent pt i (protect_entry flags (ent (mem s) pt i)) (mem s)\<rparr>
          in if page = last_page then Some (s, True)
             else if last_page - 0x1000 < page then Some (s, False)
             else protect_loop pml4 (page + 0x1000) last_page flags s)"

definition protect_user_range :: "u64 \<Rightarrow> u64 \<Rightarrow> u64 \<Rightarrow> u64 \<Rightarrow> mm \<Rightarrow> (mm \<times> bool) option" where
  "protect_user_range pml4 base len flags s =
     (if pml4 = 0 \<or> len = 0 \<or> 0x00007fffffffffff < base \<or> base + len < base \<or> 0x0000800000000000 < base + len then Some (s, False)
      else
        let first_page = base AND PAGE_MASK; last_page = (base + len - 1) AND PAGE_MASK
        in do {
          ok \<leftarrow> check_loop pml4 first_page last_page s;
          if \<not> ok then Some (s, False) else protect_loop pml4 first_page last_page flags s
        })"

definition user_page :: "u64 \<Rightarrow> bool \<Rightarrow> mm \<Rightarrow> bool" where
  "user_page v write s \<longleftrightarrow>
     read_cr3 s \<noteq> 0 \<and>
     (case user_table (mem s) (read_cr3 s) v of
        None \<Rightarrow> False
      | Some pt \<Rightarrow> let e = ent (mem s) pt (idx v 1) in present e \<and> user e \<and> (write \<longrightarrow> writable e))"

partial_function (option) range_loop :: "u64 \<Rightarrow> u64 \<Rightarrow> bool \<Rightarrow> mm \<Rightarrow> bool option" where
  "range_loop p last_page write s =
     (if \<not> p \<le> last_page then Some True
      else if \<not> user_page p write s then Some False
      else range_loop (p + 0x1000) last_page write s)"

definition is_user_range :: "u64 \<Rightarrow> u64 \<Rightarrow> bool \<Rightarrow> mm \<Rightarrow> bool option" where
  "is_user_range addr len write s =
     (if len = 0 \<or> addr + len < addr then Some False
      else
        let end_addr = addr + len - 1
        in if 0x00007fffffffffff < end_addr then Some False
           else range_loop (addr AND PAGE_MASK) (end_addr AND PAGE_MASK) write s)"

definition init_paging :: "mm \<Rightarrow> bool" where
  "init_paging s \<longleftrightarrow> read_cr3 s \<noteq> 0"

end
