(* ===== verification/Paging_Memory.thy ===== *)
theory Paging_Memory
  imports Paging
begin

text \<open>
  Reading back what was written to the memory of theory \<open>Paging\<close>: bytes, table entries and whole pages.
\<close>

unbundle bit_operations_syntax

named_theorems entry_simps \<open>fields of table entries\<close>

section \<open>Words\<close>

lemma bit_rd_bytes: "bit (rd_bytes n m a) k \<longleftrightarrow> k < 64 \<and> k < 8 * n \<and> bit (m (a + of_nat (k div 8))) (k mod 8)"
proof (induction n arbitrary: a k)
  case (Suc n)
  show ?case
  proof (cases "k < 8")
    case True
    then show ?thesis by (auto simp: bit_simps)
  next
    case False
    then obtain j where k: "k = j + 8" by (metis add.commute le_add_diff_inverse not_less)
    have "\<not> bit (m a) k" using False by (auto dest: bit_imp_le_length)
    moreover have "(j + 8) div 8 = Suc (j div 8)" by simp
    ultimately show ?thesis using Suc [of "a + 1" j] by (auto simp: k bit_simps add.assoc)
  qed
qed simp

lemma rd_bytes_cong: "(\<And>i. i < n \<Longrightarrow> m' (a + of_nat i) = m (a + of_nat i)) \<Longrightarrow> rd_bytes n m' a = rd_bytes n m a"
  by (rule bit_word_eqI) (auto simp: bit_rd_bytes)

lemma rd64_wr64: "rd64 (wr64 a v m) a = v"
proof (rule bit_word_eqI)
  fix k
  assume k: "k < LENGTH(64)"
  then have "k div 8 < 8" by simp
  then have "unat (of_nat (k div 8) :: u64) = k div 8" "of_nat (k div 8) < (8 :: u64)"
    by (simp_all add: unat_of_nat_64 word_less_nat_alt)
  moreover have "8 * (k div 8) + k mod 8 = k" by simp
  ultimately show "bit (rd64 (wr64 a v m) a) k \<longleftrightarrow> bit v k" using k by (simp add: rd64_def bit_rd_bytes wr64_def bit_simps)
qed

section \<open>Pages\<close>

definition pg :: "u64 \<Rightarrow> u64" where
  "pg x = x AND PAGE_MASK"

text \<open>The address of a page that fits into a table entry.\<close>

definition page_ok :: "u64 \<Rightarrow> bool" where
  "page_ok p \<longleftrightarrow> p \<noteq> 0 \<and> p AND ADDR_MASK = p"

definition page_eq :: "memory \<Rightarrow> memory \<Rightarrow> u64 \<Rightarrow> bool" where
  "page_eq m m' p \<longleftrightarrow> (\<forall>x. pg x = p \<longrightarrow> m' x = m x)"

lemma ADDR_MASK_bits: "bit ADDR_MASK n \<longleftrightarrow> 12 \<le> n \<and> n < 52"
proof -
  have e: "ADDR_MASK = push_bit 12 (mask 40)" by (simp add: ADDR_MASK_def mask_eq_exp_minus_1)
  show ?thesis unfolding e by (auto simp: bit_push_bit_iff bit_mask_iff)
qed

lemma low_mask: "(0xFFF :: u64) = mask 12"
  by (simp add: mask_eq_exp_minus_1)

lemma PAGE_MASK_bits: "bit PAGE_MASK n \<longleftrightarrow> 12 \<le> n \<and> n < 64"
  unfolding PAGE_MASK_def low_mask by (auto simp: bit_simps)

lemma page_ok_low: "page_ok p \<Longrightarrow> bit p n \<Longrightarrow> 12 \<le> n \<and> n < 52"
  by (metis ADDR_MASK_bits bit_and_iff page_ok_def)

lemma bits_below:
  assumes "unat (x :: u64) < 2 ^ k" "bit x n"
  shows "n < k"
proof -
  have "take_bit k (unat x) = unat x" using assms(1) by (simp add: take_bit_nat_eq_self)
  then have "bit (take_bit k (unat x)) n" using assms(2) by (simp add: bit_unsigned_iff)
  then show ?thesis by (simp add: bit_take_bit_iff)
qed

lemma small_bits: "unat (x :: u64) < 4096 \<Longrightarrow> bit x n \<Longrightarrow> n < 12"
  using bits_below [of x 12 n] by simp

lemma pg_offset:
  assumes "page_ok p" "unat x < 4096"
  shows "pg (p + x) = p" and "p + x = p OR x"
proof -
  have "p + x = p OR x"
    by (rule disjunctive_add) (use page_ok_low [OF assms(1)] small_bits [OF assms(2)] in fastforce)
  then show o: "p + x = p OR x" .
  show "pg (p + x) = p" unfolding o pg_def
  proof (rule bit_word_eqI)
    fix n
    assume "n < LENGTH(64)"
    then show "bit ((p OR x) AND PAGE_MASK) n \<longleftrightarrow> bit p n"
      using page_ok_low [OF assms(1), of n] small_bits [OF assms(2), of n] by (auto simp: bit_simps PAGE_MASK_bits)
  qed
qed

lemma ent_address:
  fixes i j :: u64
  assumes "i < 512" "j < 8"
  shows "unat (8 * i + j) = 8 * unat i + unat j" and "8 * unat i + unat j < 4096"
proof -
  have le: "unat i < 512" "unat j < 8" using assms by (simp_all add: word_less_nat_alt)
  then show "8 * unat i + unat j < 4096" by linarith
  then show "unat (8 * i + j) = 8 * unat i + unat j" using le by (simp add: unat_word_ariths)
qed

lemma pg_ent:
  assumes "page_ok t" "i < 512" "j < 8"
  shows "pg (t + 8 * i + j) = t"
  using pg_offset(1) [OF assms(1), of "8 * i + j"] ent_address [OF assms(2,3)] by (simp add: add.assoc)

lemma ent_page_eq:
  assumes "page_eq m m' t" "page_ok t" "i < 512"
  shows "ent m' t i = ent m t i"
  unfolding ent_def rd64_def
proof (rule rd_bytes_cong)
  fix k :: nat
  assume "k < 8"
  then have "(of_nat k :: u64) < 8" by (simp add: word_less_nat_alt unat_of_nat_64)
  then have "pg (t + 8 * i + of_nat k) = t" using pg_ent [OF assms(2,3)] by simp
  then show "m' (t + 8 * i + of_nat k) = m (t + 8 * i + of_nat k)" using assms(1) by (simp add: page_eq_def)
qed

lemma page_eq_refl [simp, intro]: "page_eq m m p"
  by (simp add: page_eq_def)

lemma page_eq_trans: "page_eq m m' p \<Longrightarrow> page_eq m' m'' p \<Longrightarrow> page_eq m m'' p"
  by (simp add: page_eq_def)

lemma set_ent_other_page:
  assumes "page_ok t" "i < 512" "p \<noteq> t"
  shows "page_eq m (set_ent t i e m) p"
proof -
  have "pg x = t" if "x - (t + 8 * i) < 8" for x
    using pg_ent [OF assms(1,2) that] by simp
  then show ?thesis using assms(3) by (auto simp: page_eq_def set_ent_def wr64_def)
qed

lemma ent_set_ent:
  assumes "page_ok t" "i < 512" "j < 512"
  shows "ent (set_ent t i e m) t j = (if i = j then e else ent m t j)"
proof (cases "i = j")
  case True
  then show ?thesis by (simp add: ent_def set_ent_def rd64_wr64)
next
  case False
  have "\<not> (t + 8 * j + of_nat k) - (t + 8 * i) < 8" if k: "k < 8" for k
  proof
    let ?d = "(t + 8 * j + of_nat k) - (t + 8 * i)"
    assume d: "?d < 8"
    have k8: "(of_nat k :: u64) < 8" "unat (of_nat k :: u64) = k" using k by (simp_all add: word_less_nat_alt unat_of_nat_64)
    have "8 * j + of_nat k = 8 * i + ?d" by simp
    then have "8 * unat j + k = 8 * unat i + unat ?d" using ent_address(1) [OF assms(3) k8(1)] ent_address(1) [OF assms(2) d] k8(2) by simp
    moreover have "unat ?d < 8" using d by (simp add: word_less_nat_alt)
    ultimately have "unat j = unat i" using k by linarith
    then show False using False by (simp add: word_unat_eq_iff)
  qed
  then have "rd_bytes 8 (set_ent t i e m) (t + 8 * j) = rd_bytes 8 m (t + 8 * j)"
    by (intro rd_bytes_cong) (simp add: set_ent_def wr64_def)
  then show ?thesis using False by (simp add: ent_def rd64_def)
qed

lemma idx_less [simp]: "idx v l < 512"
proof -
  have "(0x1ff :: u64) = mask 9" by (simp add: mask_eq_exp_minus_1)
  then have "idx v l = take_bit 9 (drop_bit (12 + (l - 1) * 9) v)" by (simp add: idx_def take_bit_eq_mask)
  then have "unat (idx v l) < 2 ^ 9" using take_bit_nat_less_exp [of 9] by (simp only: unsigned_take_bit_eq)
  then show ?thesis by (simp add: word_less_nat_alt)
qed

lemma in_page:
  assumes "page_ok p"
  shows "x - p < 4096 \<longleftrightarrow> pg x = p"
proof
  assume "x - p < 4096"
  then show "pg x = p" using pg_offset(1) [OF assms, of "x - p"] by (simp add: word_less_nat_alt)
next
  assume "pg x = p"
  moreover have "x = (x AND PAGE_MASK) OR (x AND 0xFFF)" unfolding low_mask by (rule bit_word_eqI) (auto simp: bit_simps PAGE_MASK_bits)
  moreover have "(x AND PAGE_MASK) + (x AND 0xFFF) = (x AND PAGE_MASK) OR (x AND 0xFFF)"
    unfolding low_mask by (rule disjunctive_add) (auto simp: bit_simps PAGE_MASK_bits)
  ultimately have "x = p + (x AND 0xFFF)" by (simp add: pg_def)
  then have "x - p = x AND 0xFFF" by (metis add_diff_cancel_left')
  moreover have "unat (x AND 0xFFF) < 4096" using take_bit_nat_less_exp [of 12 "unat x"] by (simp add: low_mask unsigned_take_bit_eq flip: take_bit_eq_mask)
  ultimately show "x - p < 4096" by (simp add: word_less_nat_alt)
qed

text \<open>A page filled with zeros.\<close>

lemma mset_mem_page:
  assumes "page_ok p"
  shows "pg x = p \<Longrightarrow> mset_mem p b 4096 m x = b" and "q \<noteq> p \<Longrightarrow> page_eq m (mset_mem p b 4096 m) q"
  using in_page [OF assms] by (auto simp: mset_mem_def page_eq_def)

lemma ent_zero_page:
  assumes "\<And>x. pg x = t \<Longrightarrow> m x = 0" "page_ok t" "i < 512"
  shows "ent m t i = 0"
proof -
  have "rd_bytes 8 m (t + 8 * i) = rd_bytes 8 (\<lambda>_. 0) (t + 8 * i)"
  proof (rule rd_bytes_cong)
    fix k :: nat
    assume "k < 8"
    then have "(of_nat k :: u64) < 8" by (simp add: word_less_nat_alt unat_of_nat_64)
    then show "m (t + 8 * i + of_nat k) = 0" using pg_ent [OF assms(2,3)] assms(1) by simp
  qed
  also have "\<dots> = 0" by (rule bit_word_eqI) (simp add: bit_rd_bytes)
  finally show ?thesis by (simp add: ent_def rd64_def)
qed

end
