(* ===== verification/Paging_Walk.thy ===== *)
theory Paging_Walk
  imports Paging_Memory
begin

text \<open>
  What page tables mean: the page and the flags a virtual address is translated to by four levels of tables with 4 KB and 2 MB
  pages, which pages hold the tables, and the well-formedness of an address space: its tables form a tree, 2 MB pages
  occur on the second level only and are not for users, and a page for users is below entries for users.
\<close>

unbundle bit_operations_syntax

section \<open>Entries\<close>

abbreviation addr :: "u64 \<Rightarrow> u64" where "addr e \<equiv> e AND ADDR_MASK"

lemma flag_bits:
  "bit PTE_PRESENT n \<longleftrightarrow> n = 0" "bit PTE_WRITABLE n \<longleftrightarrow> n = 1" "bit PTE_USER n \<longleftrightarrow> n = 2" "bit PTE_PWT n \<longleftrightarrow> n = 3"
  "bit PTE_PCD n \<longleftrightarrow> n = 4" "bit PTE_PS n \<longleftrightarrow> n = 7" "bit PTE_NX n \<longleftrightarrow> n = 63"
  unfolding PTE_PRESENT_def PTE_WRITABLE_def PTE_USER_def PTE_PWT_def PTE_PCD_def PTE_PS_def PTE_NX_def bit_push_bit_iff bit_1_iff by auto

lemma LEAF_FLAGS_bits: "bit LEAF_FLAGS n \<longleftrightarrow> n \<in> {1, 2, 3, 4, 63}"
  by (auto simp: LEAF_FLAGS_def bit_or_iff flag_bits)

lemma BASE_2M_bits: "bit BASE_2M n \<longleftrightarrow> 21 \<le> n \<and> n < 52"
proof -
  have e: "BASE_2M = push_bit 21 (mask 31)" by (simp add: BASE_2M_def mask_eq_exp_minus_1)
  show ?thesis unfolding e by (auto simp: bit_push_bit_iff bit_mask_iff)
qed

lemma and_single:
  assumes f: "\<And>n. bit f n \<longleftrightarrow> n = k"
  shows "(e :: u64) AND f \<noteq> 0 \<longleftrightarrow> bit e k"
proof
  assume "e AND f \<noteq> 0"
  then obtain n where "bit (e AND f) n" by (metis bit_0_eq bit_eqI bot_apply bot_bool_def)
  then show "bit e k" using f by (auto simp: bit_and_iff)
next
  assume "bit e k"
  then have "bit (e AND f) k" using f by (simp add: bit_and_iff)
  then show "e AND f \<noteq> 0" by (metis bit_0_eq bot_apply bot_bool_def)
qed

lemma flag_iff [entry_simps]:
  "present e \<longleftrightarrow> bit e 0" "writable e \<longleftrightarrow> bit e 1" "user e \<longleftrightarrow> bit e 2" "huge e \<longleftrightarrow> bit e 7"
  unfolding present_def writable_def user_def huge_def by (simp_all add: and_single flag_bits)

lemmas entry_bits = bit_and_iff bit_or_iff flag_bits LEAF_FLAGS_bits ADDR_MASK_bits BASE_2M_bits

definition is_table :: "u64 \<Rightarrow> bool" where
  "is_table e \<longleftrightarrow> present e \<and> \<not> huge e"

lemma addr_idem [simp]: "addr (addr e) = addr e"
  by (simp add: and.assoc)

text \<open>The entry for a table page.\<close>

lemma table_entry:
  assumes "\<And>n. bit f n \<Longrightarrow> n < 7" "bit f 0"
  shows "addr (addr p OR f) = addr p" and "is_table (addr p OR f)" and "user (addr p OR f) \<longleftrightarrow> user f"
proof -
  show "addr (addr p OR f) = addr p" by (rule bit_word_eqI) (use assms(1) in \<open>force simp: entry_bits\<close>)
  have "\<not> bit f 7" using assms(1) by blast
  then show "is_table (addr p OR f)" "user (addr p OR f) \<longleftrightarrow> user f"
    using assms by (auto simp: is_table_def entry_simps entry_bits)
qed

section \<open>Translation\<close>

fun walk :: "nat \<Rightarrow> memory \<Rightarrow> u64 \<Rightarrow> u64 \<Rightarrow> (u64 \<times> u64) option" where
  "walk 0 m t v = None"
| "walk (Suc l) m t v =
     (let e = ent m t (idx v (Suc l))
      in if \<not> present e then None
         else if l = 0 then Some (addr e, e AND LEAF_FLAGS)
         else if huge e then Some ((e AND BASE_2M) + push_bit 12 (idx v 1), e AND LEAF_FLAGS)
         else walk l m (addr e) v)"

fun tset :: "nat \<Rightarrow> memory \<Rightarrow> u64 \<Rightarrow> u64 set" where
  "tset 0 m t = {}"
| "tset (Suc l) m t =
     insert t (if l = 0 then {} else (\<Union>i \<in> {i. i < 512 \<and> is_table (ent m t i)}. tset l m (addr (ent m t i))))"

text \<open>No address below has a page for users.\<close>

definition no_user :: "nat \<Rightarrow> memory \<Rightarrow> u64 \<Rightarrow> bool" where
  "no_user l m t \<longleftrightarrow> (\<forall>v p f. walk l m t v = Some (p, f) \<longrightarrow> \<not> user f)"

fun wf_tables :: "nat \<Rightarrow> memory \<Rightarrow> u64 \<Rightarrow> bool" where
  "wf_tables 0 m t \<longleftrightarrow> False"
| "wf_tables (Suc l) m t \<longleftrightarrow>
     page_ok t \<and>
     (l \<noteq> 0 \<longrightarrow>
        (\<forall>i < 512. present (ent m t i) \<and> huge (ent m t i) \<longrightarrow> l = 1 \<and> \<not> user (ent m t i)) \<and>
        (\<forall>i < 512. is_table (ent m t i) \<longrightarrow>
           wf_tables l m (addr (ent m t i)) \<and> t \<notin> tset l m (addr (ent m t i)) \<and>
           (user (ent m t i) \<or> no_user l m (addr (ent m t i)))) \<and>
        (\<forall>i < 512. \<forall>j < 512. is_table (ent m t i) \<and> is_table (ent m t j) \<and> i \<noteq> j \<longrightarrow>
           tset l m (addr (ent m t i)) \<inter> tset l m (addr (ent m t j)) = {}))"

lemma wf_tables_page: "wf_tables l m t \<Longrightarrow> page_ok t"
  by (cases l) simp_all

lemma tset_pages: "wf_tables l m t \<Longrightarrow> p \<in> tset l m t \<Longrightarrow> page_ok p"
  by (induction l arbitrary: t) (auto split: if_splits)

lemma tset_root: "wf_tables l m t \<Longrightarrow> t \<in> tset l m t"
  by (cases l) simp_all

lemma tset_child: "\<lbrakk>i < 512; is_table (ent m t i); l \<noteq> 0\<rbrakk> \<Longrightarrow> tset l m (addr (ent m t i)) \<subseteq> tset (Suc l) m t"
  by auto

text \<open>Tables whose pages do not change keep their meaning.\<close>

lemma tables_frame:
  assumes "wf_tables l m t" "\<And>p. p \<in> tset l m t \<Longrightarrow> page_eq m m' p"
  shows "walk l m' t = walk l m t \<and> tset l m' t = tset l m t \<and> wf_tables l m' t"
  using assms
proof (induction l arbitrary: t)
  case (Suc l)
  have t: "page_ok t" "page_eq m m' t" using Suc.prems by simp_all
  have e: "ent m' t i = ent m t i" if "i < 512" for i using ent_page_eq [OF t(2,1) that] .
  have sub: "wf_tables l m (addr (ent m t i))" "\<And>p. p \<in> tset l m (addr (ent m t i)) \<Longrightarrow> page_eq m m' p"
    if "i < 512" "is_table (ent m t i)" "l \<noteq> 0" for i
    using Suc.prems that tset_child [OF that] by auto
  have ih: "walk l m' (addr (ent m t i)) = walk l m (addr (ent m t i)) \<and> tset l m' (addr (ent m t i)) = tset l m (addr (ent m t i)) \<and>
      wf_tables l m' (addr (ent m t i))" if "i < 512" "is_table (ent m t i)" "l \<noteq> 0" for i
    using Suc.IH [OF sub [OF that]] .
  have "walk (Suc l) m' t v = walk (Suc l) m t v" for v using ih [of "idx v (Suc l)"] by (simp add: e Let_def is_table_def)
  moreover have "tset (Suc l) m' t = tset (Suc l) m t" using ih by (auto simp: e)
  moreover have "wf_tables (Suc l) m' t" using Suc.prems(1) ih by (auto simp: e no_user_def)
  ultimately show ?case by blast
qed simp

end
