(* ===== verification/Paging_Map.thy ===== *)
theory Paging_Map
  imports Paging_Walk
begin

text \<open>
  What \<open>table\<close> and \<open>map_4k\<close> of theory \<open>Paging\<close> do to the translation of an address space.
\<close>

unbundle bit_operations_syntax

section \<open>Allocating pages\<close>

text \<open>Blocks of the heap that can serve as pages.\<close>

definition pages :: "(u64 \<times> nat) set \<Rightarrow> u64 set" where
  "pages L = {p. page_ok p \<and> (\<exists>n. (p, n) \<in> L \<and> 4096 \<le> n)}"

text \<open>The heap is well formed and lies in physical memory that table entries can address.\<close>

definition mm_ok :: "mm \<Rightarrow> (u64 \<times> nat) set \<Rightarrow> bool" where
  "mm_ok s L \<longleftrightarrow> heap_live (mheap s) L \<and> unat (heap_base (mheap s)) + unat (heap_size (mheap s)) \<le> 2 ^ 52"

definition mroom :: "mm \<Rightarrow> nat" where
  "mroom s = unat (heap_size (mheap s)) - unat (heap_off (mheap s))"

lemma page_okI:
  assumes "p \<noteq> 0" "4096 dvd unat p" "unat p < 2 ^ 52"
  shows "page_ok p"
proof -
  have z: "take_bit 12 (unat p) = 0" using assms(2) by (simp add: take_bit_eq_mod dvd_imp_mod_0)
  have w: "take_bit 52 (unat p) = unat p" using assms(3) by (simp add: take_bit_nat_eq_self)
  have b: "bit (take_bit k (unat p)) n \<longleftrightarrow> n < k \<and> bit p n" for k n by (simp add: bit_take_bit_iff bit_unsigned_iff)
  have "\<not> bit p n" if "n < 12" for n using that b [of 12 n] by (simp add: z)
  moreover have "n < 52" if "bit p n" for n using that b [of 52 n] by (simp add: w bit_unsigned_iff)
  ultimately have "addr p = p" by (intro bit_word_eqI) (force simp: bit_and_iff ADDR_MASK_bits not_less [symmetric])
  then show ?thesis using assms(1) by (simp add: page_ok_def)
qed

lemma dma_page: "dma_alloc 4096 4096 h = alloc 4096 4096 h"
  by (simp add: dma_alloc_def)

lemma alloc_page_ok:
  assumes s: "mm_ok s L"
  obtains (nomem) s' where "alloc_page s = Some (s', 0)" "mem s' = mem s" "cr3 s' = cr3 s" "mm_ok s' L" "mroom s < 8224" "mroom s' = mroom s"
    | (made) s' p n where "alloc_page s = Some (s', p)" "page_ok p" "p \<notin> pages L" "4096 \<le> n" "mm_ok s' (insert (p, n) L)"
        "mem s' = mset_mem p 0 4096 (mem s)" "cr3 s' = cr3 s" "mroom s \<le> mroom s' + 8224"
proof -
  let ?h = "mheap s"
  have al: "real_align 4096 = 4096" "unat (4096 :: u64) = 4096" "is_power_of_2 4096"
    by (simp_all add: real_align_def GRANULARITY_def sizeof_header_def is_power_of_2_def)
  have live: "heap_live ?h L" using s by (simp add: mm_ok_def)
  have off: "unat (heap_off ?h) \<le> unat (heap_size ?h)"
    using live by (auto simp: heap_live_def heap_inv_def word_le_nat_alt)
  from alloc_spec [OF live, of 4096 4096] show thesis
  proof (elim disjE exE conjE)
    assume f: "alloc 4096 4096 ?h = Some (fail_alloc ?h)" "\<not> fits ?h 4096 4096"
    then have "mroom s < 8224" using off by (simp add: fits_def al mroom_def)
    moreover have "alloc_page s = Some (s\<lparr>mheap := fst (fail_alloc ?h)\<rparr>, 0)" using f(1) by (simp add: alloc_page_def dma_page fail_alloc_def)
    moreover have "mm_ok (s\<lparr>mheap := fst (fail_alloc ?h)\<rparr>) L" using heap_live_fail [OF live] s by (simp add: mm_ok_def fail_alloc_def)
    ultimately show thesis using nomem by (simp add: mroom_def fail_alloc_def)
  next
    fix h p n
    assume m: "alloc 4096 4096 ?h = Some (h, p)" "p \<noteq> 0" "(p, n) \<notin> L" "placed ?h 4096 4096 p n" "heap_live h (insert (p, n) L)"
      "heap_base h = heap_base ?h" "heap_size h = heap_size ?h" "unat (heap_off h) \<le> unat (heap_off ?h) + unat (real_align 4096) + unat (4096 :: u64) + 32"
    have n: "4096 \<le> n" "4096 dvd unat p" "unat p + n \<le> 2 ^ 52" using m(4) s by (simp_all add: placed_def al mm_ok_def)
    have p: "page_ok p" using page_okI [OF m(2) n(2)] n(1,3) by simp
    have "p \<notin> pages L"
    proof
      assume "p \<in> pages L"
      then obtain k where "(p, k) \<in> L" "4096 \<le> k" by (auto simp: pages_def)
      then show False using kheap.live_size [OF m(5), of p k n] m(3) by auto
    qed
    moreover have "alloc_page s = Some (s\<lparr>mheap := h, mem := mset_mem p 0 4096 (mem s)\<rparr>, p)" using m(1,2) by (simp add: alloc_page_def dma_page)
    moreover have "mm_ok (s\<lparr>mheap := h, mem := mset_mem p 0 4096 (mem s)\<rparr>) (insert (p, n) L)" using m(5,6,7) s by (simp add: mm_ok_def)
    ultimately show thesis using made [of "s\<lparr>mheap := h, mem := mset_mem p 0 4096 (mem s)\<rparr>" p n] p n(1) m(7,8) al by (simp add: mroom_def)
  qed
qed

lemma pages_insert: "page_ok p \<Longrightarrow> 4096 \<le> n \<Longrightarrow> pages (insert (p, n) L) = insert p (pages L)"
  by (auto simp: pages_def)

lemma pages_mono: "L \<subseteq> L' \<Longrightarrow> pages L \<subseteq> pages L'"
  by (auto simp: pages_def)

section \<open>One level\<close>

text \<open>The entries of a split 2 MB page.\<close>

lemma split_entry_bits:
  assumes "j < 512"
  shows "present (split_entry e j)" and "addr (split_entry e j) = (e AND BASE_2M) + push_bit 12 j"
    and "split_entry e j AND LEAF_FLAGS = e AND LEAF_FLAGS"
proof -
  have j: "n < 9" if "bit j n" for n using bits_below [of j 9 n] that assms by (simp add: word_less_nat_alt)
  have q: "12 \<le> n \<and> n < 21" if "bit (push_bit 12 j) n" for n using that j [of "n - 12"] by (auto simp: bit_push_bit_iff)
  have sum: "(e AND BASE_2M) + push_bit 12 j = (e AND BASE_2M) OR push_bit 12 j"
    by (rule disjunctive_add) (auto simp: entry_bits dest: q)
  have s: "split_entry e j = (e AND BASE_2M) OR push_bit 12 j OR (e AND LEAF_FLAGS) OR PTE_PRESENT"
    by (simp add: split_entry_def sum LEAF_FLAGS_def or.assoc)
  show "present (split_entry e j)" unfolding s by (simp add: entry_simps entry_bits)
  show "addr (split_entry e j) = (e AND BASE_2M) + push_bit 12 j" unfolding s sum
    by (rule bit_word_eqI) (auto simp: entry_bits dest: q)
  show "split_entry e j AND LEAF_FLAGS = e AND LEAF_FLAGS" unfolding s
    by (rule bit_word_eqI) (auto simp: entry_bits dest: q)
qed

lemma split_loop_ent:
  assumes "page_ok pt" "list_all (\<lambda>j. j < 512) js"
  shows "k < 512 \<Longrightarrow> ent (split_loop pt e js m) pt (of_nat k) = (if k \<in> set js then split_entry e (of_nat k) else ent m pt (of_nat k))"
    and "p \<noteq> pt \<Longrightarrow> page_eq m (split_loop pt e js m) p"
proof -
  have u: "(of_nat i :: u64) < 512" "unat (of_nat i :: u64) = i" if "i < 512" for i
    using that by (simp_all add: word_less_nat_alt unat_of_nat_64)
  have inj: "(of_nat i :: u64) = of_nat k \<longleftrightarrow> i = k" if "i < 512" "k < 512" for i k using u(2) that by metis
  show "k < 512 \<Longrightarrow> ent (split_loop pt e js m) pt (of_nat k) = (if k \<in> set js then split_entry e (of_nat k) else ent m pt (of_nat k))"
    using assms(2) by (induction js arbitrary: m) (auto simp: ent_set_ent [OF assms(1)] u inj)
  show "p \<noteq> pt \<Longrightarrow> page_eq m (split_loop pt e js m) p"
    using assms(2)
  proof (induction js arbitrary: m)
    case (Cons j js)
    then show ?case using page_eq_trans [OF set_ent_other_page [OF assms(1) u(1)] Cons.IH] by simp
  qed simp
qed

text \<open>Opening an entry for more accesses.\<close>

definition mark :: "u64 \<Rightarrow> u64 \<Rightarrow> u64 \<Rightarrow> memory \<Rightarrow> memory" where
  "mark t i flags m =
     (let m = (if user flags then set_ent t i (ent m t i OR PTE_USER) m else m)
      in if writable flags then set_ent t i (ent m t i OR PTE_WRITABLE) m else m)"

lemma mark_ok:
  assumes "page_ok t" "i < 512"
  shows "addr (ent (mark t i fl m) t i) = addr (ent m t i)" and "is_table (ent (mark t i fl m) t i) \<longleftrightarrow> is_table (ent m t i)"
    and "user (ent (mark t i fl m) t i) \<longleftrightarrow> user (ent m t i) \<or> user fl"
    and "j < 512 \<Longrightarrow> j \<noteq> i \<Longrightarrow> ent (mark t i fl m) t j = ent m t j" and "p \<noteq> t \<Longrightarrow> page_eq m (mark t i fl m) p"
proof -
  have a: "addr (e OR PTE_USER) = addr e" "addr (e OR PTE_WRITABLE) = addr e" for e
    by (rule bit_word_eqI, auto simp: entry_bits)+
  have b: "is_table (e OR PTE_USER) = is_table e" "is_table (e OR PTE_WRITABLE) = is_table e" "user (e OR PTE_USER)"
    "user (e OR PTE_WRITABLE) = user e" for e
    by (simp_all add: is_table_def entry_simps entry_bits)
  show "addr (ent (mark t i fl m) t i) = addr (ent m t i)" "is_table (ent (mark t i fl m) t i) \<longleftrightarrow> is_table (ent m t i)"
    "user (ent (mark t i fl m) t i) \<longleftrightarrow> user (ent m t i) \<or> user fl"
    by (simp_all add: mark_def Let_def ent_set_ent [OF assms(1,2)] assms(2) a b)
  show "j < 512 \<Longrightarrow> j \<noteq> i \<Longrightarrow> ent (mark t i fl m) t j = ent m t j"
    by (simp add: mark_def Let_def ent_set_ent [OF assms(1,2)])
  show "p \<noteq> t \<Longrightarrow> page_eq m (mark t i fl m) p"
    using set_ent_other_page [OF assms] page_eq_trans by (fastforce simp: mark_def Let_def)
qed

lemma table_present:
  assumes "split_huge t i s = Some (s1, Some e)" "present e"
  shows "table t i fl s = Some (s1\<lparr>mem := mark t i fl (mem s1)\<rparr>, Some (addr e))"
  using assms by (simp add: table_def mark_def Let_def)

text \<open>What one call of \<open>table\<close> changes: at most entry \<open>i\<close> of the table \<open>t\<close> and one fresh page.\<close>

definition entry_changed :: "u64 \<Rightarrow> u64 \<Rightarrow> u64 set \<Rightarrow> memory \<Rightarrow> memory \<Rightarrow> bool" where
  "entry_changed t i F m m' \<longleftrightarrow>
     (\<forall>j < 512. j \<noteq> i \<longrightarrow> ent m' t j = ent m t j) \<and> (\<forall>p. p \<noteq> t \<and> p \<notin> F \<longrightarrow> page_eq m m' p)"

text \<open>Hanging a fresh page into a table.\<close>

lemma link_page:
  assumes t: "page_ok t" "i < 512" and p: "page_ok p" "p \<noteq> t" and m1: "\<forall>q. q \<noteq> p \<longrightarrow> page_eq m m1 q"
    and f: "\<forall>n. bit f n \<longrightarrow> n < 7" "bit f 0"
  defines "m' \<equiv> set_ent t i (addr p OR f) m1"
  shows "addr (ent m' t i) = p" and "is_table (ent m' t i)" and "user (ent m' t i) \<longleftrightarrow> user f" and "entry_changed t i {p} m m'"
    and "j < 512 \<Longrightarrow> ent m' p j = ent m1 p j"
proof -
  have "addr p = p" using p(1) by (simp add: page_ok_def)
  then show "addr (ent m' t i) = p" "is_table (ent m' t i)" "user (ent m' t i) \<longleftrightarrow> user f"
    using table_entry [of f p] f ent_set_ent [OF t t(2)] by (simp_all add: m'_def)
  have "ent m' t j = ent m t j" if "j < 512" "j \<noteq> i" for j
    using ent_set_ent [OF t that(1)] ent_page_eq [OF _ t(1) that(1), of m m1] m1 p(2) that(2) by (simp add: m'_def)
  moreover have "page_eq m m' q" if "q \<noteq> t" "q \<noteq> p" for q
    using page_eq_trans [OF _ set_ent_other_page [OF t that(1)], of m m1] m1 that(2) by (simp add: m'_def)
  ultimately show "entry_changed t i {p} m m'" by (simp add: entry_changed_def)
  show "j < 512 \<Longrightarrow> ent m' p j = ent m1 p j" using ent_page_eq [OF set_ent_other_page [OF t p(2)] p(1)] by (simp add: m'_def)
qed

lemma entry_changed_mark:
  assumes "entry_changed t i F m m'" "page_ok t" "i < 512"
  shows "entry_changed t i F m (mark t i fl m')"
  using assms(1) mark_ok(4,5) [OF assms(2,3)] page_eq_trans unfolding entry_changed_def by metis

lemma table_ok:
  assumes s: "mm_ok s L" and t: "page_ok t" "t \<in> pages L" and i: "i < 512"
  defines "e \<equiv> ent (mem s) t i"
  obtains (nomem) s' where "table t i fl s = Some (s', None)" "mem s' = mem s" "cr3 s' = cr3 s" "mm_ok s' L" "mroom s < 8224" "mroom s' = mroom s"
    | (fresh) s' p n where "\<not> present e" "table t i fl s = Some (s', Some p)" "page_ok p" "p \<notin> pages L" "4096 \<le> n" "mm_ok s' (insert (p, n) L)"
        "cr3 s' = cr3 s" "mroom s \<le> mroom s' + 8224" "addr (ent (mem s') t i) = p" "is_table (ent (mem s') t i)"
        "user (ent (mem s') t i) \<longleftrightarrow> user fl" "entry_changed t i {p} (mem s) (mem s')" "\<And>j. j < 512 \<Longrightarrow> ent (mem s') p j = 0"
    | (split) s' p n where "present e" "huge e" "table t i fl s = Some (s', Some p)" "page_ok p" "p \<notin> pages L" "4096 \<le> n"
        "mm_ok s' (insert (p, n) L)" "cr3 s' = cr3 s" "mroom s \<le> mroom s' + 8224" "addr (ent (mem s') t i) = p" "is_table (ent (mem s') t i)"
        "user (ent (mem s') t i) \<longleftrightarrow> user e \<or> user fl" "entry_changed t i {p} (mem s) (mem s')"
        "\<And>j. j < 512 \<Longrightarrow> ent (mem s') p j = split_entry e j"
    | (down) s' where "is_table e" "table t i fl s = Some (s', Some (addr e))" "mm_ok s' L" "cr3 s' = cr3 s" "mroom s' = mroom s"
        "addr (ent (mem s') t i) = addr e" "is_table (ent (mem s') t i)" "user (ent (mem s') t i) \<longleftrightarrow> user e \<or> user fl"
        "entry_changed t i {} (mem s) (mem s')"
proof -
  consider (absent) "\<not> present e" | (huge) "present e" "huge e" | (table) "is_table e" by (auto simp: is_table_def)
  then show thesis
  proof cases
    case table
    then have "split_huge t i s = Some (s, Some e)" by (simp add: split_huge_def e_def is_table_def)
    then have "table t i fl s = Some (s\<lparr>mem := mark t i fl (mem s)\<rparr>, Some (addr e))" using table_present table by (simp add: is_table_def)
    then show thesis using down [of "s\<lparr>mem := mark t i fl (mem s)\<rparr>"] mark_ok [OF t(1) i, where fl = fl and m = "mem s"] s table
      by (simp add: e_def mm_ok_def mroom_def entry_changed_def)
  next
    case absent
    have sh: "split_huge t i s = Some (s, Some e)" using absent by (simp add: split_huge_def e_def)
    from s show thesis
    proof (cases rule: alloc_page_ok)
      case (nomem s1)
      then show thesis using that(1) [of s1] sh absent by (simp add: table_def)
    next
      case (made s1 p n)
      let ?f = "PTE_PRESENT OR PTE_WRITABLE OR (fl AND PTE_USER)"
      let ?s = "s1\<lparr>mem := set_ent t i (addr p OR ?f) (mem s1)\<rparr>"
      have f: "\<forall>n. bit ?f n \<longrightarrow> n < 7" "bit ?f 0" "user ?f \<longleftrightarrow> user fl" by (auto simp: entry_simps entry_bits)
      have pt: "p \<noteq> t" using made(3) t(2) by auto
      have m1: "\<forall>q. q \<noteq> p \<longrightarrow> page_eq (mem s) (mem s1) q" using mset_mem_page(2) [OF made(2)] made(6) by simp
      have z: "ent (mem s1) p j = 0" if "j < 512" for j using ent_zero_page [OF _ made(2) that] mset_mem_page(1) [OF made(2)] made(6) by simp
      have "table t i fl s = Some (?s, Some p)" using sh absent made(1,2) by (simp add: table_def page_ok_def)
      then show thesis using fresh [of ?s p n] absent made(2-5,7,8) link_page [OF t(1) i made(2) pt m1 f(1,2)] f(3) z by (simp add: mm_ok_def mroom_def)
    qed
  next
    case huge
    from s show thesis
    proof (cases rule: alloc_page_ok)
      case (nomem s1)
      then show thesis using that(1) [of s1] huge by (simp add: table_def split_huge_def e_def)
    next
      case (made s1 p n)
      let ?f = "PTE_PRESENT OR PTE_WRITABLE OR (e AND PTE_USER)" and ?m1 = "split_loop p e [0..<512] (mem s1)"
      let ?m = "set_ent t i (addr p OR ?f) ?m1"
      have f: "\<forall>n. bit ?f n \<longrightarrow> n < 7" "bit ?f 0" "user ?f \<longleftrightarrow> user e" by (auto simp: entry_simps entry_bits)
      have pt: "p \<noteq> t" using made(3) t(2) by auto
      have js: "list_all (\<lambda>j. j < 512) [0..<512]" by (simp add: list_all_iff)
      have m1: "\<forall>q. q \<noteq> p \<longrightarrow> page_eq (mem s) ?m1 q"
        using page_eq_trans [OF mset_mem_page(2) [OF made(2)] split_loop_ent(2) [OF made(2) js]] made(6) by simp
      have z: "ent ?m1 p j = split_entry e j" if "j < 512" for j
        using split_loop_ent(1) [OF made(2) js, of "unat j" e "mem s1"] that by (simp add: word_less_nat_alt)
      note l = link_page [OF t(1) i made(2) pt m1 f(1,2)]
      have sh: "split_huge t i s = Some (s1\<lparr>mem := ?m\<rparr>, Some (addr p OR ?f))"
        using huge made(1,2) by (simp add: split_huge_def e_def page_ok_def Let_def or.assoc)
      have e': "ent ?m t i = addr p OR ?f" using ent_set_ent [OF t(1) i i] by simp
      have "table t i fl s = Some (s1\<lparr>mem := mark t i fl ?m\<rparr>, Some p)"
        using table_present [OF sh] l(1,2) unfolding e' by (simp add: is_table_def)
      moreover have "ent (mark t i fl ?m) p j = split_entry e j" if "j < 512" for j
        using ent_page_eq [OF mark_ok(5) [OF t(1) i pt] made(2) that] l(5) [OF that] z [OF that] by simp
      ultimately show thesis using split [of "s1\<lparr>mem := mark t i fl ?m\<rparr>" p n] huge made(2-5,7,8) l(1-3) f(3) entry_changed_mark [OF l(4) t(1) i]
          mark_ok(1,2,3) [OF t(1) i, where fl = fl and m = ?m] by (simp add: mm_ok_def mroom_def)
    qed
  qed
qed

text \<open>Tables without entries.\<close>

lemma empty_table:
  assumes "page_ok p" "\<And>j. j < 512 \<Longrightarrow> ent m p j = 0" "l \<noteq> 0"
  shows "wf_tables l m p \<and> tset l m p = {p} \<and> walk l m p = (\<lambda>_. None)"
proof -
  obtain k where k: "l = Suc k" using assms(3) by (cases l) auto
  have "\<not> present 0" "\<not> is_table 0" by (simp_all add: is_table_def entry_simps)
  then show ?thesis using assms(1,2) by (auto simp: k fun_eq_iff)
qed

lemma leaf_user [simp]: "user (e AND LEAF_FLAGS) \<longleftrightarrow> user e"
  by (simp add: entry_simps entry_bits)

text \<open>A table of 4 KB pages in place of a 2 MB page.\<close>

lemma split_table:
  assumes "page_ok p" "\<And>j. j < 512 \<Longrightarrow> ent m p j = split_entry e j"
  shows "walk (Suc 0) m p v = Some ((e AND BASE_2M) + push_bit 12 (idx v 1), e AND LEAF_FLAGS)"
  using assms(2) split_entry_bits [OF idx_less] by simp

text \<open>The pages of the subtree below entry \<open>i\<close>.\<close>

definition below :: "nat \<Rightarrow> memory \<Rightarrow> u64 \<Rightarrow> u64 \<Rightarrow> u64 set" where
  "below l m t i = (if is_table (ent m t i) then tset l m (addr (ent m t i)) else {})"

lemma below_subset: "i < 512 \<Longrightarrow> l \<noteq> 0 \<Longrightarrow> below l m t i \<subseteq> tset (Suc l) m t"
  using tset_child [of i m t l] by (simp add: below_def)

lemma table_step:
  assumes s: "mm_ok s L" and wf: "wf_tables (Suc l) (mem s) t" "l \<noteq> 0" and sub: "tset (Suc l) (mem s) t \<subseteq> pages L" and i: "i < 512"
  defines "m \<equiv> mem s"
  obtains (nomem) s' where "table t i fl s = Some (s', None)" "mem s' = m" "cr3 s' = cr3 s" "mm_ok s' L" "mroom s < 8224" "mroom s' = mroom s"
    | (made) s' a L' where "table t i fl s = Some (s', Some a)" "mm_ok s' L'" "L \<subseteq> L'" "cr3 s' = cr3 s" "mroom s \<le> mroom s' + 8224"
        "entry_changed t i (pages L' - pages L) m (mem s')" "addr (ent (mem s') t i) = a" "is_table (ent (mem s') t i)"
        "wf_tables l (mem s') a" "t \<notin> tset l (mem s') a"
        "tset l (mem s') a \<subseteq> below l m t i \<union> (pages L' - pages L)"
        "\<And>v'. idx v' (Suc l) = i \<Longrightarrow> walk l (mem s') a v' = walk (Suc l) m t v'"
        "user (ent (mem s') t i) \<or> \<not> user fl \<and> no_user l (mem s') a"
proof -
  have t: "page_ok t" "t \<in> pages L" using wf sub by simp_all
  from s t i show thesis
  proof (cases rule: table_ok [where fl = fl])
    case (nomem s')
    then show thesis using that(1) by (simp add: m_def)
  next
    case (fresh s' p n)
    have F: "pages (insert (p, n) L) - pages L = {p}" using fresh by (auto simp: pages_insert)
    have e: "wf_tables l (mem s') p" "tset l (mem s') p = {p}" "walk l (mem s') p = (\<lambda>_. None)"
      using empty_table [OF fresh(3,13) wf(2)] by simp_all
    have w: "walk (Suc l) m t v' = None" if "idx v' (Suc l) = i" for v' using fresh(1) that by (simp add: m_def Let_def)
    have pt: "t \<noteq> p" "L \<subseteq> insert (p, n) L" using fresh(4) t(2) by auto
    show thesis using made [of s' p "insert (p, n) L"] fresh pt e w unfolding F by (simp add: m_def no_user_def below_def)
  next
    case (split s' p n)
    have l: "l = Suc 0" "\<not> user (ent m t i)" using wf split(1,2) i by (auto simp: m_def)
    have F: "pages (insert (p, n) L) - pages L = {p}" using split by (auto simp: pages_insert)
    have pw: "walk l (mem s') p v' = Some ((ent m t i AND BASE_2M) + push_bit 12 (idx v' 1), ent m t i AND LEAF_FLAGS)" for v'
      using split_table [OF split(4,14)] by (simp add: l m_def)
    have w: "walk l (mem s') p v' = walk (Suc l) m t v'" if "idx v' (Suc l) = i" for v'
      using split(1,2) that by (simp add: pw) (simp add: l m_def Let_def)
    have "no_user l (mem s') p" using l(2) by (simp add: no_user_def pw)
    moreover have "t \<noteq> p" "L \<subseteq> insert (p, n) L" "tset l (mem s') p = {p}" "wf_tables l (mem s') p" using split(4,5) t(2) l(1) by auto
    ultimately show thesis using made [of s' p "insert (p, n) L"] split(3,7-13) w l(2) unfolding F by (simp add: m_def below_def)
  next
    case (down s')
    let ?a = "addr (ent m t i)"
    have e: "is_table (ent m t i)" using down(1) by (simp add: m_def)
    have wa: "wf_tables l m ?a" "t \<notin> tset l m ?a" "user (ent m t i) \<or> no_user l m ?a" using wf i e by (auto simp: m_def)
    have "page_eq m (mem s') p" if "p \<in> tset l m ?a" for p using down(9) that wa(2) by (auto simp: entry_changed_def m_def)
    note fr = tables_frame [OF wa(1) this]
    have w: "walk l (mem s') ?a v' = walk (Suc l) m t v'" if "idx v' (Suc l) = i" for v'
      using fr e that wf(2) by (simp add: Let_def is_table_def)
    show thesis using made [of s' ?a L] down fr wa w e by (auto simp: m_def no_user_def below_def)
  qed
qed

section \<open>All levels\<close>

text \<open>\<open>map_4k\<close> from a table of level \<open>l\<close> on.\<close>

fun map_level :: "nat \<Rightarrow> u64 \<Rightarrow> u64 \<Rightarrow> u64 \<Rightarrow> u64 \<Rightarrow> mm \<Rightarrow> (mm \<times> bool) option" where
  "map_level 0 t v pa fl s = Some (s, False)"
| "map_level (Suc l) t v pa fl s =
     (if l = 0 then Some (s\<lparr>mem := set_ent t (idx v 1) (addr pa OR (fl AND LEAF_FLAGS) OR PTE_PRESENT) (mem s)\<rparr>, True)
      else do {
        (s, a) \<leftarrow> table t (idx v (Suc l)) fl s;
        case a of None \<Rightarrow> Some (s, False) | Some a \<Rightarrow> map_level l a v pa fl s
      })"

lemma map_4k_level:
  "map_4k pml4 v pa fl s = (if pml4 = 0 \<or> v AND 0xfff \<noteq> 0 \<or> pa AND 0xfff \<noteq> 0 then Some (s, False) else map_level 4 pml4 v pa fl s)"
  by (simp add: map_4k_def numeral_eq_Suc)

text \<open>Addresses that the tables from level \<open>l\<close> on do not tell apart.\<close>

definition agree :: "nat \<Rightarrow> u64 \<Rightarrow> u64 \<Rightarrow> bool" where
  "agree l v v' \<longleftrightarrow> (\<forall>k \<in> {1..l}. idx v k = idx v' k)"

lemma agree_Suc: "agree (Suc l) v v' \<longleftrightarrow> agree l v v' \<and> idx v (Suc l) = idx v' (Suc l)"
  by (auto simp: agree_def atLeastAtMostSuc_conv)

text \<open>From \<open>m\<close> to \<open>m'\<close> the page of \<open>v\<close> is mapped to \<open>x\<close>, if \<open>ok\<close>, with tables in the fresh pages \<open>F\<close>; nothing else changes.\<close>

definition mapped :: "nat \<Rightarrow> u64 \<Rightarrow> u64 \<Rightarrow> u64 \<times> u64 \<Rightarrow> bool \<Rightarrow> u64 set \<Rightarrow> memory \<Rightarrow> memory \<Rightarrow> bool" where
  "mapped l t v x ok F m m' \<longleftrightarrow>
     wf_tables l m' t \<and> tset l m' t \<subseteq> tset l m t \<union> F \<and> (\<forall>p. p \<notin> tset l m t \<union> F \<longrightarrow> page_eq m m' p) \<and>
     (\<forall>v'. walk l m' t v' = (if ok \<and> agree l v v' then Some x else walk l m t v'))"

lemma mapped_leaf:
  assumes "page_ok t" "x = (addr pa, fl AND LEAF_FLAGS)"
  shows "mapped (Suc 0) t v x True F m (set_ent t (idx v 1) (addr pa OR (fl AND LEAF_FLAGS) OR PTE_PRESENT) m)"
proof -
  let ?e = "addr pa OR (fl AND LEAF_FLAGS) OR PTE_PRESENT"
  have e: "present ?e" "addr ?e = addr pa" "?e AND LEAF_FLAGS = fl AND LEAF_FLAGS"
  proof -
    show "present ?e" by (simp add: entry_simps entry_bits)
    show "addr ?e = addr pa" by (rule bit_word_eqI) (auto simp: entry_bits)
    show "?e AND LEAF_FLAGS = fl AND LEAF_FLAGS" by (rule bit_word_eqI) (auto simp: entry_bits)
  qed
  then show ?thesis using assms set_ent_other_page [OF assms(1) idx_less] ent_set_ent [OF assms(1) idx_less idx_less]
    by (auto simp: mapped_def agree_def Let_def)
qed

lemma mapped_nothing: "wf_tables l m t \<Longrightarrow> mapped l t v x False F m m"
  by (simp add: mapped_def)

text \<open>From \<open>m\<close> to \<open>m'\<close> entry \<open>i\<close> of a table of level \<open>l + 1\<close> is made to point to the table \<open>a\<close>, and only its subtree and the
  fresh pages \<open>F\<close> are written.\<close>

definition relinked :: "nat \<Rightarrow> u64 \<Rightarrow> u64 \<Rightarrow> u64 \<Rightarrow> u64 set \<Rightarrow> memory \<Rightarrow> memory \<Rightarrow> bool" where
  "relinked l t i a F m m' \<longleftrightarrow>
     i < 512 \<and> l \<noteq> 0 \<and> wf_tables (Suc l) m t \<and> tset (Suc l) m t \<inter> F = {} \<and>
     (\<forall>j < 512. j \<noteq> i \<longrightarrow> ent m' t j = ent m t j) \<and> is_table (ent m' t i) \<and> addr (ent m' t i) = a \<and>
     (\<forall>p. p \<notin> insert t (below l m t i \<union> F) \<longrightarrow> page_eq m m' p) \<and>
     wf_tables l m' a \<and> tset l m' a \<subseteq> below l m t i \<union> F \<and> (user (ent m' t i) \<or> no_user l m' a)"

lemma relinked_others:
  assumes r: "relinked l t i a F m m'" and j: "j < 512" "j \<noteq> i" "is_table (ent m t j)"
  shows "ent m' t j = ent m t j" "walk l m' (addr (ent m t j)) = walk l m (addr (ent m t j))"
    "tset l m' (addr (ent m t j)) = tset l m (addr (ent m t j))" "wf_tables l m' (addr (ent m t j))"
    "tset l m (addr (ent m t j)) \<inter> (below l m t i \<union> F) = {}"
proof -
  let ?C = "tset l m (addr (ent m t j))"
  have C: "?C \<inter> below l m t i = {}" "t \<notin> ?C" "wf_tables l m (addr (ent m t j))" "?C \<subseteq> tset (Suc l) m t"
    using r j tset_child [of j m t l] by (auto simp: relinked_def below_def)
  moreover have "tset (Suc l) m t \<inter> F = {}" using r unfolding relinked_def by blast
  ultimately show d: "?C \<inter> (below l m t i \<union> F) = {}" by blast
  have "page_eq m m' p" if "p \<in> ?C" for p
  proof -
    have "p \<notin> insert t (below l m t i \<union> F)" using that d C(2) by blast
    then show ?thesis using r unfolding relinked_def by blast
  qed
  note fr = tables_frame [OF C(3) this]
  show "walk l m' (addr (ent m t j)) = walk l m (addr (ent m t j))" "tset l m' (addr (ent m t j)) = ?C" "wf_tables l m' (addr (ent m t j))"
    using fr by simp_all
  show "ent m' t j = ent m t j" using r j by (simp add: relinked_def)
qed

lemma relinked_walk:
  assumes "relinked l t i a F m m'"
  shows "walk (Suc l) m' t v = (if idx v (Suc l) = i then walk l m' a v else walk (Suc l) m t v)"
proof (cases "idx v (Suc l) = i")
  case True
  then show ?thesis using assms by (simp add: relinked_def Let_def is_table_def)
next
  case False
  have "ent m' t (idx v (Suc l)) = ent m t (idx v (Suc l))" using assms False by (simp add: relinked_def)
  then show ?thesis using False relinked_others(2) [OF assms idx_less False] by (simp add: Let_def is_table_def)
qed

lemma relinked_below:
  assumes r: "relinked l t i a F m m'" and "j < 512" "is_table (ent m' t j)"
  shows "tset l m' (addr (ent m' t j)) = (if j = i then tset l m' a else tset l m (addr (ent m t j)))"
    "j \<noteq> i \<Longrightarrow> is_table (ent m t j)" "t \<notin> tset l m' (addr (ent m' t j))"
proof -
  show j: "is_table (ent m t j)" if "j \<noteq> i" using assms that by (simp add: relinked_def)
  show e: "tset l m' (addr (ent m' t j)) = (if j = i then tset l m' a else tset l m (addr (ent m t j)))"
    using relinked_others(1,3) [OF r assms(2)] j r by (simp add: relinked_def)
  have "t \<notin> tset l m' a" using r by (auto simp: relinked_def below_def split: if_splits)
  then show "t \<notin> tset l m' (addr (ent m' t j))" using e j r assms(2) by (auto simp: relinked_def)
qed

lemma relinked_tset:
  assumes r: "relinked l t i a F m m'"
  shows "tset (Suc l) m' t \<subseteq> tset (Suc l) m t \<union> F"
proof
  fix p
  assume "p \<in> tset (Suc l) m' t"
  then consider "p = t" | j where "j < 512" "is_table (ent m' t j)" "p \<in> tset l m' (addr (ent m' t j))" by (auto split: if_splits)
  then show "p \<in> tset (Suc l) m t \<union> F"
  proof cases
    case 2
    have l: "l \<noteq> 0" "i < 512" "tset l m' a \<subseteq> below l m t i \<union> F" using r unfolding relinked_def by blast+
    show ?thesis
    proof (cases "j = i")
      case True
      then show ?thesis using 2(3) relinked_below(1) [OF r 2(1,2)] l below_subset [OF l(2,1), of m t] by (simp del: tset.simps) blast
    next
      case False
      then show ?thesis using 2(3) relinked_below(1,2) [OF r 2(1,2)] tset_child [OF 2(1) _ l(1), of m t] by (simp del: tset.simps) blast
    qed
  qed simp
qed

lemma relinked_wf:
  assumes r: "relinked l t i a F m m'"
  shows "wf_tables (Suc l) m' t"
proof -
  have wf: "wf_tables (Suc l) m t" "l \<noteq> 0" and ta: "tset l m' a \<subseteq> below l m t i \<union> F" using r by (auto simp: relinked_def)
  show ?thesis unfolding wf_tables.simps
  proof (intro conjI impI allI)
    show "page_ok t" using wf by simp
  next
    fix j assume j: "j < 512" "present (ent m' t j) \<and> huge (ent m' t j)"
    then have "ent m' t j = ent m t j" using r by (cases "j = i") (auto simp: relinked_def is_table_def)
    then show "l = 1" "\<not> user (ent m' t j)" using j wf by auto
  next
    fix j assume j: "j < 512" "is_table (ent m' t j)"
    note o = relinked_others [OF r j(1)] and b = relinked_below [OF r j]
    show "wf_tables l m' (addr (ent m' t j))" using o(1,4) b(2) r by (cases "j = i") (auto simp: relinked_def)
    show "t \<notin> tset l m' (addr (ent m' t j))" by (fact b)
    show "user (ent m' t j) \<or> no_user l m' (addr (ent m' t j))"
      using r wf(1) j(1) o(1,2) b(2) by (cases "j = i") (auto simp: relinked_def no_user_def)
  next
    fix j k assume jk: "j < 512" "k < 512" "is_table (ent m' t j) \<and> is_table (ent m' t k) \<and> j \<noteq> k"
    then show "tset l m' (addr (ent m' t j)) \<inter> tset l m' (addr (ent m' t k)) = {}"
      using relinked_below(1,2) [OF r, of j] relinked_below(1,2) [OF r, of k] relinked_others(5) [OF r, of j] relinked_others(5) [OF r, of k] ta wf
      by (cases "j = i"; cases "k = i") auto
  qed
qed

lemma mapped_step:
  assumes wf: "wf_tables (Suc l) m t" "l \<noteq> 0" and F: "tset (Suc l) m t \<inter> (F1 \<union> F2) = {}"
    and i: "i = idx v (Suc l)" and ch: "entry_changed t i F1 m m1" "addr (ent m1 t i) = a" "is_table (ent m1 t i)"
    and a: "wf_tables l m1 a" "t \<notin> tset l m1 a" "tset l m1 a \<subseteq> below l m t i \<union> F1"
    and w: "\<And>v'. idx v' (Suc l) = i \<Longrightarrow> walk l m1 a v' = walk (Suc l) m t v'" and u: "user (ent m1 t i) \<or> \<not> user (snd x) \<and> no_user l m1 a"
    and mp: "mapped l a v x ok F2 m1 m2"
  shows "mapped (Suc l) t v x ok (F1 \<union> F2) m m2"
proof -
  have i5: "i < 512" and t: "page_ok t" "t \<notin> F1 \<union> F2" using wf F i by auto
  have m2t: "page_eq m1 m2 t" using mp a(2) t(2) by (auto simp: mapped_def)
  have e: "ent m2 t j = (if j = i then ent m1 t i else ent m t j)" if "j < 512" for j
    using ent_page_eq [OF m2t t(1) that] ch(1) that by (simp add: entry_changed_def)
  have p: "page_eq m m2 p" if "p \<notin> insert t (below l m t i \<union> (F1 \<union> F2))" for p
  proof -
    have "page_eq m m1 p" using ch(1) that by (auto simp: entry_changed_def)
    moreover have "page_eq m1 m2 p" using mp a(3) that by (auto simp: mapped_def)
    ultimately show ?thesis using page_eq_trans by blast
  qed
  have "user (ent m1 t i) \<or> no_user l m2 a" using u mp by (auto simp: no_user_def mapped_def split: if_splits)
  then have r: "relinked l t i a (F1 \<union> F2) m m2"
    using i5 wf F e ch(2,3) p mp a(3) by (auto simp: relinked_def mapped_def)
  have "walk (Suc l) m2 t v' = (if ok \<and> agree (Suc l) v v' then Some x else walk (Suc l) m t v')" for v'
    using relinked_walk [OF r, of v'] mp w [of v'] i by (auto simp: mapped_def agree_Suc)
  moreover have "page_eq m m2 p" if "p \<notin> tset (Suc l) m t \<union> (F1 \<union> F2)" for p
    using p [of p] that below_subset [OF i5 wf(2), of m t] tset_root [OF wf(1)] by blast
  ultimately show ?thesis using relinked_wf [OF r] relinked_tset [OF r] unfolding mapped_def by blast
qed

lemma map_level_ok:
  assumes "mm_ok s L" "wf_tables l (mem s) t" "tset l (mem s) t \<subseteq> pages L"
  obtains s' ok L' where "map_level l t v pa fl s = Some (s', ok)" "mm_ok s' L'" "L \<subseteq> L'" "cr3 s' = cr3 s"
    "mapped l t v (addr pa, fl AND LEAF_FLAGS) ok (pages L' - pages L) (mem s) (mem s')" "mroom s \<le> mroom s' + 8224 * (l - 1)"
    "8224 * (l - 1) \<le> mroom s \<Longrightarrow> ok"
  using assms
proof (induction l arbitrary: s t L thesis)
  case (Suc l)
  note p = Suc.prems
  show thesis
  proof (cases "l = 0")
    case True
    let ?s = "s\<lparr>mem := set_ent t (idx v 1) (addr pa OR (fl AND LEAF_FLAGS) OR PTE_PRESENT) (mem s)\<rparr>"
    have "page_ok t" using p(3) by simp
    then show thesis using p(1) [of ?s True L] p(2) True mapped_leaf [of t _ pa fl v "{}" "mem s"] by (simp add: mm_ok_def mroom_def)
  next
    case l: False
    have i: "idx v (Suc l) < 512" by simp
    from p(2,3) l p(4) i show thesis
    proof (cases rule: table_step [where fl = fl])
      case (nomem s1)
      show thesis using p(1) [of s1 False L] nomem p(3) l mapped_nothing [OF p(3)] by (cases l) (simp_all add: mroom_def)
    next
      case (made s1 a L1)
      have sub: "tset l (mem s1) a \<subseteq> pages L1"
        using made(11) p(4) below_subset [OF i l, of "mem s" t] pages_mono [OF made(3)] by blast
      obtain s2 ok L2 where 2: "map_level l a v pa fl s1 = Some (s2, ok)" "mm_ok s2 L2" "L1 \<subseteq> L2" "cr3 s2 = cr3 s1"
        "mapped l a v (addr pa, fl AND LEAF_FLAGS) ok (pages L2 - pages L1) (mem s1) (mem s2)" "mroom s1 \<le> mroom s2 + 8224 * (l - 1)"
        "8224 * (l - 1) \<le> mroom s1 \<Longrightarrow> ok"
        using Suc.IH [OF _ made(2,9) sub] by metis
      have F: "pages L2 - pages L = (pages L1 - pages L) \<union> (pages L2 - pages L1)" using pages_mono [OF made(3)] pages_mono [OF 2(3)] by auto
      have disj: "tset (Suc l) (mem s) t \<inter> ((pages L1 - pages L) \<union> (pages L2 - pages L1)) = {}"
        using p(4) pages_mono [OF made(3)] by (simp only: Int_Un_distrib) blast
      have u: "user (ent (mem s1) t (idx v (Suc l))) \<or> \<not> user (snd (addr pa, fl AND LEAF_FLAGS)) \<and> no_user l (mem s1) a" using made(13) by simp
      have mp: "mapped (Suc l) t v (addr pa, fl AND LEAF_FLAGS) ok (pages L2 - pages L) (mem s) (mem s2)"
        unfolding F by (rule mapped_step [OF p(3) l disj refl made(6-12) u 2(5)])
      have "map_level (Suc l) t v pa fl s = Some (s2, ok)" using made(1) 2(1) l by simp
      moreover have "mroom s \<le> mroom s2 + 8224 * l" "8224 * l \<le> mroom s \<Longrightarrow> ok" using made(5) 2(6,7) l by (cases l; simp)+
      ultimately show thesis using p(1) [of s2 ok L2] 2(2,3,4) made(3,4) mp by simp
    qed
  qed
qed simp

section \<open>Address spaces\<close>

text \<open>A well-formed address space whose tables are pages of the heap, and its translation.\<close>

definition space_ok :: "mm \<Rightarrow> (u64 \<times> nat) set \<Rightarrow> u64 \<Rightarrow> bool" where
  "space_ok s L root \<longleftrightarrow> mm_ok s L \<and> wf_tables 4 (mem s) root \<and> tset 4 (mem s) root \<subseteq> pages L"

definition xlate :: "mm \<Rightarrow> u64 \<Rightarrow> u64 \<Rightarrow> (u64 \<times> u64) option" where
  "xlate s root = walk 4 (mem s) root"

text \<open>From \<open>s\<close> to \<open>s'\<close> blocks are allocated and only tables of the address space and fresh pages are written.\<close>

definition grown :: "u64 \<Rightarrow> (u64 \<times> nat) set \<Rightarrow> (u64 \<times> nat) set \<Rightarrow> mm \<Rightarrow> mm \<Rightarrow> bool" where
  "grown root L L' s s' \<longleftrightarrow>
     space_ok s' L' root \<and> L \<subseteq> L' \<and> cr3 s' = cr3 s \<and>
     (\<forall>p \<in> pages L. p \<notin> tset 4 (mem s) root \<longrightarrow> page_eq (mem s) (mem s') p) \<and>
     tset 4 (mem s') root \<subseteq> tset 4 (mem s) root \<union> (pages L' - pages L)"

lemma map_4k_spec:
  assumes "space_ok s L root" "v AND 0xfff = 0" "pa AND 0xfff = 0"
  obtains s' ok L' where "map_4k root v pa fl s = Some (s', ok)" "grown root L L' s s'"
    "xlate s' root = (\<lambda>v'. if ok \<and> agree 4 v v' then Some (addr pa, fl AND LEAF_FLAGS) else xlate s root v')"
    "mroom s \<le> mroom s' + 24672" "24672 \<le> mroom s \<longrightarrow> ok"
proof -
  have s: "mm_ok s L" "wf_tables 4 (mem s) root" "tset 4 (mem s) root \<subseteq> pages L" using assms(1) by (simp_all add: space_ok_def)
  obtain s' ok L' where r: "map_level 4 root v pa fl s = Some (s', ok)" "mm_ok s' L'" "L \<subseteq> L'" "cr3 s' = cr3 s"
    "mapped 4 root v (addr pa, fl AND LEAF_FLAGS) ok (pages L' - pages L) (mem s) (mem s')" "mroom s \<le> mroom s' + 8224 * (4 - 1)"
    "8224 * (4 - 1) \<le> mroom s \<Longrightarrow> ok"
    using map_level_ok [OF s] by metis
  have "root \<noteq> 0" using wf_tables_page [OF s(2)] by (simp add: page_ok_def)
  then have "map_4k root v pa fl s = Some (s', ok)" using r(1) assms(2,3) by (simp add: map_4k_level)
  moreover have "space_ok s' L' root" using r(2,5) s(3) pages_mono [OF r(3)] by (auto simp: space_ok_def mapped_def)
  moreover have "xlate s' root = (\<lambda>v'. if ok \<and> agree 4 v v' then Some (addr pa, fl AND LEAF_FLAGS) else xlate s root v')"
    using r(5) by (simp add: mapped_def xlate_def fun_eq_iff)
  ultimately show thesis using that [of s' ok L'] r(3,4,6,7) r(5) by (simp add: mapped_def grown_def)
qed

end
