(* ===== verification/Paging_Space.thy ===== *)
theory Paging_Space
  imports Paging_Map
begin

text \<open>
  Address spaces as maps from page numbers to pages: mapping one fresh page, the step that \<open>map_user_range\<close> and the program
  loader repeat.
\<close>

unbundle bit_operations_syntax

section \<open>Page numbers\<close>

text \<open>The four indices of an address are its bits from 12 to 47.\<close>

definition pgno :: "u64 \<Rightarrow> nat" where
  "pgno v = unat v div 4096 mod 2 ^ 36"

lemma pgno_word: "pgno v = unat (take_bit 36 (drop_bit 12 v))"
proof -
  have "unat v mod 2 ^ 64 = unat v" using unsigned_less [of v, where ?'a = nat] by simp
  then show ?thesis unfolding pgno_def unsigned_take_bit_eq unsigned_drop_bit_eq by (simp add: take_bit_eq_mod drop_bit_eq_div)
qed

lemma bit_idx: "bit (idx v k) n \<longleftrightarrow> n < 9 \<and> bit v (12 + (k - 1) * 9 + n)"
proof -
  have e: "(0x1ff :: u64) = mask 9" by (simp add: mask_eq_exp_minus_1)
  show ?thesis unfolding idx_def e by (auto simp: bit_simps dest: bit_imp_le_length)
qed

lemma agree_pgno: "agree 4 v v' \<longleftrightarrow> pgno v = pgno v'"
proof -
  have "agree 4 v v' \<longleftrightarrow> take_bit 36 (drop_bit 12 v) = take_bit 36 (drop_bit 12 v')"
  proof
    assume a: "agree 4 v v'"
    show "take_bit 36 (drop_bit 12 v) = take_bit 36 (drop_bit 12 v')"
    proof (rule bit_word_eqI)
      fix n
      have k: "Suc (n div 9) \<in> {1..4}" if "n < 36" using that by auto
      have "bit (idx v (Suc (n div 9))) (n mod 9) = bit (idx v' (Suc (n div 9))) (n mod 9)" if "n < 36"
        using a k [OF that] by (simp add: agree_def)
      then have "bit v (12 + n) = bit v' (12 + n)" if "n < 36" using that by (simp add: bit_idx add.assoc)
      then show "bit (take_bit 36 (drop_bit 12 v)) n = bit (take_bit 36 (drop_bit 12 v')) n" by (auto simp: bit_simps)
    qed
  next
    assume e: "take_bit 36 (drop_bit 12 v) = take_bit 36 (drop_bit 12 v')"
    have b: "bit v (12 + n) = bit v' (12 + n)" if "n < 36" for n
      using arg_cong [OF e, of "\<lambda>w. bit w n"] that by (auto simp: bit_simps dest: bit_imp_le_length)
    have "idx v k = idx v' k" if "k \<in> {1..4}" for k
    proof (rule bit_word_eqI)
      fix n
      show "bit (idx v k) n = bit (idx v' k) n" using b [of "(k - 1) * 9 + n"] that by (auto simp: bit_idx add.assoc)
    qed
    then show "agree 4 v v'" by (simp add: agree_def)
  qed
  then show ?thesis by (simp add: pgno_word word_unat_eq_iff)
qed

lemma pgno_of_nat: "4096 * k < 2 ^ 48 \<Longrightarrow> pgno (of_nat (4096 * k)) = k"
  by (simp add: pgno_def unat_of_nat_64 del: of_nat_mult)

lemma aligned_of_nat: "(of_nat (4096 * k) :: u64) AND 0xfff = 0"
  by (simp only: low_mask take_bit_of_nat flip: take_bit_eq_mask) (simp add: take_bit_eq_mod)

lemma page_base: "x AND PAGE_MASK = of_nat (4096 * (unat x div 4096))"
proof -
  have "x AND PAGE_MASK = push_bit 12 (drop_bit 12 x)" by (rule bit_word_eqI) (auto simp: bit_simps PAGE_MASK_bits)
  moreover have "drop_bit 12 x = of_nat (unat x div 4096)" by (simp add: drop_bit_eq_div word_arith_nat_div)
  ultimately show ?thesis by (simp add: push_bit_eq_mult mult.commute)
qed

lemma page_aligned: "page_ok p \<Longrightarrow> p AND 0xfff = 0"
proof -
  assume "page_ok p"
  then have "\<not> bit p n" if "n < 12" for n using page_ok_low [of p n] that by auto
  then show ?thesis unfolding low_mask by (intro bit_word_eqI) (auto simp: bit_simps)
qed

section \<open>Growing an address space\<close>

lemma grown_refl: "space_ok s L root \<Longrightarrow> grown root L L s s"
  by (simp add: grown_def)

lemma grown_trans:
  assumes 1: "grown root L L1 s s1" and 2: "grown root L1 L2 s1 s2"
  shows "grown root L L2 s s2"
proof -
  have m: "pages L \<subseteq> pages L1" "pages L1 \<subseteq> pages L2" using 1 2 by (simp_all add: grown_def pages_mono)
  have "page_eq (mem s) (mem s2) p" if "p \<in> pages L" "p \<notin> tset 4 (mem s) root" for p
  proof -
    have "page_eq (mem s) (mem s1) p" "p \<in> pages L1" "p \<notin> tset 4 (mem s1) root" using 1 m(1) that by (auto simp: grown_def)
    then show ?thesis using 2 page_eq_trans unfolding grown_def by blast
  qed
  then show ?thesis using 1 2 m unfolding grown_def by (intro conjI) auto
qed

text \<open>Allocating a page and mapping it at \<open>v\<close>; the result is 0 when memory ran out.\<close>

definition map_fresh :: "u64 \<Rightarrow> u64 \<Rightarrow> u64 \<Rightarrow> mm \<Rightarrow> (mm \<times> u64) option" where
  "map_fresh root v fl s = do {
     (s, p) \<leftarrow> alloc_page s;
     if p = 0 then Some (s, 0)
     else do {
       (s, ok) \<leftarrow> map_4k root v p fl s;
       Some (s, if ok then p else 0)
     }
   }"

lemma space_ok_frame:
  assumes "space_ok s L root" "mm_ok s' L'" "L \<subseteq> L'" "\<And>p. p \<in> pages L \<Longrightarrow> page_eq (mem s) (mem s') p"
  shows "space_ok s' L' root" "xlate s' root = xlate s root" "tset 4 (mem s') root = tset 4 (mem s) root"
proof -
  have "wf_tables 4 (mem s) root" and t: "tset 4 (mem s) root \<subseteq> pages L" using assms(1) by (simp_all add: space_ok_def)
  then have "walk 4 (mem s') root = walk 4 (mem s) root \<and> tset 4 (mem s') root = tset 4 (mem s) root \<and> wf_tables 4 (mem s') root"
    using assms(4) by (intro tables_frame) auto
  then show "space_ok s' L' root" "xlate s' root = xlate s root" "tset 4 (mem s') root = tset 4 (mem s) root"
    using assms(2) t pages_mono [OF assms(3)] by (auto simp: space_ok_def xlate_def)
qed

lemma map_fresh_spec:
  assumes s: "space_ok s L root" and v: "v AND 0xfff = 0"
  obtains (none) s' L' where "map_fresh root v fl s = Some (s', 0)" "grown root L L' s s'" "xlate s' root = xlate s root" "mroom s < 32896"
    | (some) s' L' p where "map_fresh root v fl s = Some (s', p)" "grown root L L' s s'" "page_ok p" "p \<in> pages L' - pages L"
        "p \<notin> tset 4 (mem s') root" "\<And>x. pg x = p \<Longrightarrow> mem s' x = 0" "mroom s \<le> mroom s' + 32896"
        "xlate s' root = (\<lambda>v'. if pgno v' = pgno v then Some (p, fl AND LEAF_FLAGS) else xlate s root v')"
proof -
  have mm: "mm_ok s L" using s by (simp add: space_ok_def)
  then show thesis
  proof (cases rule: alloc_page_ok)
    case (nomem s1)
    have "space_ok s1 L root" "xlate s1 root = xlate s root" using space_ok_frame [OF s nomem(4)] nomem(2) by auto
    then show thesis using none [of s1 L] nomem by (simp add: map_fresh_def grown_def)
  next
    case (made s1 p n)
    let ?L = "insert (p, n) L"
    have eq: "page_eq (mem s) (mem s1) q" if "q \<in> pages L" for q
      using mset_mem_page(2) [OF made(2), of q] made(3,6) that by auto
    have f: "space_ok s1 ?L root" "xlate s1 root = xlate s root" "tset 4 (mem s1) root = tset 4 (mem s) root"
      using space_ok_frame [OF s made(5)] eq by blast+
    have P: "pages ?L = insert p (pages L)" by (rule pages_insert [OF made(2,4)])
    have pt: "p \<notin> tset 4 (mem s) root" using s made(3) by (auto simp: space_ok_def)
    have g1: "grown root L ?L s s1" using f made(7) eq by (auto simp: grown_def)
    obtain s2 ok L2 where m: "map_4k root v p fl s1 = Some (s2, ok)" "grown root ?L L2 s1 s2"
      "xlate s2 root = (\<lambda>v'. if ok \<and> agree 4 v v' then Some (addr p, fl AND LEAF_FLAGS) else xlate s1 root v')"
      "mroom s1 \<le> mroom s2 + 24672" "24672 \<le> mroom s1 \<longrightarrow> ok"
      by (rule map_4k_spec [OF f(1) v page_aligned [OF made(2)], where fl = fl])
    have g: "grown root L L2 s s2" by (rule grown_trans [OF g1 m(2)])
    have p0: "p \<noteq> 0" "addr p = p" using made(2) by (simp_all add: page_ok_def)
    show thesis
    proof (cases ok)
      case True
      have "page_eq (mem s1) (mem s2) p" using m(2) P pt f(3) by (simp add: grown_def)
      then have z: "mem s2 x = 0" if "pg x = p" for x
        using that made(6) mset_mem_page(1) [OF made(2), of x] by (simp add: page_eq_def)
      have pp: "p \<in> pages L2 - pages L" "p \<notin> tset 4 (mem s2) root" using P pages_mono [of ?L L2] m(2) made(3) pt f(3) by (auto simp: grown_def)
      have "xlate s2 root = (\<lambda>v'. if pgno v' = pgno v then Some (p, fl AND LEAF_FLAGS) else xlate s root v')"
        using m(3) f(2) p0(2) True by (auto simp: agree_pgno fun_eq_iff)
      moreover have "map_fresh root v fl s = Some (s2, p)" using made(1) m(1) p0(1) True by (simp add: map_fresh_def)
      ultimately show thesis using some [of s2 p L2] g made(2,8) pp z m(4) by simp
    next
      case False
      then show thesis using none [of s2 L2] g m(1,3,5) made(1,8) p0 f(2) by (simp add: map_fresh_def)
    qed
  qed
qed

section \<open>Filling a range of pages\<close>

text \<open>From \<open>s\<close> to \<open>s'\<close> the \<open>j\<close> pages from page number \<open>k\<close> on are mapped to distinct fresh pages with the given flags, and the
  byte at virtual address \<open>a\<close> becomes \<open>c a\<close>; nothing else is mapped or unmapped.\<close>

definition filled :: "u64 \<Rightarrow> nat \<Rightarrow> nat \<Rightarrow> u64 \<Rightarrow> (nat \<Rightarrow> u8) \<Rightarrow> (u64 \<times> nat) set \<Rightarrow> (u64 \<times> nat) set \<Rightarrow> mm \<Rightarrow> mm \<Rightarrow> bool" where
  "filled root k j fl c L L' s s' \<longleftrightarrow>
     grown root L L' s s' \<and>
     (\<exists>f. inj_on f {k..<k + j} \<and>
        (\<forall>i \<in> {k..<k + j}. f i \<in> pages L' - pages L \<and> f i \<notin> tset 4 (mem s') root \<and>
           (\<forall>b < 4096. mem s' (f i + of_nat b) = c (4096 * i + b))) \<and>
        xlate s' root = (\<lambda>v. if pgno v \<in> {k..<k + j} then Some (f (pgno v), fl) else xlate s root v))"

lemma filled_nil: "space_ok s L root \<Longrightarrow> filled root k 0 fl c L L s s"
  by (simp add: filled_def grown_refl)

lemma filled_grown: "filled root k j fl c L L' s s' \<Longrightarrow> grown root L L' s s'"
  by (simp add: filled_def)

text \<open>Pages outside of the tables keep their bytes while the address space grows.\<close>

lemma grown_page:
  assumes "grown root L L' s s'" "p \<in> pages L" "p \<notin> tset 4 (mem s) root"
  shows "p \<in> pages L'" "p \<notin> tset 4 (mem s') root" "b < 4096 \<Longrightarrow> mem s' (p + of_nat b) = mem s (p + of_nat b)"
proof -
  show "p \<in> pages L'" "p \<notin> tset 4 (mem s') root" using assms pages_mono [of L L'] by (auto simp: grown_def)
  have "page_ok p" "page_eq (mem s) (mem s') p" using assms by (simp_all add: pages_def grown_def)
  then show "b < 4096 \<Longrightarrow> mem s' (p + of_nat b) = mem s (p + of_nat b)"
    using pg_offset(1) [of p "of_nat b"] by (simp add: page_eq_def unat_of_nat_64)
qed

lemma filled_append:
  assumes 1: "filled root k j fl c L L1 s s1" and 2: "filled root (k + j) j' fl c L1 L2 s1 s2"
  shows "filled root k (j + j') fl c L L2 s s2"
proof -
  obtain f where f: "inj_on f {k..<k + j}" "\<And>i. i \<in> {k..<k + j} \<Longrightarrow> f i \<in> pages L1 - pages L \<and> f i \<notin> tset 4 (mem s1) root \<and>
      (\<forall>b < 4096. mem s1 (f i + of_nat b) = c (4096 * i + b))"
    "xlate s1 root = (\<lambda>v. if pgno v \<in> {k..<k + j} then Some (f (pgno v), fl) else xlate s root v)" using 1 by (auto simp: filled_def)
  obtain g where g: "inj_on g {k + j..<k + j + j'}" "\<And>i. i \<in> {k + j..<k + j + j'} \<Longrightarrow> g i \<in> pages L2 - pages L1 \<and> g i \<notin> tset 4 (mem s2) root \<and>
      (\<forall>b < 4096. mem s2 (g i + of_nat b) = c (4096 * i + b))"
    "xlate s2 root = (\<lambda>v. if pgno v \<in> {k + j..<k + j + j'} then Some (g (pgno v), fl) else xlate s1 root v)" using 2 by (auto simp: filled_def)
  note gr = filled_grown [OF 1] filled_grown [OF 2]
  let ?h = "\<lambda>i. if i < k + j then f i else g i"
  have "inj_on ?h {k..<k + (j + j')}"
  proof (rule inj_onI)
    fix x y
    assume a: "x \<in> {k..<k + (j + j')}" "y \<in> {k..<k + (j + j')}" "?h x = ?h y"
    show "x = y" using a f(2) [of x] f(2) [of y] g(2) [of x] g(2) [of y] inj_onD [OF f(1), of x y] inj_onD [OF g(1), of x y]
      by (cases "x < k + j"; cases "y < k + j") auto
  qed
  moreover have "?h i \<in> pages L2 - pages L \<and> ?h i \<notin> tset 4 (mem s2) root \<and> (\<forall>b < 4096. mem s2 (?h i + of_nat b) = c (4096 * i + b))"
    if i: "i \<in> {k..<k + (j + j')}" for i
  proof (cases "i < k + j")
    case True
    then show ?thesis using i f(2) [of i] grown_page [OF gr(2), of "f i"] by auto
  next
    case False
    then show ?thesis using i g(2) [of i] pages_mono [of L L1] gr(1) by (auto simp: grown_def)
  qed
  moreover have "xlate s2 root = (\<lambda>v. if pgno v \<in> {k..<k + (j + j')} then Some (?h (pgno v), fl) else xlate s root v)"
    using f(3) g(3) by (auto simp: fun_eq_iff)
  ultimately show ?thesis using grown_trans [OF gr] unfolding filled_def by (intro conjI exI [of _ ?h] ballI) simp_all
qed

text \<open>Copying bytes into a page.\<close>

lemma put_mem_page:
  assumes p: "page_ok p" and len: "off + length bs \<le> 4096"
  shows "q \<noteq> p \<Longrightarrow> page_eq m (put_mem (p + of_nat off) bs m) q"
    and "b < 4096 \<Longrightarrow> put_mem (p + of_nat off) bs m (p + of_nat b) = (if off \<le> b \<and> b < off + length bs then bs ! (b - off) else m (p + of_nat b))"
proof -
  have "pg x = p" if "unat (x - (p + of_nat off)) < length bs" for x
  proof -
    define d where "d = unat (x - (p + of_nat off))"
    have "x = p + (of_nat off + of_nat d)" by (simp add: d_def)
    then have "x = p + of_nat (off + d)" by simp
    moreover have "off + d < 4096" using that len by (simp add: d_def)
    ultimately show ?thesis using pg_offset(1) [OF p, of "of_nat (off + d)"] by (simp add: unat_of_nat_64 del: of_nat_add)
  qed
  then show "q \<noteq> p \<Longrightarrow> page_eq m (put_mem (p + of_nat off) bs m) q" by (auto simp: page_eq_def put_mem_def)
  assume b: "b < 4096"
  have d: "p + of_nat b - (p + of_nat off) = of_nat b - of_nat off" by simp
  show "put_mem (p + of_nat off) bs m (p + of_nat b) = (if off \<le> b \<and> b < off + length bs then bs ! (b - off) else m (p + of_nat b))"
  proof (cases "off \<le> b")
    case True
    then have "unat (of_nat b - of_nat off :: u64) = b - off" using b by (simp add: unat_of_nat_64 flip: of_nat_diff)
    then show ?thesis using True by (auto simp: put_mem_def d)
  next
    case False
    then have "2 ^ 64 - 4096 \<le> unat (of_nat b - of_nat off :: u64)" using len by (simp add: unat_sub_if_size unat_of_nat_64 word_size)
    then show ?thesis using False len by (simp add: put_mem_def d)
  qed
qed

lemma filled_one:
  assumes s: "space_ok s L root" and g: "grown root L L' s s'" and p: "page_ok p" "p \<in> pages L' - pages L" "p \<notin> tset 4 (mem s') root"
    and z: "\<And>x. pg x = p \<Longrightarrow> mem s' x = 0" and x: "xlate s' root = (\<lambda>v'. if pgno v' = k then Some (p, fl) else xlate s root v')"
    and len: "off + length bs \<le> 4096" and c: "\<And>b. b < 4096 \<Longrightarrow> c (4096 * k + b) = (if off \<le> b \<and> b < off + length bs then bs ! (b - off) else 0)"
  shows "filled root k 1 fl c L L' s (s'\<lparr>mem := put_mem (p + of_nat off) bs (mem s')\<rparr>)"
proof -
  let ?s = "s'\<lparr>mem := put_mem (p + of_nat off) bs (mem s')\<rparr>"
  note put = put_mem_page [OF p(1) len]
  have w: "wf_tables 4 (mem s') root" using g by (simp add: grown_def space_ok_def)
  have eq: "page_eq (mem s') (mem ?s) q" if "q \<noteq> p" for q using put(1) [OF that] by simp
  have fr: "walk 4 (mem ?s) root = walk 4 (mem s') root \<and> tset 4 (mem ?s) root = tset 4 (mem s') root \<and> wf_tables 4 (mem ?s) root"
    by (rule tables_frame [OF w]) (use eq p(3) in metis)
  have "page_eq (mem s) (mem ?s) q" if "q \<in> pages L" "q \<notin> tset 4 (mem s) root" for q
  proof -
    have "q \<noteq> p" "page_eq (mem s) (mem s') q" using g p(2) that by (auto simp: grown_def)
    then show ?thesis using page_eq_trans [OF _ eq] by blast
  qed
  then have g': "grown root L L' s ?s" using g fr by (simp add: grown_def space_ok_def mm_ok_def)
  have "mem s' (p + of_nat b) = 0" if "b < 4096" for b using z pg_offset(1) [OF p(1), of "of_nat b"] that by (simp add: unat_of_nat_64)
  then have "mem ?s (p + of_nat b) = c (4096 * k + b)" if "b < 4096" for b using put(2) [OF that] c [OF that] that by simp
  moreover have "xlate ?s root = (\<lambda>v. if pgno v \<in> {k..<k + 1} then Some (p, fl) else xlate s root v)"
    using fr x by (auto simp: xlate_def fun_eq_iff)
  ultimately show ?thesis using g' p(2,3) fr unfolding filled_def by (intro conjI exI [of _ "\<lambda>_. p"]) auto
qed

section \<open>New address spaces\<close>

lemma create_pml4_ok:
  assumes "mm_ok s L" "8224 \<le> mroom s"
  obtains s' p L' where "create_pml4 s = Some (s', p)" "space_ok s' L' p" "xlate s' p = (\<lambda>_. None)" "cr3 s' = cr3 s" "mroom s \<le> mroom s' + 8224"
  using assms(1)
proof (cases rule: alloc_page_ok)
  case (made s' p n)
  have "ent (mem s') p j = 0" if "j < 512" for j using ent_zero_page [OF _ made(2) that] mset_mem_page(1) [OF made(2)] by (simp add: made(6))
  then have e: "wf_tables 4 (mem s') p \<and> tset 4 (mem s') p = {p} \<and> walk 4 (mem s') p = (\<lambda>_. None)" using empty_table [OF made(2), of "mem s'" 4] by simp
  have "p \<in> pages (insert (p, n) L)" by (simp add: pages_insert [OF made(2,4)])
  then show thesis using that [of s' p "insert (p, n) L"] made(1,5,7,8) e by (simp add: create_pml4_def space_ok_def xlate_def)
qed (use assms(2) in simp)

text \<open>A machine with a heap of one megabyte and an address space, for the witnesses.\<close>

definition demo_mm :: mm where
  "demo_mm = \<lparr>mem = (\<lambda>_. 0), mheap = heap_init 4096 0x100000 \<lparr>heap_base = 0, heap_size = 0, heap_off = 0,
     hdr = (\<lambda>_. \<lparr>hsize = 0, isFree = False\<rparr>), arec = zero_record\<rparr>, cr3 = 0\<rparr>"

lemma demo_mm_ok: "mm_ok demo_mm {}" "mroom demo_mm = 0x100000"
proof -
  define h0 where "h0 = \<lparr>heap_base = 0, heap_size = 0, heap_off = 0, hdr = (\<lambda>_. \<lparr>hsize = 0, isFree = False\<rparr>), arec = zero_record\<rparr>"
  let ?h = "heap_init 4096 0x100000 h0"
  have m: "mheap demo_mm = ?h" by (simp add: demo_mm_def h0_def)
  have live: "heap_live ?h {}" by (rule heap_init_live) (simp_all add: slack_def)
  have "unat (heap_base ?h) = unat (4096 :: u64) + slack 4096 (unat (4096 :: u64))"
    "unat (heap_size ?h) = unat (0x100000 :: u64) - slack 4096 (unat (4096 :: u64))"
    by (rule heap_init_inv; simp add: slack_def)+
  then have h: "unat (heap_size ?h) = 0x100000" "unat (heap_base ?h) = 4096" "heap_off ?h = 0"
    using heap_live_empty [OF live] by (simp_all add: slack_def)
  show "mm_ok demo_mm {}" using live h by (simp add: mm_ok_def m)
  show "mroom demo_mm = 0x100000" using h by (simp add: mroom_def m)
qed

end
