(* ===== verification/Paging_Leaf.thy ===== *)
theory Paging_Leaf
  imports Paging_Space
begin

text \<open>
  The last table on the way to an address: finding it, as \<open>walk_leaf\<close>, \<open>user_page\<close> and \<open>unmap_4k\<close> of theory \<open>Paging\<close> do, and
  what a write to its entry does to the translation.
\<close>

unbundle bit_operations_syntax

section \<open>Paths through the tables\<close>

text \<open>\<open>pt\<close> is the last table on the way from the table \<open>t\<close> of level \<open>k + 1\<close> to the address \<open>v\<close>.\<close>

primrec on_path :: "nat \<Rightarrow> memory \<Rightarrow> u64 \<Rightarrow> u64 \<Rightarrow> u64 \<Rightarrow> bool" where
  "on_path 0 m t v pt \<longleftrightarrow> pt = t"
| "on_path (Suc k) m t v pt \<longleftrightarrow> is_table (ent m t (idx v (Suc (Suc k)))) \<and> on_path k m (addr (ent m t (idx v (Suc (Suc k))))) v pt"

text \<open>The same, with all entries open to user mode.\<close>

primrec user_path :: "nat \<Rightarrow> memory \<Rightarrow> u64 \<Rightarrow> u64 \<Rightarrow> bool" where
  "user_path 0 m t v \<longleftrightarrow> True"
| "user_path (Suc k) m t v \<longleftrightarrow> user (ent m t (idx v (Suc (Suc k)))) \<and> user_path k m (addr (ent m t (idx v (Suc (Suc k))))) v"

definition leaf_of :: "u64 \<Rightarrow> (u64 \<times> u64) option" where
  "leaf_of e = (if present e then Some (addr e, e AND LEAF_FLAGS) else None)"

lemma walk_down: "is_table (ent m t (idx v (Suc l))) \<Longrightarrow> l \<noteq> 0 \<Longrightarrow> walk (Suc l) m t v = walk l m (addr (ent m t (idx v (Suc l)))) v"
  by (simp add: Let_def is_table_def)

lemma on_path_leaf:
  assumes "wf_tables (Suc k) m t" "on_path k m t v pt"
  shows "page_ok pt \<and> pt \<in> tset (Suc k) m t \<and> walk (Suc k) m t v = leaf_of (ent m pt (idx v 1))"
  using assms
proof (induction k arbitrary: t)
  case 0
  then show ?case by (simp add: leaf_of_def Let_def)
next
  case (Suc k)
  let ?e = "ent m t (idx v (Suc (Suc k)))"
  have e: "is_table ?e" "on_path k m (addr ?e) v pt" "wf_tables (Suc k) m (addr ?e)" using Suc.prems by auto
  have "tset (Suc k) m (addr ?e) \<subseteq> tset (Suc (Suc k)) m t" by (rule tset_child [OF idx_less e(1)]) simp
  moreover have "walk (Suc (Suc k)) m t v = walk (Suc k) m (addr ?e) v" by (rule walk_down [OF e(1)]) simp
  moreover note Suc.IH [OF e(3,2)]
  ultimately show ?case by (simp only: subset_iff)
qed

lemma set_leaf:
  assumes "wf_tables (Suc k) m t" "on_path k m t v pt" "user_path k m t v \<or> \<not> present e \<or> \<not> user e"
  defines "m' \<equiv> set_ent pt (idx v 1) e m"
  shows "wf_tables (Suc k) m' t \<and> tset (Suc k) m' t \<subseteq> tset (Suc k) m t \<and>
    (\<forall>v'. walk (Suc k) m' t v' = (if agree (Suc k) v v' then leaf_of e else walk (Suc k) m t v'))"
  using assms(1,2,3)
proof (induction k arbitrary: t)
  case 0
  then show ?case using ent_set_ent [of t "idx v 1" _ e m] by (auto simp: m'_def agree_def leaf_of_def Let_def)
next
  case (Suc k)
  let ?i = "idx v (Suc (Suc k))"
  let ?e = "ent m t ?i"
  let ?a = "addr ?e"
  have e: "is_table ?e" "on_path k m ?a v pt" "wf_tables (Suc k) m ?a" "t \<notin> tset (Suc k) m ?a" "user ?e \<or> no_user (Suc k) m ?a"
    and up: "user ?e \<and> user_path k m ?a v \<or> \<not> present e \<or> \<not> user e" using Suc.prems by auto
  have pt: "page_ok pt" "pt \<in> tset (Suc k) m ?a" using on_path_leaf [OF e(3,2)] by simp_all
  have t: "page_ok t" "t \<noteq> pt" using Suc.prems(1) pt(2) e(4) by auto
  have eq: "page_eq m m' q" if "q \<noteq> pt" for q using set_ent_other_page [OF pt(1) idx_less that] by (simp add: m'_def)
  have ent: "ent m' t j = ent m t j" if "j < 512" for j using ent_page_eq [OF eq t(1) that] t(2) by simp
  have ih: "wf_tables (Suc k) m' ?a" "tset (Suc k) m' ?a \<subseteq> tset (Suc k) m ?a"
    "\<And>v'. walk (Suc k) m' ?a v' = (if agree (Suc k) v v' then leaf_of e else walk (Suc k) m ?a v')"
    using Suc.IH [OF e(3,2)] up by blast+
  have "user ?e \<or> no_user (Suc k) m' ?a"
    using e(5) up ih(3) by (auto simp: no_user_def leaf_of_def simp del: walk.simps split: if_splits)
  moreover have "page_eq m m' q" if "q \<notin> tset (Suc k) m ?a" for q using that pt(2) by (intro eq) blast
  ultimately have r: "relinked (Suc k) t ?i ?a {} m m'"
    using Suc.prems(1) ent e(1) ih(1,2) unfolding relinked_def below_def by (simp del: wf_tables.simps tset.simps)
  have "walk (Suc (Suc k)) m' t v' = (if agree (Suc (Suc k)) v v' then leaf_of e else walk (Suc (Suc k)) m t v')" for v'
  proof (cases "idx v' (Suc (Suc k)) = ?i")
    case True
    have "walk (Suc (Suc k)) m t v' = walk (Suc k) m ?a v'" using walk_down [of m t v' "Suc k"] e(1) True by (simp del: walk.simps)
    then show ?thesis using relinked_walk [OF r, of v'] ih(3) [of v'] True by (simp add: agree_Suc [of "Suc k"] del: walk.simps)
  qed (use relinked_walk [OF r, of v'] in \<open>auto simp: agree_Suc [of "Suc k"] simp del: walk.simps\<close>)
  then show ?case using relinked_wf [OF r] relinked_tset [OF r] by blast
qed

section \<open>User pages\<close>

text \<open>\<open>user_table\<close> from a table of level \<open>k + 1\<close> on.\<close>

primrec user_table_level :: "nat \<Rightarrow> memory \<Rightarrow> u64 \<Rightarrow> u64 \<Rightarrow> u64 option" where
  "user_table_level 0 m t v = Some t"
| "user_table_level (Suc k) m t v =
     (let e = ent m t (idx v (Suc (Suc k))) in if \<not> present e \<or> \<not> user e then None else user_table_level k m (addr e) v)"

lemma user_table_levels: "user_table m root v = user_table_level 3 m root v"
  by (simp add: user_table_def Let_def numeral_eq_Suc)

definition user_leaf :: "bool \<Rightarrow> (u64 \<times> u64) option \<Rightarrow> bool" where
  "user_leaf w x = (case x of None \<Rightarrow> False | Some (p, f) \<Rightarrow> user f \<and> (w \<longrightarrow> writable f))"

text \<open>User mode may read, or write, at \<open>v\<close>.\<close>

definition user_access :: "mm \<Rightarrow> u64 \<Rightarrow> bool \<Rightarrow> u64 \<Rightarrow> bool" where
  "user_access s root w v = user_leaf w (xlate s root v)"

lemma leaf_writable [simp]: "writable (e AND LEAF_FLAGS) \<longleftrightarrow> writable e"
  by (simp add: entry_simps entry_bits)

lemma user_leaf_of: "user_leaf w (leaf_of e) \<longleftrightarrow> present e \<and> user e \<and> (w \<longrightarrow> writable e)"
  by (simp add: user_leaf_def leaf_of_def)

lemma wf_entry:
  assumes "wf_tables (Suc (Suc k)) m t" "i < 512"
  shows "present (ent m t i) \<Longrightarrow> user (ent m t i) \<Longrightarrow> is_table (ent m t i)"
    and "is_table (ent m t i) \<Longrightarrow> wf_tables (Suc k) m (addr (ent m t i)) \<and> (user (ent m t i) \<or> no_user (Suc k) m (addr (ent m t i)))"
proof -
  show "present (ent m t i) \<Longrightarrow> user (ent m t i) \<Longrightarrow> is_table (ent m t i)"
    using assms unfolding wf_tables.simps(2) [of "Suc k"] is_table_def by blast
  show "is_table (ent m t i) \<Longrightarrow> wf_tables (Suc k) m (addr (ent m t i)) \<and> (user (ent m t i) \<or> no_user (Suc k) m (addr (ent m t i)))"
    using assms unfolding wf_tables.simps(2) [of "Suc k"] by blast
qed

lemma user_table_level_path:
  assumes "wf_tables (Suc k) m t"
  shows "(case user_table_level k m t v of
       Some pt \<Rightarrow> on_path k m t v pt \<and> user_path k m t v
     | None \<Rightarrow> \<not> user_leaf False (walk (Suc k) m t v))"
  using assms
proof (induction k arbitrary: t)
  case (Suc k)
  let ?e = "ent m t (idx v (Suc (Suc k)))"
  show ?case
  proof (cases "present ?e \<and> user ?e")
    case True
    then have e: "is_table ?e" "wf_tables (Suc k) m (addr ?e)" using wf_entry [OF Suc.prems idx_less] by blast+
    show ?thesis using Suc.IH [OF e(2)] True e(1) walk_down [OF e(1)] by (simp add: Let_def del: walk.simps split: option.splits)
  next
    case False
    have "\<not> user_leaf False (walk (Suc (Suc k)) m t v)"
    proof (cases "is_table ?e")
      case True
      then have "no_user (Suc k) m (addr ?e)" using wf_entry(2) [OF Suc.prems idx_less True] False by (simp add: is_table_def)
      then show ?thesis using walk_down [OF True] by (auto simp: no_user_def user_leaf_def simp del: walk.simps split: option.splits)
    qed (use False in \<open>auto simp: is_table_def user_leaf_def Let_def\<close>)
    then show ?thesis using False by (simp add: Let_def del: walk.simps)
  qed
qed simp

lemma user_table_path:
  assumes "space_ok s L root"
  shows "(case user_table (mem s) root v of
       Some pt \<Rightarrow> on_path 3 (mem s) root v pt \<and> user_path 3 (mem s) root v \<and> xlate s root v = leaf_of (ent (mem s) pt (idx v 1))
     | None \<Rightarrow> \<not> user_access s root w v)"
proof -
  have wf: "wf_tables (Suc 3) (mem s) root" using assms by (simp add: space_ok_def)
  show ?thesis using user_table_level_path [OF wf, of v] on_path_leaf [OF wf, of v]
    by (auto simp: user_table_levels user_access_def user_leaf_def xlate_def simp del: walk.simps wf_tables.simps split: option.splits)
qed

text \<open>Addresses in the same page have the same translation.\<close>

lemma walk_agree: "agree l v v' \<Longrightarrow> l \<noteq> 0 \<Longrightarrow> walk l m t v = walk l m t v'"
proof (induction l arbitrary: t)
  case (Suc l)
  have "idx v (Suc l) = idx v' (Suc l)" "idx v 1 = idx v' 1" "agree l v v'" using Suc.prems by (auto simp: agree_def)
  then show ?case using Suc.IH by (cases "l = 0") (simp_all add: Let_def)
qed simp

lemma xlate_pgno: "pgno v = pgno v' \<Longrightarrow> xlate s root v = xlate s root v'"
  unfolding xlate_def by (rule walk_agree) (simp_all add: agree_pgno)

lemma set_leaf_space:
  assumes s: "space_ok s L root" and pt: "on_path 3 (mem s) root v pt" "user_path 3 (mem s) root v \<or> \<not> present e \<or> \<not> user e"
  defines "s' \<equiv> s\<lparr>mem := set_ent pt (idx v 1) e (mem s)\<rparr>"
  shows "grown root L L s s'" "xlate s' root = (\<lambda>v'. if pgno v' = pgno v then leaf_of e else xlate s root v')"
proof -
  have wf: "wf_tables (Suc 3) (mem s) root" using s by (simp add: space_ok_def)
  have r: "wf_tables 4 (mem s') root" "tset 4 (mem s') root \<subseteq> tset 4 (mem s) root"
    "\<And>v'. walk 4 (mem s') root v' = (if agree 4 v v' then leaf_of e else walk 4 (mem s) root v')"
    using set_leaf [OF wf pt] by (simp_all add: s'_def)
  have p: "page_ok pt" "pt \<in> tset 4 (mem s) root" using on_path_leaf [OF wf pt(1)] by simp_all
  have "page_eq (mem s) (mem s') q" if "q \<notin> tset 4 (mem s) root" for q
    using set_ent_other_page [OF p(1) idx_less, of q] p(2) that by (auto simp: s'_def)
  then show "grown root L L s s'" using s r(1,2) by (auto simp: grown_def space_ok_def s'_def mm_ok_def)
  show "xlate s' root = (\<lambda>v'. if pgno v' = pgno v then leaf_of e else xlate s root v')"
    using r(3) by (auto simp: xlate_def fun_eq_iff agree_pgno)
qed

end
