(* ===== verification/Paging_Ranges.thy ===== *)
theory Paging_Ranges
  imports Paging_Leaf
begin

text \<open>
  What \<open>map_user_range\<close> of theory \<open>Paging\<close> does to the translation, and that \<open>is_user_range\<close> decides what user mode may access.
\<close>

unbundle bit_operations_syntax

section \<open>Mapping\<close>

lemma map_range_loop_fresh:
  "map_range_loop root a e fl s =
     (if \<not> a < e then Some (s, True)
      else do {
        (s, p) \<leftarrow> map_fresh root a (fl OR PTE_USER) s;
        if p = 0 then Some (s, False) else map_range_loop root (a + 0x1000) e fl s
      })"
  by (subst map_range_loop.simps) (auto simp: map_fresh_def split: bind_splits prod.splits)

lemma filled_none: "grown root L L' s s' \<Longrightarrow> xlate s' root = xlate s root \<Longrightarrow> filled root k 0 fl c L L' s s'"
  by (simp add: filled_def)

lemma map_range_spec:
  assumes "space_ok s L root" "4096 * (k + n) \<le> 2 ^ 47"
  shows "\<exists>s' L' ok j. map_range_loop root (of_nat (4096 * k)) (of_nat (4096 * (k + n))) fl s = Some (s', ok) \<and>
    filled root k j ((fl OR PTE_USER) AND LEAF_FLAGS) (\<lambda>_. 0) L L' s s' \<and> j \<le> n \<and> (ok \<longleftrightarrow> j = n) \<and> (32896 * n \<le> mroom s \<longrightarrow> ok)"
  using assms
proof (induction n arbitrary: k s L)
  case 0
  then show ?case using filled_nil [OF 0(1)] by (subst map_range_loop_fresh) (auto intro!: exI [of _ L])
next
  case (Suc n)
  let ?a = "of_nat (4096 * k) :: u64" and ?e = "of_nat (4096 * (k + Suc n)) :: u64" and ?f = "(fl OR PTE_USER) AND LEAF_FLAGS"
  have lt: "?a < ?e" using Suc.prems(2) by (simp add: word_less_nat_alt unat_of_nat_64 del: of_nat_mult of_nat_add)
  have nxt: "?a + 0x1000 = of_nat (4096 * Suc k)" "k + Suc n = Suc k + n" by simp_all
  have no: "pgno ?a = k" using pgno_of_nat [of k] Suc.prems(2) by simp
  from Suc.prems(1) aligned_of_nat show ?case
  proof (cases rule: map_fresh_spec [where v = ?a and fl = "fl OR PTE_USER"])
    case (none s' L')
    then show ?thesis using lt filled_none [OF none(2,3)]
      by (subst map_range_loop_fresh) (intro exI [of _ s'] exI [of _ L'] exI [of _ False] exI [of _ 0], simp del: of_nat_mult of_nat_add)
  next
    case (some s' L' p)
    have "filled root k 1 ?f (\<lambda>_. 0) L L' s (s'\<lparr>mem := put_mem (p + of_nat 0) [] (mem s')\<rparr>)"
      by (rule filled_one [OF Suc.prems(1) some(2-6)]) (use some(8) no in simp_all)
    then have one: "filled root k 1 ?f (\<lambda>_. 0) L L' s s'" by (simp add: put_mem_def)
    obtain s2 L2 ok j where r: "map_range_loop root (of_nat (4096 * Suc k)) (of_nat (4096 * (Suc k + n))) fl s' = Some (s2, ok)"
      "filled root (Suc k) j ?f (\<lambda>_. 0) L' L2 s' s2" "j \<le> n" "ok \<longleftrightarrow> j = n" "32896 * n \<le> mroom s' \<longrightarrow> ok"
      using Suc.IH [of s' L' "Suc k"] some(2) Suc.prems(2) by (auto simp: grown_def)
    have "map_range_loop root ?a ?e fl s = Some (s2, ok)"
      using lt some(1,3) r(1) by (subst map_range_loop_fresh) (simp only: nxt page_ok_def, simp)
    moreover have "filled root k (Suc j) ?f (\<lambda>_. 0) L L2 s s2" using filled_append [OF one] r(2) by simp
    ultimately show ?thesis using r(3-5) some(7) by (intro exI [of _ s2] exI [of _ L2] exI [of _ ok] exI [of _ "Suc j"]) auto
  qed
qed

text \<open>The pages that a range of addresses touches: the number of the first one, and how many there are.\<close>

definition range_first :: "u64 \<Rightarrow> nat" where
  "range_first base = unat base div 4096"

definition range_pages :: "u64 \<Rightarrow> u64 \<Rightarrow> nat" where
  "range_pages base len = (unat base + unat len + 4095) div 4096 - unat base div 4096"

text \<open>
  C37. For a range of addresses below the end of user space, \<open>map_user_range\<close> returns, keeps the address space well formed,
  and maps the pages that the range touches, in order, to distinct fresh pages filled with zeros, with the requested flags and
  open to user mode; all other translations stay. It reports success exactly when all pages are mapped, which is the case when
  the heap has room for four page allocations (the page itself and three tables), each at most 8224 bytes with its header and
  alignment, per page of the range. An empty range is refused.
\<close>

theorem map_user_range_correct:
  assumes "space_ok s L root" "unat base + unat len \<le> 2 ^ 47"
  shows "\<exists>s' L' ok j. map_user_range root base len fl s = Some (s', ok) \<and>
    filled root (range_first base) j ((fl OR PTE_USER) AND LEAF_FLAGS) (\<lambda>_. 0) L L' s s' \<and> j \<le> range_pages base len \<and>
    (ok \<longleftrightarrow> len \<noteq> 0 \<and> j = range_pages base len) \<and> (len \<noteq> 0 \<and> 32896 * range_pages base len \<le> mroom s \<longrightarrow> ok)"
proof (cases "len = 0")
  case True
  then show ?thesis using filled_nil [OF assms(1)] by (auto simp: map_user_range_def intro!: exI [of _ L] exI [of _ 0])
next
  case False
  define k n where "k = range_first base" and "n = range_pages base len"
  have u: "unat (base + len) = unat base + unat len" "unat (base + len + 0xfff) = unat base + unat len + 4095"
    using assms(2) by (simp_all add: unat_word_ariths)
  have kn: "k + n = (unat base + unat len + 4095) div 4096" by (simp add: k_def n_def range_first_def range_pages_def div_le_mono)
  have b: "4096 * (k + n) \<le> 2 ^ 47" using assms(2) by (simp add: kn)
  have "\<not> base + len < base" by (simp add: word_less_nat_alt u)
  moreover have "\<not> (of_nat (4096 * (k + n)) :: u64) < of_nat (4096 * k)" using b by (simp add: word_less_nat_alt unat_of_nat_64 del: of_nat_mult of_nat_add)
  moreover have "base AND PAGE_MASK = of_nat (4096 * k)" "(base + len + 0xfff) AND PAGE_MASK = of_nat (4096 * (k + n))"
    by (simp_all only: page_base u kn) (simp only: k_def range_first_def)
  ultimately have "map_user_range root base len fl s = map_range_loop root (of_nat (4096 * k)) (of_nat (4096 * (k + n))) fl s"
    using False by (simp add: map_user_range_def Let_def)
  then show ?thesis using map_range_spec [OF assms(1) b] False by (simp add: k_def n_def)
qed

lemma switch_pml4_ok:
  assumes "space_ok s L root"
  shows "space_ok (switch_pml4 root s) L root" "xlate (switch_pml4 root s) root = xlate s root" "mroom (switch_pml4 root s) = mroom s"
    "read_cr3 (switch_pml4 root s) = root"
  using assms wf_tables_page [of 4 "mem s" root]
  by (simp_all add: space_ok_def mm_ok_def xlate_def mroom_def switch_pml4_def read_cr3_def page_ok_def)

text \<open>An address space with two pages for user mode at \<open>0x400000\<close>.\<close>

lemma demo_user:
  obtains s0 root s L f where "create_pml4 demo_mm = Some (s0, root)"
    "map_range_loop root 0x400000 0x402000 PTE_WRITABLE (switch_pml4 root s0) = Some (s, True)" "space_ok s L root" "read_cr3 s = root"
    "xlate s root = (\<lambda>v. if pgno v \<in> {1024..<1026} then Some (f (pgno v), PTE_WRITABLE OR PTE_USER) else None)"
proof -
  obtain s0 root L0 where c: "create_pml4 demo_mm = Some (s0, root)" "space_ok s0 L0 root" "xlate s0 root = (\<lambda>_. None)" "mroom demo_mm \<le> mroom s0 + 8224"
    by (rule create_pml4_ok [OF demo_mm_ok(1)]) (simp_all add: demo_mm_ok)
  note sw = switch_pml4_ok [OF c(2)]
  obtain s L ok j where r: "map_range_loop root (of_nat (4096 * 1024)) (of_nat (4096 * (1024 + 2))) PTE_WRITABLE (switch_pml4 root s0) = Some (s, ok)"
    "filled root 1024 j ((PTE_WRITABLE OR PTE_USER) AND LEAF_FLAGS) (\<lambda>_. 0) L0 L (switch_pml4 root s0) s" "j \<le> 2" "ok \<longleftrightarrow> j = 2"
    "32896 * 2 \<le> mroom (switch_pml4 root s0) \<longrightarrow> ok"
    using map_range_spec [OF sw(1), of 1024 2 PTE_WRITABLE] by auto
  have j: "ok" "j = 2" using r(4,5) c(4) sw(3) by (auto simp: demo_mm_ok)
  have fl: "(PTE_WRITABLE OR PTE_USER) AND LEAF_FLAGS = PTE_WRITABLE OR PTE_USER" by (simp add: LEAF_FLAGS_def PTE_WRITABLE_def PTE_USER_def PTE_PWT_def PTE_PCD_def PTE_NX_def)
  have "grown root L0 L (switch_pml4 root s0) s" using r(2) by (rule filled_grown)
  then have "space_ok s L root" "read_cr3 s = root" using sw(4) by (simp_all add: grown_def read_cr3_def)
  moreover obtain f where "xlate s root = (\<lambda>v. if pgno v \<in> {1024..<1024 + j} then Some (f (pgno v), PTE_WRITABLE OR PTE_USER) else None)"
    using r(2) unfolding filled_def fl sw(2) c(3) by blast
  ultimately show thesis using that [OF c(1), of s L f] r(1) j by simp
qed

theorem map_user_range_correct_witness:
  "\<exists>s0 root L s' ok j. create_pml4 demo_mm = Some (s0, root) \<and> space_ok s0 L root \<and>
    map_user_range root 0x400ff0 0x1000 PTE_WRITABLE s0 = Some (s', ok) \<and> ok \<and> j = 2 \<and> j = range_pages 0x400ff0 0x1000 \<and>
    (\<exists>L'. filled root 1024 j ((PTE_WRITABLE OR PTE_USER) AND LEAF_FLAGS) (\<lambda>_. 0) L L' s0 s')"
proof -
  obtain s0 root L where c: "create_pml4 demo_mm = Some (s0, root)" "space_ok s0 L root" "mroom demo_mm \<le> mroom s0 + 8224"
    by (rule create_pml4_ok [OF demo_mm_ok(1)]) (simp_all add: demo_mm_ok)
  have r: "range_first 0x400ff0 = 1024" "range_pages 0x400ff0 0x1000 = 2" by (simp_all add: range_first_def range_pages_def)
  show ?thesis using map_user_range_correct [OF c(2), of "0x400ff0" "0x1000" PTE_WRITABLE] c(1,3) c(2) r by (auto simp: demo_mm_ok)
qed

section \<open>Checking\<close>

text \<open>What holds of whole pages holds at the addresses of a range if it holds of the pages that the range touches.\<close>

lemma range_by_pages:
  fixes base len :: u64
  assumes P: "\<And>v v'. pgno v = pgno v' \<Longrightarrow> P v = P v'" and len: "len \<noteq> 0" "unat base + unat len \<le> 2 ^ 47"
  shows "(\<forall>a \<in> {unat base..<unat base + unat len}. P (of_nat a)) \<longleftrightarrow>
    (\<forall>i \<in> {unat base div 4096..(unat base + unat len - 1) div 4096}. P (of_nat (4096 * i)))"
proof -
  have no: "pgno (of_nat a) = a div 4096" if "a < 2 ^ 47" for a using that by (simp add: pgno_def unat_of_nat_64)
  have l: "0 < unat len" using len(1) by (simp add: unat_gt_0)
  show ?thesis
  proof (intro iffI ballI)
    fix i
    assume a: "\<forall>a \<in> {unat base..<unat base + unat len}. P (of_nat a)" and i: "i \<in> {unat base div 4096..(unat base + unat len - 1) div 4096}"
    define b where "b = max (unat base) (4096 * i)"
    have "4096 * i \<le> unat base + unat len - 1" "unat base < 4096 * Suc i" using i by (simp_all add: less_eq_div_iff_mult_less_eq div_less_iff_less_mult flip: less_Suc_eq_le) linarith+
    then have b: "b \<in> {unat base..<unat base + unat len}" "b div 4096 = i" using l by (auto simp: b_def max_def)
    then have "pgno (of_nat b) = pgno (of_nat (4096 * i))" using no [of b] no [of "4096 * i"] len(2) by (simp add: b_def del: of_nat_mult)
    then show "P (of_nat (4096 * i))" using a b(1) P by blast
  next
    fix b
    assume a: "\<forall>i \<in> {unat base div 4096..(unat base + unat len - 1) div 4096}. P (of_nat (4096 * i))" and b: "b \<in> {unat base..<unat base + unat len}"
    have "b div 4096 \<in> {unat base div 4096..(unat base + unat len - 1) div 4096}" using b by (auto intro: div_le_mono)
    moreover have "b < 2 ^ 47" "4096 * (b div 4096) \<le> b" using b len(2) by (simp_all add: div_times_less_eq_dividend mult.commute)
    then have "pgno (of_nat b) = pgno (of_nat (4096 * (b div 4096)))" using no [of b] no [of "4096 * (b div 4096)"] by (simp del: of_nat_mult)
    ultimately show "P (of_nat b)" using a P by blast
  qed
qed

lemma user_access_pgno: "pgno v = pgno v' \<Longrightarrow> user_access s root w v = user_access s root w v'"
  using xlate_pgno [of v v' s root] by (simp add: user_access_def)

lemma low_address: "unat (v :: u64) < 2 ^ 47 \<Longrightarrow> v AND NOT 0x00007fffffffffff = 0"
proof -
  assume "unat v < 2 ^ 47"
  then have "bit v n \<Longrightarrow> n < 47" for n using bits_below [of v 47 n] by simp
  moreover have m: "(0x00007fffffffffff :: u64) = mask 47" by (simp add: mask_eq_exp_minus_1)
  ultimately show ?thesis unfolding m by (intro bit_word_eqI) (auto simp: bit_simps)
qed

lemma root_page: "space_ok s L root \<Longrightarrow> root \<noteq> 0 \<and> root AND ADDR_MASK = root"
  using wf_tables_page [of 4 "mem s" root] by (simp add: space_ok_def page_ok_def)

lemma walk_leaf_spec:
  assumes "space_ok s L root" "unat v < 2 ^ 47"
  shows "(case walk_leaf root v s of
       None \<Rightarrow> \<not> user_access s root False v
     | Some (pt, i) \<Rightarrow> i = idx v 1 \<and> on_path 3 (mem s) root v pt \<and> user_path 3 (mem s) root v \<and>
         xlate s root v = leaf_of (ent (mem s) pt i) \<and> user_access s root False v)"
  using user_table_path [OF assms(1), where v = v and w = False] root_page [OF assms(1)] low_address [OF assms(2)]
  by (auto simp: walk_leaf_def Let_def user_access_def user_leaf_of split: option.splits)

text \<open>One step of the loops over pages.\<close>

lemma page_step:
  assumes "4096 * (k + Suc n) < 2 ^ 47"
  defines "a \<equiv> of_nat (4096 * k) :: u64" and "e \<equiv> of_nat (4096 * (k + Suc n)) :: u64"
  shows "a \<noteq> e" "\<not> e - 0x1000 < a" "a + 0x1000 = of_nat (4096 * Suc k)" "e = of_nat (4096 * (Suc k + n))" "a \<le> e" "unat a < 2 ^ 47" "pgno a = k"
proof -
  have u: "unat a = 4096 * k" "unat e = 4096 * (k + Suc n)" using assms(1) by (simp_all add: a_def e_def unat_of_nat_64 del: of_nat_mult of_nat_add)
  show "a \<noteq> e" using u by auto
  have "unat (e - 0x1000) = unat e - 4096" using u(2) by (simp add: unat_sub_if_size)
  then show "\<not> e - 0x1000 < a" using u by (simp add: word_less_nat_alt)
  show "a + 0x1000 = of_nat (4096 * Suc k)" "e = of_nat (4096 * (Suc k + n))" by (simp_all add: a_def e_def)
  show "a \<le> e" "unat a < 2 ^ 47" "pgno a = k" using u assms(1) by (simp_all add: word_le_nat_alt pgno_def)
qed

lemma check_loop_spec:
  assumes "space_ok s L root" "4096 * (k + n) < 2 ^ 47"
  shows "check_loop root (of_nat (4096 * k)) (of_nat (4096 * (k + n))) s = Some (\<forall>i \<in> {k..k + n}. user_access s root False (of_nat (4096 * i)))"
  using assms(2)
proof (induction n arbitrary: k)
  case 0
  have "unat (of_nat (4096 * k) :: u64) < 2 ^ 47" using 0 by (simp add: unat_of_nat_64 del: of_nat_mult)
  then show ?case using walk_leaf_spec [OF assms(1)] by (subst check_loop.simps) (force split: option.splits)
next
  case (Suc n)
  note st = page_step [OF Suc.prems]
  have "{k..k + Suc n} = insert k {Suc k..Suc k + n}" by auto
  moreover have "walk_leaf root (of_nat (4096 * k)) s = None \<longleftrightarrow> \<not> user_access s root False (of_nat (4096 * k))"
    using walk_leaf_spec [OF assms(1) st(6)] by (auto split: option.splits)
  ultimately show ?case using Suc.IH [of "Suc k"] Suc.prems st(1-4) by (subst check_loop.simps) (simp del: of_nat_mult of_nat_add)
qed

lemma user_page_spec:
  assumes "space_ok s L root" "read_cr3 s = root"
  shows "user_page v w s \<longleftrightarrow> user_access s root w v"
  using user_table_path [OF assms(1), where v = v and w = w] root_page [OF assms(1)]
  by (auto simp: user_page_def assms(2) Let_def user_access_def user_leaf_of split: option.splits)

lemma range_loop_spec:
  assumes "space_ok s L root" "read_cr3 s = root" "4096 * (k + n) < 2 ^ 47"
  shows "range_loop (of_nat (4096 * k)) (of_nat (4096 * (k + n))) w s = Some (\<forall>i \<in> {k..k + n}. user_access s root w (of_nat (4096 * i)))"
  using assms(3)
proof (induction n arbitrary: k)
  case 0
  have "(of_nat (4096 * k) :: u64) < of_nat (4096 * k) + 0x1000"
    using 0 by (simp add: word_less_nat_alt unat_of_nat_64 unat_word_ariths(1) del: of_nat_mult)
  then have "range_loop (of_nat (4096 * k) + 0x1000) (of_nat (4096 * k)) w s = Some True" by (subst range_loop.simps) (simp add: not_le)
  then show ?case by (subst range_loop.simps) (simp add: user_page_spec [OF assms(1,2)])
next
  case (Suc n)
  note st = page_step [OF Suc.prems]
  have "{k..k + Suc n} = insert k {Suc k..Suc k + n}" by auto
  then show ?case using Suc.IH [of "Suc k"] Suc.prems st(3-5) user_page_spec [OF assms(1,2)]
    by (subst range_loop.simps) (simp del: of_nat_mult of_nat_add)
qed

text \<open>The guards on a range, and its first and last page.\<close>

lemma range_guards:
  fixes base len :: u64
  assumes len: "len \<noteq> 0"
  shows "base + len < base \<or> 0x00007fffffffffff < base + len - 1 \<longleftrightarrow> \<not> unat base + unat len \<le> 2 ^ 47"
    and "0x00007fffffffffff < base \<or> base + len < base \<or> 0x0000800000000000 < base + len \<longleftrightarrow> \<not> unat base + unat len \<le> 2 ^ 47"
proof -
  have l: "0 < unat len" using len by (simp add: unat_gt_0)
  have b: "unat base < 2 ^ 64" "unat len < 2 ^ 64" using unsigned_less [of base, where ?'a = nat] unsigned_less [of len, where ?'a = nat] by simp_all
  have wrap: "base + len < base \<longleftrightarrow> 2 ^ 64 \<le> unat base + unat len"
    using b by (auto simp: word_less_nat_alt unat_word_ariths(1) mod_if)
  have nw: "unat (base + len) = unat base + unat len \<and> unat (base + len - 1) = unat base + unat len - 1" if "\<not> 2 ^ 64 \<le> unat base + unat len"
    using that l by (auto simp: unat_word_ariths(1) unat_sub_if_size)
  show "base + len < base \<or> 0x00007fffffffffff < base + len - 1 \<longleftrightarrow> \<not> unat base + unat len \<le> 2 ^ 47"
    unfolding wrap using nw l by (cases "2 ^ 64 \<le> unat base + unat len") (auto simp: word_less_nat_alt)
  show "0x00007fffffffffff < base \<or> base + len < base \<or> 0x0000800000000000 < base + len \<longleftrightarrow> \<not> unat base + unat len \<le> 2 ^ 47"
    unfolding wrap using nw l by (cases "2 ^ 64 \<le> unat base + unat len") (auto simp: word_less_nat_alt)
qed

lemma range_ends:
  assumes "len \<noteq> 0" "unat base + unat len \<le> 2 ^ 47"
  obtains n where "(base + len - 1) AND PAGE_MASK = of_nat (4096 * (unat base div 4096 + n))" "4096 * (unat base div 4096 + n) < 2 ^ 47"
    "unat base div 4096 + n = (unat base + unat len - 1) div 4096"
proof -
  define n where "n = (unat base + unat len - 1) div 4096 - unat base div 4096"
  have l: "0 < unat len" using assms(1) by (simp add: unat_gt_0)
  then have "unat base div 4096 \<le> (unat base + unat len - 1) div 4096" by (intro div_le_mono) simp
  then have n: "unat base div 4096 + n = (unat base + unat len - 1) div 4096" by (simp add: n_def)
  have "unat (base + len - 1) = unat base + unat len - 1" using assms(2) l by (simp add: unat_word_ariths(1) unat_sub_if_size)
  then have "(base + len - 1) AND PAGE_MASK = of_nat (4096 * (unat base div 4096 + n))" by (simp only: page_base n)
  moreover have "4096 * (unat base div 4096 + n) < 2 ^ 47" unfolding n using assms(2) l div_times_less_eq_dividend [of "unat base + unat len - 1" 4096] by linarith
  ultimately show thesis using that n by blast
qed

text \<open>
  C38. \<open>is_user_range\<close> returns, and answers whether the range is not empty, ends below the end of user space without
  wrapping around, and the translation in force lets user mode read, or write, at each of its addresses.
\<close>

theorem is_user_range_correct:
  assumes "space_ok s L root" "read_cr3 s = root"
  shows "is_user_range base len w s =
    Some (len \<noteq> 0 \<and> unat base + unat len \<le> 2 ^ 47 \<and> (\<forall>a \<in> {unat base..<unat base + unat len}. user_access s root w (of_nat a)))"
proof (cases "len \<noteq> 0 \<and> unat base + unat len \<le> 2 ^ 47")
  case True
  then obtain n where n: "(base + len - 1) AND PAGE_MASK = of_nat (4096 * (unat base div 4096 + n))" "4096 * (unat base div 4096 + n) < 2 ^ 47"
    "unat base div 4096 + n = (unat base + unat len - 1) div 4096" using range_ends by blast
  have "is_user_range base len w s = range_loop (of_nat (4096 * (unat base div 4096))) (of_nat (4096 * (unat base div 4096 + n))) w s"
    using True range_guards(1) [of len base] n(1) page_base [of base] by (auto simp: is_user_range_def Let_def simp del: of_nat_mult of_nat_add)
  then show ?thesis using range_loop_spec [OF assms n(2)] range_by_pages [of "user_access s root w" len base, OF user_access_pgno] True n(3) by simp
next
  case False
  then show ?thesis using range_guards(1) [of len base] by (auto simp: is_user_range_def Let_def)
qed

theorem is_user_range_correct_witness:
  "\<exists>s0 root s. create_pml4 demo_mm = Some (s0, root) \<and>
    map_range_loop root 0x400000 0x402000 PTE_WRITABLE (switch_pml4 root s0) = Some (s, True) \<and>
    is_user_range 0x400ff0 0x20 True s = Some True \<and> is_user_range 0x401ff0 0x20 True s = Some False"
proof -
  obtain s0 root s L f where d: "create_pml4 demo_mm = Some (s0, root)"
    "map_range_loop root 0x400000 0x402000 PTE_WRITABLE (switch_pml4 root s0) = Some (s, True)" "space_ok s L root" "read_cr3 s = root"
    "xlate s root = (\<lambda>v. if pgno v \<in> {1024..<1026} then Some (f (pgno v), PTE_WRITABLE OR PTE_USER) else None)" by (rule demo_user)
  have fl: "user (PTE_WRITABLE OR PTE_USER)" "writable (PTE_WRITABLE OR PTE_USER)" by (simp_all add: user_def writable_def PTE_WRITABLE_def PTE_USER_def)
  have no: "pgno (of_nat a) = a div 4096" if "a < 2 ^ 47" for a using that by (simp add: pgno_def unat_of_nat_64)
  have "user_access s root True (of_nat a)" if "a \<in> {0x400ff0..<0x400ff0 + 0x20}" for a
  proof -
    have "a div 4096 \<in> {1024..<1026}" "a < 2 ^ 47" using that by auto
    then show ?thesis using d(5) fl no [of a] by (simp add: user_access_def user_leaf_def)
  qed
  moreover have "\<not> user_access s root True (of_nat 0x402000)" using d(5) no [of "0x402000"] by (simp add: user_access_def user_leaf_def)
  then have "\<not> (\<forall>a \<in> {0x401ff0..<0x401ff0 + 0x20 :: nat}. user_access s root True (of_nat a))"
    by (intro notI) (drule bspec [where x = "0x402000"], simp_all)
  ultimately have "is_user_range 0x400ff0 0x20 True s = Some True" "is_user_range 0x401ff0 0x20 True s = Some False"
    using is_user_range_correct [OF d(3,4), of "0x400ff0" "0x20" True] is_user_range_correct [OF d(3,4), of "0x401ff0" "0x20" True] by simp_all
  then show ?thesis using d(1,2) by blast
qed

end
