(* ===== verification/Paging_Protect.thy ===== *)
theory Paging_Protect
  imports Paging_Ranges
begin

text \<open>
  What \<open>protect_user_range\<close> and \<open>unmap_4k\<close> of theory \<open>Paging\<close> do to the translation.
\<close>

unbundle bit_operations_syntax

section \<open>Protecting\<close>

text \<open>A page keeps its place and gets new flags.\<close>

definition reflag :: "u64 \<Rightarrow> (u64 \<times> u64) option \<Rightarrow> (u64 \<times> u64) option" where
  "reflag fl x = map_option (\<lambda>(p, f). (p, (fl AND LEAF_FLAGS) OR PTE_USER)) x"

lemma protect_entry_leaf: "leaf_of (protect_entry fl e) = Some (addr e, (fl AND LEAF_FLAGS) OR PTE_USER)"
proof -
  have "present (protect_entry fl e)" by (simp add: protect_entry_def entry_simps entry_bits)
  moreover have "addr (protect_entry fl e) = addr e" by (rule bit_word_eqI) (auto simp: protect_entry_def entry_bits)
  moreover have "protect_entry fl e AND LEAF_FLAGS = (fl AND LEAF_FLAGS) OR PTE_USER"
    by (rule bit_word_eqI) (auto simp: protect_entry_def entry_bits)
  ultimately show ?thesis by (simp add: leaf_of_def)
qed

text \<open>One pass of the loop: the entry of the page at \<open>v\<close> in its last table is rewritten.\<close>

definition protect_at :: "u64 \<Rightarrow> u64 \<Rightarrow> u64 \<Rightarrow> mm \<Rightarrow> mm" where
  "protect_at pt v fl s = s\<lparr>mem := set_ent pt (idx v 1) (protect_entry fl (ent (mem s) pt (idx v 1))) (mem s)\<rparr>"

lemma protect_page:
  assumes s: "space_ok s L root" and v: "unat v < 2 ^ 47" "user_access s root False v"
  obtains pt where "walk_leaf root v s = Some (pt, idx v 1)" "grown root L L s (protect_at pt v fl s)"
    "xlate (protect_at pt v fl s) root = (\<lambda>v'. if pgno v' = pgno v then reflag fl (xlate s root v') else xlate s root v')"
proof -
  obtain pt where pt: "walk_leaf root v s = Some (pt, idx v 1)" "on_path 3 (mem s) root v pt" "user_path 3 (mem s) root v"
    "xlate s root v = leaf_of (ent (mem s) pt (idx v 1))"
    using walk_leaf_spec [OF s v(1)] v(2) by (auto split: option.splits)
  let ?e = "ent (mem s) pt (idx v 1)"
  have "present ?e" using v(2) pt(4) by (auto simp: user_access_def user_leaf_def leaf_of_def split: if_splits)
  then have "reflag fl (xlate s root v') = leaf_of (protect_entry fl ?e)" if "pgno v' = pgno v" for v'
    using xlate_pgno [OF that, of s root] pt(4) unfolding protect_entry_leaf by (simp add: reflag_def leaf_of_def)
  then show thesis using that [OF pt(1)] set_leaf_space [OF s pt(2), of "protect_entry fl ?e"] pt(3)
    by (simp add: protect_at_def fun_eq_iff)
qed

lemma protect_loop_step:
  assumes "walk_leaf root v s = Some (pt, idx v 1)"
  shows "protect_loop root v e fl s =
    (if v = e then Some (protect_at pt v fl s, True)
     else if e - 0x1000 < v then Some (protect_at pt v fl s, False)
     else protect_loop root (v + 0x1000) e fl (protect_at pt v fl s))"
  by (subst protect_loop.simps) (simp add: assms protect_at_def Let_def)

lemma protect_loop_spec:
  assumes "space_ok s L root" "4096 * (k + n) < 2 ^ 47" "\<forall>i \<in> {k..k + n}. user_access s root False (of_nat (4096 * i))"
  shows "\<exists>s'. protect_loop root (of_nat (4096 * k)) (of_nat (4096 * (k + n))) fl s = Some (s', True) \<and> grown root L L s s' \<and>
    xlate s' root = (\<lambda>v. if pgno v \<in> {k..k + n} then reflag fl (xlate s root v) else xlate s root v)"
  using assms
proof (induction n arbitrary: k s)
  case 0
  let ?a = "of_nat (4096 * k) :: u64"
  have a: "unat ?a < 2 ^ 47" "user_access s root False ?a" using 0(2,3) by (simp_all add: unat_of_nat_64 del: of_nat_mult)
  have no: "pgno ?a = k" using pgno_of_nat [of k] 0(2) by simp
  obtain pt where pt: "walk_leaf root ?a s = Some (pt, idx ?a 1)" "grown root L L s (protect_at pt ?a fl s)"
    "xlate (protect_at pt ?a fl s) root = (\<lambda>v'. if pgno v' = pgno ?a then reflag fl (xlate s root v') else xlate s root v')"
    by (rule protect_page [OF 0(1) a])
  show ?case
  proof (intro exI [of _ "protect_at pt ?a fl s"] conjI)
    show "protect_loop root ?a (of_nat (4096 * (k + 0))) fl s = Some (protect_at pt ?a fl s, True)" unfolding protect_loop_step [OF pt(1)] by simp
    show "xlate (protect_at pt ?a fl s) root = (\<lambda>v. if pgno v \<in> {k..k + 0} then reflag fl (xlate s root v) else xlate s root v)"
      unfolding pt(3) no by (simp add: fun_eq_iff)
  qed (fact pt(2))
next
  case (Suc n)
  let ?a = "of_nat (4096 * k) :: u64"
  note st = page_step [OF Suc.prems(2)]
  have "user_access s root False ?a" using Suc.prems(3) by simp
  then obtain pt where pt: "walk_leaf root ?a s = Some (pt, idx ?a 1)" "grown root L L s (protect_at pt ?a fl s)"
    "xlate (protect_at pt ?a fl s) root = (\<lambda>v'. if pgno v' = pgno ?a then reflag fl (xlate s root v') else xlate s root v')"
    by (rule protect_page [OF Suc.prems(1) st(6)])
  define s1 where "s1 = protect_at pt ?a fl s"
  have x1: "xlate s1 root = (\<lambda>v'. if pgno v' = k then reflag fl (xlate s root v') else xlate s root v')" using pt(3) unfolding s1_def st(7) .
  have u: "user_access s1 root False (of_nat (4096 * i))" if i: "i \<in> {Suc k..Suc k + n}" for i
  proof -
    have "pgno (of_nat (4096 * i)) = i" using pgno_of_nat [of i] i Suc.prems(2) by simp
    moreover have "user_access s root False (of_nat (4096 * i))" using Suc.prems(3) i by simp
    ultimately show ?thesis using i unfolding user_access_def x1 by simp
  qed
  have "space_ok s1 L root" "4096 * (Suc k + n) < 2 ^ 47" using pt(2) Suc.prems(2) by (simp_all add: s1_def grown_def)
  then obtain s' where r: "protect_loop root (of_nat (4096 * Suc k)) (of_nat (4096 * (Suc k + n))) fl s1 = Some (s', True)" "grown root L L s1 s'"
    "xlate s' root = (\<lambda>v. if pgno v \<in> {Suc k..Suc k + n} then reflag fl (xlate s1 root v) else xlate s1 root v)"
    using Suc.IH [of s1 "Suc k"] u by blast
  have "protect_loop root ?a (of_nat (4096 * (k + Suc n))) fl s = Some (s', True)"
    unfolding protect_loop_step [OF pt(1)] if_not_P [OF st(1)] if_not_P [OF st(2)] st(3) s1_def [symmetric]
    using r(1) by (simp only: add_Suc_shift)
  moreover have "grown root L L s s'" using grown_trans [OF pt(2)] r(2) by (simp add: s1_def)
  moreover have "xlate s' root = (\<lambda>v. if pgno v \<in> {k..k + Suc n} then reflag fl (xlate s root v) else xlate s root v)"
    unfolding r(3) x1 by (rule ext) (auto split: if_splits)
  ultimately show ?case by blast
qed

text \<open>
  C39. \<open>protect_user_range\<close> returns and either does everything or nothing. It succeeds exactly when the range is not empty,
  ends below the end of user space without wrapping around, and all its addresses are open to user mode. Then the pages the
  range touches stay where they are and get the requested flags, open to user mode; no other translation changes. Otherwise no
  translation changes. The tables stay well formed and no page outside of them is written.
\<close>

theorem protect_user_range_correct:
  assumes "space_ok s L root"
  shows "\<exists>s' ok. protect_user_range root base len fl s = Some (s', ok) \<and> grown root L L s s' \<and>
    (ok \<longleftrightarrow> len \<noteq> 0 \<and> unat base + unat len \<le> 2 ^ 47 \<and> (\<forall>a \<in> {unat base..<unat base + unat len}. user_access s root False (of_nat a))) \<and>
    xlate s' root = (\<lambda>v. if ok \<and> pgno v \<in> {unat base div 4096..(unat base + unat len - 1) div 4096}
                         then reflag fl (xlate s root v) else xlate s root v)"
proof (cases "len \<noteq> 0 \<and> unat base + unat len \<le> 2 ^ 47")
  case True
  then obtain n where n: "(base + len - 1) AND PAGE_MASK = of_nat (4096 * (unat base div 4096 + n))" "4096 * (unat base div 4096 + n) < 2 ^ 47"
    "unat base div 4096 + n = (unat base + unat len - 1) div 4096" using range_ends by blast
  let ?k = "unat base div 4096"
  let ?ok = "\<forall>i \<in> {?k..?k + n}. user_access s root False (of_nat (4096 * i))"
  have by_pages: "(\<forall>a \<in> {unat base..<unat base + unat len}. user_access s root False (of_nat a)) \<longleftrightarrow> ?ok"
    using range_by_pages [of "user_access s root False" len base, OF user_access_pgno] True n(3) by simp
  have p: "protect_user_range root base len fl s =
      (if ?ok then protect_loop root (of_nat (4096 * ?k)) (of_nat (4096 * (?k + n))) fl s else Some (s, False))"
    using True range_guards(2) [of len base] root_page [OF assms] check_loop_spec [OF assms n(2)] n(1) page_base [of base]
    by (simp add: protect_user_range_def Let_def del: of_nat_mult of_nat_add)
  show ?thesis
  proof (cases ?ok)
    case ok: True
    obtain s' where r: "protect_loop root (of_nat (4096 * ?k)) (of_nat (4096 * (?k + n))) fl s = Some (s', True)" "grown root L L s s'"
      "xlate s' root = (\<lambda>v. if pgno v \<in> {?k..?k + n} then reflag fl (xlate s root v) else xlate s root v)"
      using protect_loop_spec [OF assms n(2) ok] by blast
    have "protect_user_range root base len fl s = Some (s', True)" unfolding p if_P [OF ok] by (rule r(1))
    then show ?thesis using r(2,3) by_pages ok True n(3) by (intro exI [of _ s'] exI [of _ True]) simp
  next
    case False
    show ?thesis unfolding by_pages p using False grown_refl [OF assms] by (intro exI [of _ s] exI [of _ False]) auto
  qed
next
  case False
  then have "protect_user_range root base len fl s = Some (s, False)"
    using range_guards(2) [of len base] by (auto simp: protect_user_range_def)
  then show ?thesis using False grown_refl [OF assms] by (intro exI [of _ s] exI [of _ False]) auto
qed

theorem protect_user_range_correct_witness:
  "\<exists>s0 root s s' s''. create_pml4 demo_mm = Some (s0, root) \<and>
    map_range_loop root 0x400000 0x402000 PTE_WRITABLE (switch_pml4 root s0) = Some (s, True) \<and>
    protect_user_range root 0x401000 0x1000 PTE_NX s = Some (s', True) \<and> \<not> user_access s' root True 0x401000 \<and> user_access s' root True 0x400000 \<and>
    protect_user_range root 0x401000 0x1001 PTE_NX s = Some (s'', False) \<and> xlate s'' root = xlate s root"
proof -
  obtain s0 root s L f where d: "create_pml4 demo_mm = Some (s0, root)"
    "map_range_loop root 0x400000 0x402000 PTE_WRITABLE (switch_pml4 root s0) = Some (s, True)" "space_ok s L root" "read_cr3 s = root"
    "xlate s root = (\<lambda>v. if pgno v \<in> {1024..<1026} then Some (f (pgno v), PTE_WRITABLE OR PTE_USER) else None)" by (rule demo_user)
  have fl: "user (PTE_WRITABLE OR PTE_USER)" "writable (PTE_WRITABLE OR PTE_USER)" "\<not> writable ((PTE_NX AND LEAF_FLAGS) OR PTE_USER)"
    by (simp_all add: entry_simps entry_bits)
  have no: "pgno (of_nat a) = a div 4096" if "a < 2 ^ 47" for a using that by (simp add: pgno_def unat_of_nat_64)
  have "user_access s root False (of_nat a)" if "a \<in> {0x401000..<0x401000 + 0x1000}" for a
  proof -
    have "a div 4096 \<in> {1024..<1026}" "a < 2 ^ 47" using that by auto
    then show ?thesis using d(5) fl no [of a] by (simp add: user_access_def user_leaf_def)
  qed
  then obtain s' where r: "protect_user_range root 0x401000 0x1000 PTE_NX s = Some (s', True)"
    "xlate s' root = (\<lambda>v. if pgno v = 1025 then reflag PTE_NX (xlate s root v) else xlate s root v)"
    using protect_user_range_correct [OF d(3), of "0x401000" "0x1000" PTE_NX] by auto
  have "\<not> user_access s root False (of_nat 0x402000)" using d(5) no [of "0x402000"] by (simp add: user_access_def user_leaf_def)
  then have n: "(\<forall>a \<in> {0x401000..<0x402001 :: nat}. user_access s root False (of_nat a)) = False"
    by (simp only: simp_thms, intro notI) (drule bspec [where x = "0x402000"], simp_all)
  obtain s'' where q: "protect_user_range root 0x401000 0x1001 PTE_NX s = Some (s'', False)" "xlate s'' root = xlate s root"
    using protect_user_range_correct [OF d(3), of "0x401000" "0x1001" PTE_NX] n by auto
  have "pgno 0x401000 = 1025" "pgno 0x400000 = 1024" by (simp_all add: pgno_def)
  then have "\<not> user_access s' root True 0x401000" "user_access s' root True 0x400000"
    using r(2) d(5) fl by (simp_all add: user_access_def user_leaf_def reflag_def)
  then show ?thesis using d(1,2) r(1) q by blast
qed

section \<open>Unmapping\<close>

text \<open>The chain of reads of \<open>unmap_4k\<close> from a table of level \<open>k + 1\<close> on.\<close>

primrec last_table :: "nat \<Rightarrow> memory \<Rightarrow> u64 \<Rightarrow> u64 \<Rightarrow> u64 option" where
  "last_table 0 m t v = Some t"
| "last_table (Suc k) m t v =
     (let e = ent m t (idx v (Suc (Suc k))) in if \<not> present e then None else last_table k m (addr e) v)"

lemma unmap_4k_level:
  "unmap_4k root v s =
     (if root = 0 \<or> v AND 0xfff \<noteq> 0 then (s, False)
      else case last_table 3 (mem s) root v of
        None \<Rightarrow> (s, False)
      | Some pt \<Rightarrow> (s\<lparr>mem := set_ent pt (idx v 1) 0 (mem s)\<rparr>, True))"
  by (simp add: unmap_4k_def Let_def numeral_eq_Suc)

lemma last_table_path:
  assumes "wf_tables (Suc k) m t" "walk (Suc k) m t v = None \<or> user_leaf False (walk (Suc k) m t v)"
  shows "(case last_table k m t v of None \<Rightarrow> walk (Suc k) m t v = None | Some pt \<Rightarrow> on_path k m t v pt)"
  using assms
proof (induction k arbitrary: t)
  case (Suc k)
  let ?e = "ent m t (idx v (Suc (Suc k)))"
  show ?case
  proof (cases "present ?e")
    case True
    have "is_table ?e"
    proof (rule ccontr)
      assume h: "\<not> is_table ?e"
      then have "walk (Suc (Suc k)) m t v = Some ((?e AND BASE_2M) + push_bit 12 (idx v 1), ?e AND LEAF_FLAGS)" using True by (simp add: is_table_def Let_def)
      then have "user ?e" using Suc.prems(2) by (simp add: user_leaf_def del: walk.simps)
      then show False using wf_entry(1) [OF Suc.prems(1) idx_less True] h by simp
    qed
    note t = this
    have w: "walk (Suc (Suc k)) m t v = walk (Suc k) m (addr ?e) v" by (rule walk_down [OF t]) simp
    have "wf_tables (Suc k) m (addr ?e)" using wf_entry(2) [OF Suc.prems(1) idx_less t] by simp
    then show ?thesis using Suc.IH [of "addr ?e"] Suc.prems(2) w t True by (simp add: Let_def del: walk.simps split: option.splits)
  qed (simp add: Let_def)
qed simp

text \<open>
  C40. \<open>unmap_4k\<close> at a page that is not mapped, or that is open to user mode, takes exactly that page out of the translation
  and keeps the address space well formed; it reports success if the page was mapped.
\<close>

theorem unmap_4k_correct:
  assumes "space_ok s L root" "v AND 0xfff = 0" "xlate s root v = None \<or> user_access s root False v"
  shows "\<exists>s' ok. unmap_4k root v s = (s', ok) \<and> grown root L L s s' \<and> (xlate s root v \<noteq> None \<longrightarrow> ok) \<and>
    xlate s' root = (\<lambda>v'. if pgno v' = pgno v then None else xlate s root v')"
proof -
  have wf: "wf_tables (Suc 3) (mem s) root" using assms(1) by (simp add: space_ok_def)
  have w: "xlate s root = walk (Suc 3) (mem s) root" by (simp add: xlate_def del: walk.simps)
  have path: "case last_table 3 (mem s) root v of None \<Rightarrow> xlate s root v = None | Some pt \<Rightarrow> on_path 3 (mem s) root v pt"
    using last_table_path [OF wf, of v] assms(3) unfolding w [symmetric] user_access_def by simp
  show ?thesis
  proof (cases "last_table 3 (mem s) root v")
    case None
    then have n: "xlate s root v = None" using path by simp
    have "xlate s root = (\<lambda>v'. if pgno v' = pgno v then None else xlate s root v')"
    proof
      show "xlate s root v' = (if pgno v' = pgno v then None else xlate s root v')" for v' using xlate_pgno [of v' v s root] n by simp
    qed
    then show ?thesis using None n grown_refl [OF assms(1)] by (intro exI [of _ s] exI [of _ False]) (auto simp: unmap_4k_level)
  next
    case (Some pt)
    have z: "\<not> present 0" "leaf_of 0 = None" by (simp_all add: present_def leaf_of_def)
    then show ?thesis using Some path set_leaf_space [OF assms(1), of v pt 0] root_page [OF assms(1)] assms(2)
      by (intro exI [of _ "s\<lparr>mem := set_ent pt (idx v 1) 0 (mem s)\<rparr>"] exI [of _ True]) (simp add: unmap_4k_level fun_eq_iff)
  qed
qed

theorem unmap_4k_correct_witness:
  "\<exists>s0 root s s'. create_pml4 demo_mm = Some (s0, root) \<and>
    map_range_loop root 0x400000 0x402000 PTE_WRITABLE (switch_pml4 root s0) = Some (s, True) \<and>
    unmap_4k root 0x401000 s = (s', True) \<and> xlate s' root 0x401000 = None \<and> user_access s' root True 0x400000"
proof -
  obtain s0 root s L f where d: "create_pml4 demo_mm = Some (s0, root)"
    "map_range_loop root 0x400000 0x402000 PTE_WRITABLE (switch_pml4 root s0) = Some (s, True)" "space_ok s L root" "read_cr3 s = root"
    "xlate s root = (\<lambda>v. if pgno v \<in> {1024..<1026} then Some (f (pgno v), PTE_WRITABLE OR PTE_USER) else None)" by (rule demo_user)
  have fl: "user (PTE_WRITABLE OR PTE_USER)" "writable (PTE_WRITABLE OR PTE_USER)" by (simp_all add: entry_simps entry_bits)
  have no: "pgno 0x401000 = 1025" "pgno 0x400000 = 1024" by (simp_all add: pgno_def)
  have "user_access s root False 0x401000" using d(5) no fl by (simp add: user_access_def user_leaf_def)
  then obtain s' where "unmap_4k root 0x401000 s = (s', True)" "xlate s' root = (\<lambda>v'. if pgno v' = 1025 then None else xlate s root v')"
    using unmap_4k_correct [OF d(3), of "0x401000"] d(5) no by auto
  then show ?thesis using d(1,2,5) fl no by (auto simp: user_access_def user_leaf_def)
qed

end
