(* ===== verification/Spec2Isabelle.thy ===== *)
theory Spec2Isabelle
  imports Scheduler_Loop Livepatch IoUring_Concurrent Libc_Numbers Initramfs_Archive Tcp_Timer Tcp_Stream Spinlock Paging_Protect
begin

text \<open>
  A verification development for the kernel of Block OS. The operations of the source are functions on records that hold the
  file-scope variables; machine integers are words of their width; a call that fails gives the failure value of the source, and
  a call that does not return, or that reads or writes outside of a buffer, has the result \<^const>\<open>None\<close>. So a theorem that gives a
  result of the form \<^const>\<open>Some\<close> also says that the call returns and stays within its buffers.

  \<^bold>\<open>Shared material.\<close> Theory \<open>Prelude\<close>: the machine types, the first-match search in tables of fixed size, the contract
  \<open>slot_table\<close> of such a table, and the passage from words to natural numbers.

  \<^bold>\<open>Tasks.\<close> Theory \<open>Scheduler\<close> models \<^verbatim>\<open>src/kernel/scheduler.cpp\<close>, \<^verbatim>\<open>src/kernel/scheduler.hpp\<close> and the second policy of
  \<^verbatim>\<open>src/kernel/scheduler-deadline.cpp\<close>. The record \<open>sched\<close> holds \<open>tasks\<close>, \<open>policies\<close>, \<open>current\<close> and the counters; policies are
  called through the contract \<open>sched_policy\<close>, which both policies satisfy. Shown there and in \<open>Scheduler_Runs\<close>: the choice of the
  next task is the best one, an invariant of all calls but the cooperative loop, creation and destruction against the lookup, and
  registration of policies. Theory \<open>Scheduler_Loop\<close> treats \<open>run_scheduler_loop\<close>, with task entry functions that call back into the
  scheduler: which of these calls let the loop end and in what state it leaves the tasks, and that in runs of calls and loops only
  the current task is in the running state, under conditions without which the code does strand a running task.

  \<^bold>\<open>Live patches.\<close> Theory \<open>Livepatch\<close> models \<^verbatim>\<open>src/kernel/livepatch/livepatch.cpp\<close>. Shown: applying and rolling back all
  patches restores every function pointer, and what the registry holds after any sequence of calls. The two loops over the table
  share their proofs through \<open>patch_pass\<close>.

  \<^bold>\<open>Rings.\<close> Theory \<open>Ring\<close> gives the contract \<open>fifo\<close> of a queue and a ring with 32-bit counters that satisfies it; theory
  \<open>IoUring\<close> models \<^verbatim>\<open>src/kernel/io_uring.cpp\<close> by whole calls, for callers that do not overlap in time; these are shown to refine
  two bounded queues. In theory \<open>IoUring_Concurrent\<close> the same calls are sequences of memory accesses that interleave, with the lock
  held in \<open>submit\<close> and \<open>get_completion\<close> and not in \<open>poll\<close>, as in the code. Shown: run alone the accesses of a call do what the whole
  call does; with one poll at a time completions are delivered in order and at most once, without races on slots; and two polls
  at once can complete a submission twice.

  \<^bold>\<open>Locks.\<close> Theory \<open>Spinlock\<close> models \<^verbatim>\<open>src/kernel/spinlock.cpp\<close> by a step relation, one instruction of one CPU at a time.
  Shown for every interleaving of any number of CPUs: mutual exclusion, and what happens to the interrupt flag. Memory is
  sequentially consistent and no interrupt handler runs inside the operations.

  \<^bold>\<open>Kernel heap.\<close> Theory \<open>Allocator\<close> models \<^verbatim>\<open>src/kernel/allocator.cpp\<close>. Theories \<open>Heap_Blocks\<close> and \<open>Heap_Refine\<close> show that it
  implements a first-fit allocator on lists of blocks; \<open>Heap_Laws\<close> derives the contract \<open>heap_api\<close>, under which the other
  parts use the heap, and the properties of allocation, of freeing and of sequences of both.

  \<^bold>\<open>C library.\<close> Theory \<open>Libc_String\<close> models \<^verbatim>\<open>src/libc/src/string.cpp\<close> over a byte memory, \<open>Libc_Stdlib\<close> the heap, the
  conversions and the random numbers of \<^verbatim>\<open>src/libc/src/stdlib.cpp\<close>, whose heap again satisfies \<open>heap_api\<close>, and \<open>Libc_Numbers\<close>
  shows the conversions correct against a grammar.

  \<^bold>\<open>Files.\<close> Theory \<open>Vfs\<close> models \<^verbatim>\<open>src/fs/vfs.cpp\<close> over the kernel heap. \<open>Vfs_Paths\<close> treats paths; \<open>Vfs_Safe\<close>, \<open>Vfs_Ops\<close>, \<open>Vfs_Nodes\<close> and
  \<open>Vfs_Listing\<close> show what each operation does to the map \<open>files\<close> from paths to nodes and that it keeps the invariant \<open>vfs_ok\<close>,
  which ties the entries to the blocks in use; \<open>Vfs_Props\<close> and \<open>Vfs_Limits\<close> hold the properties. Theory \<open>Initramfs\<close> models
  \<^verbatim>\<open>src/fs/initramfs.cpp\<close>, which fills the file system; \<open>Initramfs_Names\<close>, \<open>Initramfs_Props\<close> and \<open>Initramfs_Archive\<close> show that
  mounting any bytes is safe and that a well-formed archive is read back as it was written.

  \<^bold>\<open>TCP.\<close> Theory \<open>Tcp\<close> models \<^verbatim>\<open>src/net/tcp.cpp\<close>, with the layer below as a parameter. \<open>Tcp_Safe\<close> and \<open>Tcp_Calls\<close> show that all
  sequences of calls, packets and ticks keep every connection well formed; \<open>Tcp_Timer\<close> that silent connections are freed;
  \<open>Tcp_Stream\<close> that a reader sees a prefix of what the peer sent; \<open>Tcp_Checksum\<close> when a sent segment is accepted.

  \<^bold>\<open>Page tables.\<close> Theory \<open>Paging\<close> models mapping, unmapping, permissions and the check of user pointers of
  \<^verbatim>\<open>src/arch/86_64x/paging.cpp\<close> over the kernel heap and a byte memory. \<open>Paging_Memory\<close> reads back entries and pages;
  \<open>Paging_Walk\<close> defines the translation \<open>walk\<close> of addresses, to the page and the flags of the last entry on the way, without
  combining them with the writable bits of the tables above, and the well-formedness of a tree of tables; \<open>Paging_Map\<close> shows what \<open>map_4k\<close>
  does to the translation at all levels, the split of 2 MB pages included; \<open>Paging_Space\<close> and \<open>Paging_Leaf\<close> carry this to whole address
  spaces and to single entries; \<open>Paging_Ranges\<close> and \<open>Paging_Protect\<close> hold the properties.

  \<^bold>\<open>Bounds and loops.\<close> No model has fuel. Loops over tables and strings are structural recursions or partial functions with an
  optional result, and the theorems state that they return. Sizes are those of the source (64 patches, 256 bytes of a path, 16
  connections with their buffers). The theorems on page tables ask for a heap below \<open>2 ^ 52\<close>, which table entries can address, and
  for addresses below \<open>2 ^ 47\<close>, the end of user space; 8224 bytes of the heap are always enough for one page with its alignment.

  \<^bold>\<open>Not modelled.\<close> Of the page tables: fork, reference counts and the destruction of address spaces, which call functions of the
  allocator that no source defines, the copy of the current address space, the kernel's identity map, the diagnostics and the
  translation buffer. Of the C library: input and output, character classes, mathematics and an unused sorting routine. Not modelled at all: the program
  loader, processes and preemption, read-copy-update (it rests on the ordering of atomic accesses), system calls, the console, login
  and shell with their commands, the service manager, the network layers other than TCP, the file systems on devices, device
  drivers, start-up and other assembly, the ESP32 port, user programs, ports and build files. They are input and output, device
  registers, third-party code, or parts that rest on those.
\<close>

end
